(* ===== verification/Prelude.thy ===== *)
theory Prelude
  imports Main "HOL-Library.Monad_Syntax"
begin

text \<open>
  Shared ground of the development: the reading of C's integers, arrays and strings that every
  component uses, and the generic lemmas on lists and options their proofs share.

  Undefined behaviour is a value: an operation that C leaves undefined on some operands (signed
  overflow, a load outside an array) returns \<open>None\<close>, and a function of the source that performs
  such operations is a function into \<open>option\<close>, composed with the option monad. A theorem that such
  a function returns \<open>Some\<close> is then a proof that no undefined behaviour is reached.
\<close>

named_theorems ub_defs \<open>definitions of the partial C operations\<close>
named_theorems c_bounds \<open>range facts of C integers\<close>

section \<open>Integers\<close>

text \<open>C's \<open>int\<close> and \<open>long long\<close> are mathematical integers with a range.\<close>

type_synonym cint = int

definition INT_MAX :: int where "INT_MAX = 2147483647"
definition INT_MIN :: int where "INT_MIN = - 2147483648"
definition LONG_MAX :: int where "LONG_MAX = 9223372036854775807"
definition LONG_MIN :: int where "LONG_MIN = - 9223372036854775808"

definition int32 :: "int \<Rightarrow> bool" where
  "int32 i \<longleftrightarrow> INT_MIN \<le> i \<and> i \<le> INT_MAX"

definition int64 :: "int \<Rightarrow> bool" where
  "int64 i \<longleftrightarrow> LONG_MIN \<le> i \<and> i \<le> LONG_MAX"

text \<open>The result of a signed 32-bit or 64-bit operation: undefined when it does not fit.\<close>

definition chk32 :: "int \<Rightarrow> int option" where
  [ub_defs]: "chk32 i = (if int32 i then Some i else None)"

definition chk64 :: "int \<Rightarrow> int option" where
  [ub_defs]: "chk64 i = (if int64 i then Some i else None)"

text \<open>Conversion of a wider integer to \<open>int\<close>, which gcc and clang define to wrap.\<close>

definition to_int :: "int \<Rightarrow> int" where
  "to_int i = (i + 2147483648) mod 4294967296 - 2147483648"

text \<open>Conversion to \<open>size_t\<close> wraps; every \<open>size_t\<close> operation is taken modulo \<open>2 ^ 64\<close>.\<close>

definition size_t :: "int \<Rightarrow> int" where
  "size_t i = i mod 18446744073709551616"

text \<open>
  C divides towards zero and traps on a zero divisor. The program divides non-negative numbers by
  positive ones only; the model checks that rather than relying on it.
\<close>

definition c_div :: "int \<Rightarrow> int \<Rightarrow> int option" where
  [ub_defs]: "c_div a b = (if b = 0 then None else Some (sgn a * sgn b * (\<bar>a\<bar> div \<bar>b\<bar>)))"

definition c_mod :: "int \<Rightarrow> int \<Rightarrow> int option" where
  [ub_defs]: "c_mod a b = (if b = 0 then None else Some (sgn a * (\<bar>a\<bar> mod \<bar>b\<bar>)))"

lemmas int_limits = INT_MAX_def INT_MIN_def LONG_MAX_def LONG_MIN_def
lemmas int_ranges = int32_def int64_def int_limits

lemma chk32_Some [simp]: "int32 i \<Longrightarrow> chk32 i = Some i"
  by (simp add: chk32_def)

lemma chk64_Some [simp]: "int64 i \<Longrightarrow> chk64 i = Some i"
  by (simp add: chk64_def)

lemma chk32_eq_Some [simp]: "chk32 i = Some j \<longleftrightarrow> int32 i \<and> j = i"
  by (auto simp: chk32_def)

lemma to_int_id [simp]: "int32 i \<Longrightarrow> to_int i = i"
  by (simp add: to_int_def int_ranges)

lemma size_t_id [simp]: "0 \<le> i \<Longrightarrow> i < 18446744073709551616 \<Longrightarrow> size_t i = i"
  by (simp add: size_t_def)

lemma c_div_pos [simp]: "0 \<le> a \<Longrightarrow> 0 < b \<Longrightarrow> c_div a b = Some (a div b)"
  by (cases "a = 0") (auto simp: c_div_def)

lemma c_mod_pos [simp]: "0 \<le> a \<Longrightarrow> 0 < b \<Longrightarrow> c_mod a b = Some (a mod b)"
  by (cases "a = 0") (auto simp: c_mod_def)

section \<open>Arrays\<close>

text \<open>
  An array of the source is a list. \<open>ptr_add\<close> forms the address of an element (C allows one past
  the end), \<open>load\<close> and \<open>store\<close> access it.
\<close>

definition ptr_add :: "'a list \<Rightarrow> int \<Rightarrow> int option" where
  [ub_defs]: "ptr_add xs i = (if 0 \<le> i \<and> i \<le> int (length xs) then Some i else None)"

definition load :: "'a list \<Rightarrow> int \<Rightarrow> 'a option" where
  [ub_defs]: "load xs i = (if 0 \<le> i \<and> i < int (length xs) then Some (xs ! nat i) else None)"

definition store :: "'a list \<Rightarrow> int \<Rightarrow> 'a \<Rightarrow> 'a list option" where
  [ub_defs]: "store xs i v = (if 0 \<le> i \<and> i < int (length xs) then Some (xs[nat i := v]) else None)"

lemma load_Some [simp]: "0 \<le> i \<Longrightarrow> i < int (length xs) \<Longrightarrow> load xs i = Some (xs ! nat i)"
  by (simp add: load_def)

lemma load_nat [simp]: "n < length xs \<Longrightarrow> load xs (int n) = Some (xs ! n)"
  by (simp add: load_def)

lemma store_Some [simp]:
  "0 \<le> i \<Longrightarrow> i < int (length xs) \<Longrightarrow> store xs i v = Some (xs[nat i := v])"
  by (simp add: store_def)

lemma ptr_add_Some [simp]: "0 \<le> i \<Longrightarrow> i \<le> int (length xs) \<Longrightarrow> ptr_add xs i = Some i"
  by (simp add: ptr_add_def)

text \<open>The number of elements in an allocation of \<open>n * sizeof(int)\<close> bytes.\<close>

definition ints_in :: "int \<Rightarrow> nat" where
  "ints_in n = nat (size_t (n * 4) div 4)"

lemma ints_in_small: "0 \<le> n \<Longrightarrow> n \<le> INT_MAX * INT_MAX \<Longrightarrow> ints_in n = nat n"
  by (simp add: ints_in_def INT_MAX_def)

lemma ints_in_bound: "int (ints_in n) < 2 ^ 63"
proof -
  have "0 \<le> size_t (n * 4)" "size_t (n * 4) < 18446744073709551616" by (simp_all add: size_t_def)
  then have "0 \<le> size_t (n * 4) div 4" "size_t (n * 4) div 4 < 9223372036854775808" by presburger+
  then show ?thesis by (simp add: ints_in_def)
qed

section \<open>Strings\<close>

text \<open>A C string ends at the first NUL byte of the buffer that holds it.\<close>

definition c_str :: "string \<Rightarrow> string" where
  "c_str s = takeWhile (\<lambda>c. c \<noteq> CHR 0x00) s"

text \<open>The \<open>%d\<close>, \<open>%ld\<close> and \<open>%zu\<close> conversions of \<open>printf\<close>.\<close>

definition digit_char :: "int \<Rightarrow> char" where
  "digit_char d = char_of (48 + d)"

function show_digits :: "int \<Rightarrow> string" where
  "show_digits i =
     (if i < 10 then [digit_char i] else show_digits (i div 10) @ [digit_char (i mod 10)])"
  by pat_completeness auto
termination
  by (relation "measure nat") auto

declare show_digits.simps [simp del]

definition show_int :: "int \<Rightarrow> string" where
  "show_int i = (if i < 0 then CHR ''-'' # show_digits (- i) else show_digits i)"

lemma show_digits_not_Nil [simp]: "show_digits i \<noteq> []"
  by (subst show_digits.simps) simp

lemma show_int_not_Nil [simp]: "show_int i \<noteq> []"
  by (simp add: show_int_def)

lemma c_str_no_nul [simp]: "CHR 0x00 \<notin> set s \<Longrightarrow> c_str s = s"
  by (auto simp: c_str_def takeWhile_eq_all_conv)

lemma show_digits_chars:
  assumes "0 \<le> i" "c \<in> set (show_digits i)"
  shows "\<exists>d \<in> {0..9}. c = digit_char d"
  using assms
proof (induction i rule: show_digits.induct)
  case (1 i)
  show ?case
  proof (cases "i < 10")
    case True
    with "1.prems" show ?thesis by (subst (asm) show_digits.simps) auto
  next
    case False
    with "1.prems" have "c \<in> set (show_digits (i div 10)) \<or> c = digit_char (i mod 10)"
      by (subst (asm) show_digits.simps) auto
    moreover have "i mod 10 \<in> {0..9}" by simp
    moreover have "0 \<le> i div 10" using "1.prems" by simp
    ultimately show ?thesis using "1.IH" [OF False] by blast
  qed
qed

section \<open>Lists\<close>

lemma list_update_same_nth [simp]: "i < length xs \<Longrightarrow> xs ! i = v \<Longrightarrow> xs[i := v] = xs"
  by auto

lemma find_append: "find P (xs @ ys) = (case find P xs of None \<Rightarrow> find P ys | Some x \<Rightarrow> Some x)"
  by (induction xs) auto

lemma find_None_iff_all: "find P xs = None \<longleftrightarrow> (\<forall>x \<in> set xs. \<not> P x)"
  by (induction xs) auto

lemma sum_list_replace:
  assumes "i < length ts"
  shows "sum_list (map f (ts[i := x])) + f (ts ! i) = sum_list (map f ts) + (f x :: 'b :: comm_monoid_add)"
  using assms
proof (induction ts arbitrary: i)
  case (Cons a ts)
  then show ?case by (cases i) (auto simp: add_ac)
qed simp

end
