(* ===== verification/Ieee_Double.thy ===== *)
theory Ieee_Double
  imports Prelude Complex_Main "HOL-Library.Log_Nat"
begin

text \<open>
  The \<open>double\<close> of the source: IEEE 754 binary64 with round-to-nearest-even, as far as the program
  uses it (conversion from \<open>int\<close>, subtraction, addition, division, \<open>fabs\<close> and the comparisons).
  A finite number is a sign, a significand and an exponent, \<open>(-1)^s * m * 2^e\<close>, kept canonical:
  a normal number has \<open>2^52 \<le> m < 2^53\<close>, a subnormal or zero has \<open>e = -1074\<close>. Every operation
  rounds an exact ratio of integers once, so all of them evaluate. The lemmas show what the
  program's early exit relies on: rounding is monotone and exact on representable numbers, and
  adding a non-negative number never decreases a sum, infinities included.
\<close>

section \<open>Representation and value\<close>

datatype dbl = NaN | Inf bool | Fin bool int int

definition canonical :: "int \<Rightarrow> int \<Rightarrow> bool" where
  "canonical m e \<longleftrightarrow> 0 \<le> m \<and> m < 2 ^ 53 \<and> - 1074 \<le> e \<and> e \<le> 971 \<and> (e = - 1074 \<or> 2 ^ 52 \<le> m)"

fun dbl_ok :: "dbl \<Rightarrow> bool" where
  "dbl_ok (Fin s m e) = canonical m e"
| "dbl_ok _ = True"

definition pval :: "int \<Rightarrow> int \<Rightarrow> real" where
  "pval m e = real_of_int m * 2 powi e"

fun dval :: "dbl \<Rightarrow> real" where
  "dval (Fin s m e) = (if s then - pval m e else pval m e)"
| "dval _ = 0"

definition dzero :: dbl where
  "dzero = Fin False 0 (- 1074)"

section \<open>Rounding a ratio\<close>

definition round_half_even :: "int \<Rightarrow> int \<Rightarrow> int" where
  "round_half_even n d =
     (let q = n div d; r = n mod d in if 2 * r < d \<or> 2 * r = d \<and> even q then q else q + 1)"

text \<open>The binary logarithm of \<open>n / d\<close>, rounded down.\<close>

definition ratio_exp :: "int \<Rightarrow> int \<Rightarrow> int" where
  "ratio_exp n d =
     (let k = bitlen n - bitlen d in
      if (if 0 \<le> k then d * 2 ^ nat k \<le> n else d \<le> n * 2 ^ nat (- k)) then k else k - 1)"

text \<open>The ratio \<open>n / d * 2 powi k\<close> as a ratio of integers.\<close>

definition scaled :: "int \<Rightarrow> int \<Rightarrow> int \<Rightarrow> int \<times> int" where
  "scaled n d k = (if 0 \<le> k then (n * 2 ^ nat k, d) else (n, d * 2 ^ nat (- k)))"

text \<open>\<open>round_ratio s n d k\<close> is the double nearest to \<open>(-1)^s * n / d * 2^k\<close>.\<close>

definition round_ratio :: "bool \<Rightarrow> int \<Rightarrow> int \<Rightarrow> int \<Rightarrow> dbl" where
  "round_ratio sg n d k =
     (if n = 0 then Fin sg 0 (- 1074) else
        let e = max (ratio_exp n d + k - 52) (- 1074);
            nd = scaled n d (k - e);
            m = round_half_even (fst nd) (snd nd);
            me = (if m = 2 ^ 53 then (2 ^ 52, e + 1) else (m, e))
        in if 971 < snd me then Inf sg else Fin sg (fst me) (snd me))"

section \<open>Operations\<close>

definition dof_int :: "int \<Rightarrow> dbl" where
  "dof_int i = round_ratio (i < 0) \<bar>i\<bar> 1 0"

fun dneg :: "dbl \<Rightarrow> dbl" where
  "dneg NaN = NaN"
| "dneg (Inf s) = Inf (\<not> s)"
| "dneg (Fin s m e) = Fin (\<not> s) m e"

fun dabs :: "dbl \<Rightarrow> dbl" where
  "dabs NaN = NaN"
| "dabs (Inf s) = Inf False"
| "dabs (Fin s m e) = Fin False m e"

text \<open>A finite number as an integer multiple of \<open>2^g\<close>, for \<open>g\<close> at most its exponent.\<close>

definition at_exp :: "bool \<Rightarrow> int \<Rightarrow> int \<Rightarrow> int \<Rightarrow> int" where
  "at_exp s m e g = (let v = m * 2 ^ nat (e - g) in if s then - v else v)"

text \<open>A common exponent for two numbers; a zero has no say in it.\<close>

definition min_exp :: "int \<Rightarrow> int \<Rightarrow> int \<Rightarrow> int \<Rightarrow> int" where
  "min_exp m e n f = (if m = 0 then f else if n = 0 then e else min e f)"

fun dadd :: "dbl \<Rightarrow> dbl \<Rightarrow> dbl" where
  "dadd (Fin s m e) (Fin t n f) =
     (let g = min_exp m e n f; a = at_exp s m e g + at_exp t n f g
      in if a = 0 then Fin (s \<and> t) 0 (- 1074) else round_ratio (a < 0) \<bar>a\<bar> 1 g)"
| "dadd (Inf s) (Inf t) = (if s = t then Inf s else NaN)"
| "dadd (Inf s) (Fin _ _ _) = Inf s"
| "dadd (Fin _ _ _) (Inf t) = Inf t"
| "dadd NaN _ = NaN"
| "dadd _ NaN = NaN"

definition dsub :: "dbl \<Rightarrow> dbl \<Rightarrow> dbl" where
  "dsub x y = dadd x (dneg y)"

fun ddiv :: "dbl \<Rightarrow> dbl \<Rightarrow> dbl" where
  "ddiv (Fin s m e) (Fin t n f) =
     (if n = 0 then if m = 0 then NaN else Inf (s \<noteq> t)
      else round_ratio (s \<noteq> t) m n (e - f))"
| "ddiv (Inf s) (Inf t) = NaN"
| "ddiv (Inf s) (Fin t _ _) = Inf (s \<noteq> t)"
| "ddiv (Fin s _ _) (Inf t) = Fin (s \<noteq> t) 0 (- 1074)"
| "ddiv NaN _ = NaN"
| "ddiv _ NaN = NaN"

fun dmul :: "dbl \<Rightarrow> dbl \<Rightarrow> dbl" where
  "dmul (Fin s m e) (Fin t n f) = round_ratio (s \<noteq> t) (m * n) 1 (e + f)"
| "dmul (Inf s) (Inf t) = Inf (s \<noteq> t)"
| "dmul (Inf s) (Fin t n _) = (if n = 0 then NaN else Inf (s \<noteq> t))"
| "dmul (Fin s m _) (Inf t) = (if m = 0 then NaN else Inf (s \<noteq> t))"
| "dmul NaN _ = NaN"
| "dmul _ NaN = NaN"

text \<open>The comparison \<open>x < y\<close>, false on a NaN; \<open>x > y\<close> is \<open>dlt y x\<close> and \<open>x >= y\<close> is \<open>dle y x\<close>.\<close>

fun dlt :: "dbl \<Rightarrow> dbl \<Rightarrow> bool" where
  "dlt (Fin s m e) (Fin t n f) = (let g = min_exp m e n f in at_exp s m e g < at_exp t n f g)"
| "dlt (Inf s) (Inf t) = (s \<and> \<not> t)"
| "dlt (Inf s) (Fin _ _ _) = s"
| "dlt (Fin _ _ _) (Inf t) = (\<not> t)"
| "dlt NaN _ = False"
| "dlt _ NaN = False"

fun dle :: "dbl \<Rightarrow> dbl \<Rightarrow> bool" where
  "dle (Fin s m e) (Fin t n f) = (let g = min_exp m e n f in at_exp s m e g \<le> at_exp t n f g)"
| "dle (Inf s) (Inf t) = (s \<or> \<not> t)"
| "dle (Inf s) (Fin _ _ _) = s"
| "dle (Fin _ _ _) (Inf t) = (\<not> t)"
| "dle NaN _ = False"
| "dle _ NaN = False"

section \<open>Rounding is monotone\<close>

lemma powi_pos [simp]: "(0::real) < 2 powi k"
  by simp

lemma powi_add2: "(2::real) powi (a + b) = 2 powi a * 2 powi b"
  by (simp add: power_int_add)

lemma powi_nat: "0 \<le> k \<Longrightarrow> (2::real) ^ nat k = 2 powi k"
  by (simp add: power_int_def)

lemma powi_mono_iff: "(2::real) powi a \<le> 2 powi b \<longleftrightarrow> a \<le> b"
  by (metis linorder_not_less one_less_numeral_iff power_int_increasing power_int_strict_increasing semiring_norm(76) one_le_numeral)

lemma bitlen_powi:
  assumes "0 < n"
  shows "2 powi (bitlen n - 1) \<le> real_of_int n" and "real_of_int n < 2 powi bitlen n"
proof -
  have b: "2 ^ nat (bitlen n - 1) \<le> n" "n < 2 ^ nat (bitlen n)"
    using bitlen_bounds [OF assms] by auto
  have p: "1 \<le> bitlen n"
    using assms bitlen_nonneg [of n] bitlen_eq_zero_iff [of n] by linarith
  have "real_of_int (2 ^ nat (bitlen n - 1)) \<le> real_of_int n"
    using b(1) by (rule of_int_le_iff [THEN iffD2])
  with p show "2 powi (bitlen n - 1) \<le> real_of_int n"
    by (simp add: powi_nat)
  have "real_of_int n < real_of_int (2 ^ nat (bitlen n))"
    using b(2) by (rule of_int_less_iff [THEN iffD2])
  with p show "real_of_int n < 2 powi bitlen n"
    by (simp add: powi_nat)
qed

lemma scaled_ratio:
  assumes "0 < d"
  shows "0 < snd (scaled n d k)"
    and "real_of_int (fst (scaled n d k)) / real_of_int (snd (scaled n d k)) =
         real_of_int n / real_of_int d * 2 powi k"
proof -
  show "0 < snd (scaled n d k)" using assms by (simp add: scaled_def)
  show "real_of_int (fst (scaled n d k)) / real_of_int (snd (scaled n d k)) =
         real_of_int n / real_of_int d * 2 powi k"
    using assms by (auto simp: scaled_def power_int_def divide_simps)
qed

lemma ratio_exp_test:
  assumes "0 < n" "0 < d"
  shows "(if 0 \<le> k then d * 2 ^ nat k \<le> n else d \<le> n * 2 ^ nat (- k)) \<longleftrightarrow>
    2 powi k \<le> real_of_int n / real_of_int d"
proof (cases "0 \<le> k")
  case True
  have "d * 2 ^ nat k \<le> n \<longleftrightarrow> real_of_int (d * 2 ^ nat k) \<le> real_of_int n"
    by (simp only: of_int_le_iff)
  with True assms show ?thesis
    by (simp add: powi_nat pos_le_divide_eq mult.commute)
next
  case False
  have "d \<le> n * 2 ^ nat (- k) \<longleftrightarrow> real_of_int d \<le> real_of_int (n * 2 ^ nat (- k))"
    by (simp only: of_int_le_iff)
  with False assms show ?thesis
    by (simp add: power_int_def divide_simps mult.commute)
qed

lemma ratio_exp_bounds:
  assumes "0 < n" "0 < d"
  shows "2 powi ratio_exp n d \<le> real_of_int n / real_of_int d"
    and "real_of_int n / real_of_int d < 2 powi (ratio_exp n d + 1)"
proof -
  define k where "k = bitlen n - bitlen d"
  have up: "real_of_int n / real_of_int d < 2 powi (k + 1)"
  proof -
    have "real_of_int n < 2 powi bitlen n" by (rule bitlen_powi [OF assms(1)])
    also have "\<dots> = 2 powi (k + 1) * 2 powi (bitlen d - 1)"
      by (simp add: k_def flip: powi_add2)
    also have "\<dots> \<le> 2 powi (k + 1) * real_of_int d"
      using bitlen_powi(1) [OF assms(2)] by simp
    finally show ?thesis using assms(2) by (simp add: divide_less_eq)
  qed
  have low: "2 powi (k - 1) \<le> real_of_int n / real_of_int d"
  proof -
    have "2 powi (k - 1) * real_of_int d \<le> 2 powi (k - 1) * 2 powi bitlen d"
      using bitlen_powi(2) [OF assms(2)] by simp
    also have "\<dots> = 2 powi (bitlen n - 1)"
      by (simp add: k_def flip: powi_add2)
    also have "\<dots> \<le> real_of_int n" by (rule bitlen_powi [OF assms(1)])
    finally show ?thesis using assms(2) by (simp add: le_divide_eq)
  qed
  note t = ratio_exp_test [OF assms, of k]
  show "2 powi ratio_exp n d \<le> real_of_int n / real_of_int d"
    using low t by (simp add: ratio_exp_def Let_def flip: k_def)
  show "real_of_int n / real_of_int d < 2 powi (ratio_exp n d + 1)"
    using up t by (auto simp: ratio_exp_def Let_def simp flip: k_def)
qed

lemma round_half_even_le: "0 < d \<Longrightarrow> i * d \<le> n \<Longrightarrow> i \<le> round_half_even n d"
  using zdiv_mono1 [of "i * d" n d] by (auto simp: round_half_even_def Let_def)

lemma round_half_even_ge:
  assumes "0 < d" "n \<le> i * d"
  shows "round_half_even n d \<le> i"
proof (cases "n = i * d")
  case True
  with assms show ?thesis by (simp add: round_half_even_def)
next
  case False
  with assms have "n < i * d" by simp
  moreover have "(n div d) * d \<le> n"
    using assms(1) by (simp add: minus_mod_eq_div_mult [symmetric])
  ultimately have "(n div d) * d < i * d" by linarith
  with assms(1) have "n div d < i" by simp
  then show ?thesis by (auto simp: round_half_even_def Let_def)
qed

lemma round_half_even_real:
  assumes "0 < d"
  shows "real_of_int i \<le> real_of_int n / real_of_int d \<Longrightarrow> i \<le> round_half_even n d"
    and "real_of_int n / real_of_int d \<le> real_of_int i \<Longrightarrow> round_half_even n d \<le> i"
proof -
  assume "real_of_int i \<le> real_of_int n / real_of_int d"
  with assms have "real_of_int (i * d) \<le> real_of_int n"
    by (simp add: pos_le_divide_eq)
  with assms show "i \<le> round_half_even n d"
    by (intro round_half_even_le) (auto simp only: of_int_le_iff)
next
  assume "real_of_int n / real_of_int d \<le> real_of_int i"
  with assms have "real_of_int n \<le> real_of_int (i * d)"
    by (simp add: pos_divide_le_eq)
  with assms show "round_half_even n d \<le> i"
    by (intro round_half_even_ge) (auto simp only: of_int_le_iff)
qed
text \<open>The shape of a rounded ratio, and rounding as a monotone map that fixes representable numbers.\<close>

lemma round_ratio_mono_aux:
  assumes y: "y = x / 2 powi e" and m: "m = round_half_even a b" "0 < b" "y = real_of_int a / real_of_int b"
    and e: "e = - 1074 \<or> 2 ^ 52 \<le> y" "- 1074 \<le> f" and r: "0 \<le> r" "r < 2 ^ 53"
  shows "pval r f \<le> x \<Longrightarrow> pval r f \<le> pval m e"
    and "x \<le> pval r f \<Longrightarrow> y < 2 ^ 53 \<Longrightarrow> pval m e \<le> pval r f"
proof -
  have x: "x = y * 2 powi e" using y by simp
  have *: "pval r f = real_of_int (r * 2 ^ nat (f - e)) * 2 powi e" if "e \<le> f"
    using that by (simp add: pval_def powi_nat flip: powi_add2)
  have small: "pval r f < 2 ^ 52 * 2 powi e" if "f < e"
  proof -
    have "pval r f < 2 ^ 53 * 2 powi f" using r by (simp add: pval_def flip: of_int_less_iff)
    also have "\<dots> = 2 ^ 52 * 2 powi (f + 1)" by (simp add: powi_add2)
    also have "\<dots> \<le> 2 ^ 52 * 2 powi e" using that by (simp add: powi_mono_iff)
    finally show ?thesis .
  qed
  have big: "2 ^ 52 \<le> m" if "f < e"
  proof -
    from that e have "2 ^ 52 \<le> y" by auto
    then have "real_of_int (2 ^ 52) \<le> real_of_int a / real_of_int b" by (simp add: m(3))
    from round_half_even_real(1) [OF m(2) this] show ?thesis by (simp add: m(1))
  qed
  show "pval r f \<le> pval m e" if le: "pval r f \<le> x"
  proof (cases "e \<le> f")
    case True
    with le * have "real_of_int (r * 2 ^ nat (f - e)) \<le> y" by (simp add: x)
    with round_half_even_real(1) [OF m(2)] have "r * 2 ^ nat (f - e) \<le> m" by (simp add: m)
    then have "real_of_int (r * 2 ^ nat (f - e)) \<le> real_of_int m" by (rule of_int_le_iff [THEN iffD2])
    with * [OF True] show ?thesis by (simp only: pval_def) simp
  next
    case False
    with small have "pval r f \<le> 2 ^ 52 * 2 powi e" by simp
    also have "\<dots> \<le> real_of_int m * 2 powi e"
      using big False by (simp flip: of_int_le_iff)
    finally show ?thesis by (simp add: pval_def)
  qed
  show "pval m e \<le> pval r f" if le: "x \<le> pval r f"
  proof (cases "e \<le> f")
    case True
    with le * have "y \<le> real_of_int (r * 2 ^ nat (f - e))" by (simp add: x)
    with round_half_even_real(2) [OF m(2)] have "m \<le> r * 2 ^ nat (f - e)" by (simp add: m)
    then have "real_of_int m \<le> real_of_int (r * 2 ^ nat (f - e))" by (rule of_int_le_iff [THEN iffD2])
    with * [OF True] show ?thesis by (simp only: pval_def) simp
  next
    case False
    with small have "pval r f < 2 ^ 52 * 2 powi e" by simp
    moreover have "2 ^ 52 \<le> y" using False e by auto
    then have "2 ^ 52 * 2 powi e \<le> x" by (simp add: x)
    ultimately show ?thesis using le by linarith
  qed
qed

lemma round_half_even_error:
  assumes "0 < d"
  shows "\<bar>real_of_int (round_half_even n d) - real_of_int n / real_of_int d\<bar> \<le> 1 / 2"
proof -
  define q r where "q = n div d" and "r = n mod d"
  have n: "n = q * d + r" and r: "0 \<le> r" "r < d"
    using assms by (auto simp: q_def r_def)
  have nd: "real_of_int n / real_of_int d = real_of_int q + real_of_int r / real_of_int d"
    using assms by (simp add: n add_divide_distrib)
  have "0 \<le> real_of_int r / real_of_int d" "real_of_int r / real_of_int d \<le> 1"
    using assms r by auto
  moreover have "real_of_int r / real_of_int d \<le> 1 / 2" if "2 * r \<le> d"
    using that assms by (simp add: pos_divide_le_eq)
  moreover have "1 / 2 \<le> real_of_int r / real_of_int d" if "d \<le> 2 * r"
    using that assms by (simp add: pos_le_divide_eq)
  ultimately show ?thesis
    by (auto simp: round_half_even_def Let_def nd abs_if simp flip: q_def r_def)
qed

lemma round_ratio_shape:
  assumes "0 < n" "0 < d"
  obtains m e where "round_ratio sg n d k = (if 971 < e then Inf sg else Fin sg m e)"
    and "0 \<le> m" "m < 2 ^ 53" "- 1074 \<le> e" "e = - 1074 \<or> 2 ^ 52 \<le> m"
    and "\<And>r f. 0 \<le> r \<Longrightarrow> r < 2 ^ 53 \<Longrightarrow> - 1074 \<le> f \<Longrightarrow>
      pval r f \<le> real_of_int n / real_of_int d * 2 powi k \<Longrightarrow> pval r f \<le> pval m e"
    and "\<And>r f. 0 \<le> r \<Longrightarrow> r < 2 ^ 53 \<Longrightarrow> - 1074 \<le> f \<Longrightarrow>
      real_of_int n / real_of_int d * 2 powi k \<le> pval r f \<Longrightarrow> pval m e \<le> pval r f"
    and "2 powi (- 1022) \<le> real_of_int n / real_of_int d * 2 powi k \<Longrightarrow>
      \<bar>pval m e - real_of_int n / real_of_int d * 2 powi k\<bar>
        \<le> real_of_int n / real_of_int d * 2 powi k * 2 powi (- 53)"
proof -
  define x where "x = real_of_int n / real_of_int d * 2 powi k"
  define e where "e = max (ratio_exp n d + k - 52) (- 1074)"
  define ab where "ab = scaled n d (k - e)"
  define m where "m = round_half_even (fst ab) (snd ab)"
  define y where "y = real_of_int (fst ab) / real_of_int (snd ab)"
  have b: "0 < snd ab" and "y = real_of_int n / real_of_int d * 2 powi (k - e)"
    using scaled_ratio [OF assms(2)] by (auto simp: ab_def y_def)
  then have yx: "y = x / 2 powi e" and yk: "y = real_of_int n / real_of_int d * 2 powi (k - e)"
    by (auto simp: x_def power_int_diff)
  have y53: "y < 2 ^ 53"
  proof -
    have "y < 2 powi (ratio_exp n d + 1) * 2 powi (k - e)"
      unfolding yk using ratio_exp_bounds(2) [OF assms] by (rule mult_strict_right_mono) simp
    also have "\<dots> = 2 powi (ratio_exp n d + 1 + (k - e))" by (simp only: powi_add2)
    also have "\<dots> \<le> 2 powi 53" unfolding powi_mono_iff by (simp add: e_def)
    finally show ?thesis by simp
  qed
  have y52: "e = - 1074 \<or> 2 ^ 52 \<le> y"
  proof (cases "e = - 1074")
    case False
    then have e: "e = ratio_exp n d + k - 52" by (simp add: e_def split: if_splits)
    have "(2::real) powi 52 = 2 powi ratio_exp n d * 2 powi (k - e)"
      by (simp add: e flip: powi_add2)
    also have "\<dots> \<le> y"
      unfolding yk using ratio_exp_bounds(1) [OF assms] by (rule mult_right_mono) simp
    finally show ?thesis by simp
  qed simp
  have m53: "m \<le> 2 ^ 53"
    using round_half_even_real(2) [OF b, of "fst ab" "2 ^ 53"] y53 by (simp add: m_def y_def)
  have m52: "e = - 1074 \<or> 2 ^ 52 \<le> m"
    using round_half_even_real(1) [OF b, of "2 ^ 52" "fst ab"] y52 by (auto simp: m_def y_def)
  have m0: "0 \<le> m"
    using round_half_even_real(1) [OF b, of 0 "fst ab"] assms
    by (simp add: m_def y_def yk [unfolded y_def])
  define me where "me = (if m = 2 ^ 53 then (2 ^ 52, e + 1) else (m, e))"
  have pv: "pval (fst me) (snd me) = pval m e"
    by (simp add: me_def pval_def powi_add2)
  note aux = round_ratio_mono_aux [OF yx m_def b y_def y52]
  show thesis
  proof (rule that [of "snd me" "fst me"])
    show "round_ratio sg n d k = (if 971 < snd me then Inf sg else Fin sg (fst me) (snd me))"
      using assms by (simp add: round_ratio_def Let_def me_def m_def ab_def flip: e_def)
    show "0 \<le> fst me" "fst me < 2 ^ 53" using m0 m53 by (auto simp: me_def)
    show "- 1074 \<le> snd me" by (auto simp: me_def e_def)
    show "snd me = - 1074 \<or> 2 ^ 52 \<le> fst me" using m52 by (auto simp: me_def)
  next
    fix r f :: int
    assume r: "0 \<le> r" "r < 2 ^ 53" "- 1074 \<le> f"
    show "pval r f \<le> pval (fst me) (snd me)"
      if "pval r f \<le> real_of_int n / real_of_int d * 2 powi k"
      using aux(1) [OF r(3) r(1) r(2)] that by (simp add: pv x_def)
    show "pval (fst me) (snd me) \<le> pval r f"
      if "real_of_int n / real_of_int d * 2 powi k \<le> pval r f"
      using aux(2) [OF r(3) r(1) r(2) _ y53] that by (simp add: pv x_def)
  next
    assume "2 powi (- 1022) \<le> real_of_int n / real_of_int d * 2 powi k"
    then have x22: "2 powi (- 1022) \<le> x" by (simp add: x_def)
    have y: "2 ^ 52 \<le> y"
    proof (cases "e = - 1074")
      case True
      have "2 powi (- 1022) / 2 powi (- 1074) \<le> x / 2 powi (- 1074)"
        using x22 by (rule divide_right_mono) simp
      also have "2 powi (- 1022) / 2 powi (- 1074) = (2::real) powi 52"
        by (simp flip: power_int_diff)
      finally show ?thesis by (simp add: yx True)
    qed (use y52 in simp)
    have xy: "x = y * 2 powi e" by (simp add: yx)
    have "\<bar>real_of_int m - y\<bar> \<le> 1 / 2"
      unfolding m_def y_def by (rule round_half_even_error [OF b])
    also have "\<dots> \<le> y * 2 powi (- 53)" using y by (simp add: power_int_minus field_simps)
    finally have "\<bar>real_of_int m - y\<bar> * 2 powi e \<le> y * 2 powi (- 53) * 2 powi e"
      by (rule mult_right_mono) simp
    moreover have "pval m e - x = (real_of_int m - y) * 2 powi e"
      by (simp add: pval_def xy algebra_simps)
    then have "\<bar>pval m e - x\<bar> = \<bar>real_of_int m - y\<bar> * 2 powi e"
      by (simp add: abs_mult)
    ultimately have "\<bar>pval m e - x\<bar> \<le> x * 2 powi (- 53)"
      by (simp add: xy mult.assoc mult.commute)
    then show "\<bar>pval (fst me) (snd me) - real_of_int n / real_of_int d * 2 powi k\<bar>
        \<le> real_of_int n / real_of_int d * 2 powi k * 2 powi (- 53)"
      by (simp add: pv x_def)
  qed
qed

section \<open>Comparison is comparison of values\<close>

lemma at_exp_real:
  assumes "m = 0 \<or> g \<le> e"
  shows "real_of_int (at_exp s m e g) * 2 powi g = dval (Fin s m e)"
  using assms by (auto simp: at_exp_def Let_def pval_def powi_nat simp flip: powi_add2)

lemma min_exp_le [simp]: "m = 0 \<or> min_exp m e n f \<le> e" "n = 0 \<or> min_exp m e n f \<le> f"
  by (auto simp: min_exp_def)

lemma min_exp_commute: "m \<noteq> 0 \<or> n \<noteq> 0 \<Longrightarrow> min_exp m e n f = min_exp n f m e"
  by (auto simp: min_exp_def)

lemma dle_Fin: "dle (Fin s m e) (Fin t n f) \<longleftrightarrow> dval (Fin s m e) \<le> dval (Fin t n f)"
proof -
  define g where "g = min_exp m e n f"
  have "dle (Fin s m e) (Fin t n f) \<longleftrightarrow> at_exp s m e g \<le> at_exp t n f g"
    by (simp add: g_def Let_def)
  also have "\<dots> \<longleftrightarrow> real_of_int (at_exp s m e g) * 2 powi g \<le> real_of_int (at_exp t n f g) * 2 powi g"
    by simp
  also have "\<dots> \<longleftrightarrow> dval (Fin s m e) \<le> dval (Fin t n f)"
    by (subst (1 2) at_exp_real) (auto simp: g_def)
  finally show ?thesis .
qed

lemma dlt_Fin: "dlt (Fin s m e) (Fin t n f) \<longleftrightarrow> dval (Fin s m e) < dval (Fin t n f)"
  using dle_Fin [of t n f s m e] min_exp_commute [of m n e f]
  by (cases "m = 0 \<and> n = 0") (auto simp: Let_def at_exp_def not_le [symmetric])

declare dle.simps(1) [simp del] dlt.simps(1) [simp del]
declare dle_Fin [simp] dlt_Fin [simp]

lemma dlt_not_dle: "x \<noteq> NaN \<Longrightarrow> y \<noteq> NaN \<Longrightarrow> dlt x y \<longleftrightarrow> \<not> dle y x"
  by (cases x; cases y) (auto simp del: dval.simps)

lemma dle_refl: "x \<noteq> NaN \<Longrightarrow> dle x x"
  by (cases x) auto

lemma dle_trans: "dle x y \<Longrightarrow> dle y z \<Longrightarrow> dle x z"
  by (cases x; cases y; cases z) (auto simp del: dval.simps)

lemma dle_dlt_trans: "dle x y \<Longrightarrow> dlt y z \<Longrightarrow> dlt x z"
  by (cases x; cases y; cases z) (auto simp del: dval.simps)

section \<open>Non-negative numbers\<close>

text \<open>The numbers a score is made of: canonical, not a NaN, sign bit clear.\<close>

fun nonneg :: "dbl \<Rightarrow> bool" where
  "nonneg (Fin s m e) = (\<not> s \<and> canonical m e)"
| "nonneg (Inf s) = (\<not> s)"
| "nonneg NaN = False"

lemma nonneg_not_NaN [simp]: "\<not> nonneg NaN"
  by simp

lemma nonneg_dzero [simp]: "nonneg dzero"
  by (simp add: dzero_def canonical_def)

lemma pval_nonneg: "0 \<le> m \<Longrightarrow> 0 \<le> pval m e"
  by (simp add: pval_def)

lemma round_ratio_ok: "0 \<le> n \<Longrightarrow> 0 < d \<Longrightarrow> dbl_ok (round_ratio s n d k)"
proof (cases "n = 0")
  case True
  then show ?thesis by (simp add: round_ratio_def canonical_def)
next
  case False
  moreover assume "0 \<le> n" "0 < d"
  ultimately have "0 < n" "0 < d" by auto
  then show ?thesis
    by (rule round_ratio_shape [where sg = s and k = k]) (auto simp: canonical_def)
qed

lemma nonneg_round_ratio: "0 \<le> n \<Longrightarrow> 0 < d \<Longrightarrow> nonneg (round_ratio False n d k)"
  using round_ratio_ok [of n d False k]
  by (cases "round_ratio False n d k") (auto simp: round_ratio_def Let_def split: if_splits)

lemma nonneg_dabs: "x \<noteq> NaN \<Longrightarrow> dbl_ok x \<Longrightarrow> nonneg (dabs x)"
  by (cases x) auto

text \<open>Rounding never falls below a representable lower bound.\<close>

lemma round_ratio_ge:
  assumes "canonical r f" "0 < n" "0 < d"
    and "pval r f \<le> real_of_int n / real_of_int d * 2 powi k"
  shows "dle (Fin False r f) (round_ratio False n d k)"
  using assms(2,3)
  by (rule round_ratio_shape [where sg = False and k = k])
    (use assms in \<open>auto simp: canonical_def\<close>)

lemma dadd_nonneg_ge:
  assumes "nonneg x" "nonneg y"
  shows "nonneg (dadd x y) \<and> dle x (dadd x y)"
proof (cases x)
  case (Fin s m e)
  show ?thesis
  proof (cases y)
    case y: (Fin t n f)
    define g where "g = min_exp m e n f"
    define a where "a = at_exp False m e g + at_exp False n f g"
    have mn: "0 \<le> m" "0 \<le> n" using assms Fin y by (auto simp: canonical_def)
    then have a0: "0 \<le> a" by (simp add: a_def at_exp_def)
    have "real_of_int a * 2 powi g = pval m e + pval n f"
      using at_exp_real [of m g e False] at_exp_real [of n g f False]
      by (simp add: a_def g_def algebra_simps)
    then have le: "pval m e \<le> real_of_int a / 1 * 2 powi g"
      using pval_nonneg [OF mn(2), of f] by simp
    have sum: "dadd x y = (if a = 0 then Fin False 0 (- 1074) else round_ratio False a 1 g)"
      using assms Fin y a0 by (auto simp: a_def g_def Let_def)
    show ?thesis
    proof (cases "a = 0")
      case True
      with le mn have "pval m e = 0" using pval_nonneg [of m e] by simp
      with True assms Fin show ?thesis
        unfolding sum by (simp add: canonical_def) (simp add: pval_def)
    next
      case False
      with a0 have "0 < a" by simp
      with le assms Fin show ?thesis
        unfolding sum by (simp add: nonneg_round_ratio round_ratio_ge)
    qed
  qed (use assms Fin in auto)
qed (use assms in \<open>cases y; auto\<close>)+

section \<open>Exact results and the error of one rounding\<close>

lemma canonical_unique:
  assumes "canonical m e" "0 \<le> r" "r < 2 ^ 53" "- 1074 \<le> f" "f = - 1074 \<or> 2 ^ 52 \<le> r"
    and "pval m e = pval r f"
  shows "r = m \<and> f = e"
proof -
  have *: "f \<le> e" if "0 \<le> r" "r < 2 ^ 53" "- 1074 \<le> e" "e < f \<Longrightarrow> 2 ^ 52 \<le> r" "0 \<le> m" "m < 2 ^ 53"
    "pval m e = pval r f" for m r e f :: int
  proof (rule ccontr)
    assume "\<not> f \<le> e"
    then have lt: "e + 1 \<le> f" and r: "2 ^ 52 \<le> r" using that by auto
    have "pval m e < 2 ^ 53 * 2 powi e" using that(6) by (simp add: pval_def)
    also have "\<dots> = 2 ^ 52 * 2 powi (e + 1)" by (simp add: powi_add2)
    also have "\<dots> \<le> 2 ^ 52 * 2 powi f" using lt by (simp add: powi_mono_iff)
    also have "\<dots> \<le> pval r f" using r by (simp add: pval_def)
    finally show False using that(7) by simp
  qed
  from assms(1) have m: "0 \<le> m" "m < 2 ^ 53" "- 1074 \<le> e" "e = - 1074 \<or> 2 ^ 52 \<le> m"
    by (auto simp: canonical_def)
  have "f \<le> e" by (rule * [of r e f m]) (use m assms in auto)
  moreover have "e \<le> f" by (rule * [of m f e r]) (use m assms in auto)
  ultimately show ?thesis using assms(6) by (simp add: pval_def)
qed

lemma round_ratio_exact:
  assumes "canonical r f" "0 < n" "0 < d"
    and x: "real_of_int n / real_of_int d * 2 powi k = pval r f"
  shows "round_ratio s n d k = Fin s r f"
proof (rule round_ratio_shape [OF assms(2,3), where sg = s and k = k])
  fix m e
  assume eq: "round_ratio s n d k = (if 971 < e then Inf s else Fin s m e)"
    and c: "0 \<le> m" "m < 2 ^ 53" "- 1074 \<le> e" "e = - 1074 \<or> 2 ^ 52 \<le> m"
    and le: "\<And>r f. 0 \<le> r \<Longrightarrow> r < 2 ^ 53 \<Longrightarrow> - 1074 \<le> f \<Longrightarrow>
      pval r f \<le> real_of_int n / real_of_int d * 2 powi k \<Longrightarrow> pval r f \<le> pval m e"
    and ge: "\<And>r f. 0 \<le> r \<Longrightarrow> r < 2 ^ 53 \<Longrightarrow> - 1074 \<le> f \<Longrightarrow>
      real_of_int n / real_of_int d * 2 powi k \<le> pval r f \<Longrightarrow> pval m e \<le> pval r f"
  have r: "0 \<le> r" "r < 2 ^ 53" "- 1074 \<le> f" using assms(1) by (auto simp: canonical_def)
  have "pval r f = pval m e"
    using le [OF r] ge [OF r] unfolding x by simp
  then have "m = r \<and> e = f"
    by (intro canonical_unique [OF assms(1) c])
  with assms(1) eq show ?thesis by (auto simp: canonical_def)
qed

lemma int_representable:
  assumes "0 < i" "i < 2 ^ 53"
  obtains r f where "canonical r f" "pval r f = real_of_int i" "0 < r"
proof -
  define b where "b = bitlen i"
  have b1: "1 \<le> b" using assms bitlen_eq_zero_iff [of i] bitlen_nonneg [of i] by (simp add: b_def)
  have b53: "b \<le> 53"
    using assms bitlen_le_iff_power [of i 53] by (simp add: b_def)
  have lo: "2 ^ nat (b - 1) \<le> i" and hi: "i < 2 ^ nat b"
    using bitlen_bounds [OF assms(1)] by (auto simp: b_def)
  have s: "(2::int) ^ nat (b - 1) * 2 ^ nat (53 - b) = 2 ^ 52"
    "(2::int) ^ nat b * 2 ^ nat (53 - b) = 2 ^ 53"
    using b1 b53 by (simp_all flip: power_add nat_add_distrib)
  show thesis
  proof (rule that [of "i * 2 ^ nat (53 - b)" "b - 53"])
    have "2 ^ 52 \<le> i * 2 ^ nat (53 - b)"
      using mult_right_mono [OF lo, of "2 ^ nat (53 - b)"] by (simp add: s)
    moreover have "i * 2 ^ nat (53 - b) < 2 ^ 53"
      using mult_strict_right_mono [OF hi, of "2 ^ nat (53 - b)"] by (simp add: s)
    ultimately show "canonical (i * 2 ^ nat (53 - b)) (b - 53)"
      using b1 b53 by (simp add: canonical_def)
    show "pval (i * 2 ^ nat (53 - b)) (b - 53) = real_of_int i"
      using b53 by (simp add: pval_def powi_nat mult.assoc flip: powi_add2)
    show "0 < i * 2 ^ nat (53 - b)" using assms by simp
  qed
qed

lemma dof_int_exact:
  assumes "\<bar>i\<bar> < 2 ^ 53"
  obtains m e where "dof_int i = Fin (i < 0) m e" "canonical m e" "pval m e = real_of_int \<bar>i\<bar>"
proof (cases "i = 0")
  case True
  show thesis
    by (rule that [of 0 "- 1074"])
      (simp_all add: True dof_int_def round_ratio_def canonical_def pval_def)
next
  case False
  obtain r f where r: "canonical r f" "pval r f = real_of_int \<bar>i\<bar>"
    by (rule int_representable [of "\<bar>i\<bar>"]) (use False assms in auto)
  have "dof_int i = Fin (i < 0) r f"
    unfolding dof_int_def
    by (rule round_ratio_exact) (use r False in auto)
  from that [OF this r] show thesis .
qed

lemma dsub_int_exact:
  assumes "\<bar>p\<bar> < 2 ^ 53" "\<bar>q\<bar> < 2 ^ 53" "\<bar>p - q\<bar> < 2 ^ 53"
  shows "\<exists>m e. dsub (dof_int p) (dof_int q) = Fin (p < q) m e \<and> canonical m e
    \<and> pval m e = real_of_int \<bar>p - q\<bar>"
proof -
  obtain m e where p: "dof_int p = Fin (p < 0) m e" "pval m e = real_of_int \<bar>p\<bar>"
    using dof_int_exact [OF assms(1)] by blast
  obtain n f where q: "dof_int q = Fin (q < 0) n f" "pval n f = real_of_int \<bar>q\<bar>"
    using dof_int_exact [OF assms(2)] by blast
  define g where "g = min_exp m e n f"
  define a where "a = at_exp (p < 0) m e g + at_exp (\<not> q < 0) n f g"
  have "real_of_int a * 2 powi g = dval (Fin (p < 0) m e) + dval (Fin (\<not> q < 0) n f)"
    using at_exp_real [of m g e "p < 0"] at_exp_real [of n g f "\<not> q < 0"]
    by (simp add: a_def g_def algebra_simps del: dval.simps)
  then have a: "real_of_int a * 2 powi g = real_of_int (p - q)"
    by (simp add: p(2) q(2))
  have sub: "dsub (dof_int p) (dof_int q) =
      (if a = 0 then Fin (p < 0 \<and> \<not> q < 0) 0 (- 1074) else round_ratio (a < 0) \<bar>a\<bar> 1 g)"
    by (simp add: dsub_def p(1) q(1) Let_def a_def g_def)
  show ?thesis
  proof (cases "p = q")
    case True
    with a have "a = 0" by simp
    with True show ?thesis unfolding sub by (auto simp: canonical_def pval_def)
  next
    case False
    with a have a0: "a \<noteq> 0" by auto
    have sgn: "a < 0 \<longleftrightarrow> p < q"
    proof -
      have "a < 0 \<longleftrightarrow> real_of_int a * 2 powi g < 0" 
        using mult_less_cancel_right_pos [of "2 powi g" "real_of_int a" 0] by simp
      then show ?thesis unfolding a by simp
    qed
    obtain r h where r: "canonical r h" "pval r h = real_of_int \<bar>p - q\<bar>"
      by (rule int_representable [of "\<bar>p - q\<bar>"]) (use False assms in auto)
    have "round_ratio (a < 0) \<bar>a\<bar> 1 g = Fin (a < 0) r h"
    proof (rule round_ratio_exact)
      have "\<bar>real_of_int a * 2 powi g\<bar> = \<bar>real_of_int (p - q)\<bar>" by (simp only: a)
      then show "real_of_int \<bar>a\<bar> / real_of_int 1 * 2 powi g = pval r h"
        by (simp add: r(2) abs_mult)
    qed (use r a0 in auto)
    with a0 r show ?thesis unfolding sub by (auto simp: sgn)
  qed
qed

lemma round_ratio_error:
  assumes "0 < n" "0 < d" and x: "x = real_of_int n / real_of_int d * 2 powi k"
    and "2 powi (- 1022) \<le> x" "x \<le> 2 powi 1023"
  shows "\<exists>m e. round_ratio s n d k = Fin s m e \<and> canonical m e \<and> \<bar>pval m e - x\<bar> \<le> x * 2 powi (- 53)"
proof (rule round_ratio_shape [OF assms(1,2), where sg = s and k = k])
  fix m e
  assume eq: "round_ratio s n d k = (if 971 < e then Inf s else Fin s m e)"
    and c: "0 \<le> m" "m < 2 ^ 53" "- 1074 \<le> e" "e = - 1074 \<or> 2 ^ 52 \<le> m"
    and ge: "\<And>r f. 0 \<le> r \<Longrightarrow> r < 2 ^ 53 \<Longrightarrow> - 1074 \<le> f \<Longrightarrow>
      real_of_int n / real_of_int d * 2 powi k \<le> pval r f \<Longrightarrow> pval m e \<le> pval r f"
    and err: "2 powi (- 1022) \<le> real_of_int n / real_of_int d * 2 powi k \<Longrightarrow>
      \<bar>pval m e - real_of_int n / real_of_int d * 2 powi k\<bar>
        \<le> real_of_int n / real_of_int d * 2 powi k * 2 powi (- 53)"
  have top: "pval (2 ^ 52) 971 = 2 powi 1023"
    using powi_add2 [of 52 971] by (simp add: pval_def)
  have "pval m e \<le> pval (2 ^ 52) 971"
    by (rule ge) (use assms(5) in \<open>simp_all add: x top [simplified]\<close>)
  also note top
  finally have le: "pval m e \<le> 2 powi 1023" .
  have "e \<le> 971"
  proof (rule ccontr)
    assume "\<not> e \<le> 971"
    with c have "2 ^ 52 \<le> m" "972 \<le> e" by auto
    have "(2::real) powi 1024 = 2 ^ 52 * 2 powi 972"
      using powi_add2 [of 52 972] by simp
    also have "\<dots> \<le> real_of_int m * 2 powi 972"
      using \<open>2 ^ 52 \<le> m\<close> by simp
    also have "\<dots> \<le> real_of_int m * 2 powi e"
      using \<open>972 \<le> e\<close> c(1) powi_mono_iff [of 972 e] by (simp add: mult_left_mono)
    finally have "(2::real) powi 1024 \<le> pval m e" by (simp only: pval_def)
    with le have "(2::real) powi 1024 \<le> 2 powi 1023" by (rule order_trans [rotated])
    then show False unfolding powi_mono_iff by simp
  qed
  with eq c err assms(4) show ?thesis by (auto simp: canonical_def x)
qed

end
