(* ===== verification/C_Stdlib.thy ===== *)
theory C_Stdlib
  imports Ieee_Double
begin

text \<open>
  The functions of the C library the program calls on strings: \<open>isspace\<close>, \<open>strtol\<close> (base 10),
  \<open>strtod\<close> and the \<open>printf\<close> conversions \<open>%g\<close>, \<open>%.6f\<close> and \<open>%-Ns\<close>, in the "C" locale (the program never
  calls \<open>setlocale\<close>). \<open>strtol\<close> and \<open>strtod\<close> return the value, the number of bytes consumed
  (\<open>end - text\<close>) and whether \<open>errno\<close> is set to \<open>ERANGE\<close>. \<open>strtod\<close> rounds correctly and reports
  underflow as glibc does: a non-zero subject whose result is subnormal or zero and inexact.
\<close>

definition isspace :: "char \<Rightarrow> bool" where
  "isspace c \<longleftrightarrow> c \<in> set [CHR '' '', CHR 0x09, CHR 0x0A, CHR 0x0B, CHR 0x0C, CHR 0x0D]"

definition isdigit :: "char \<Rightarrow> bool" where
  "isdigit c \<longleftrightarrow> of_char c \<ge> (48::int) \<and> of_char c \<le> (57::int)"

definition tolower :: "char \<Rightarrow> char" where
  "tolower c = (if of_char c \<ge> (65::int) \<and> of_char c \<le> (90::int) then char_of (of_char c + 32 :: int) else c)"

definition isxdigit :: "char \<Rightarrow> bool" where
  "isxdigit c \<longleftrightarrow> isdigit c \<or> of_char (tolower c) \<ge> (97::int) \<and> of_char (tolower c) \<le> (102::int)"

definition xdigit_val :: "char \<Rightarrow> int" where
  "xdigit_val c = (if isdigit c then of_char c - 48 else of_char (tolower c) - 87)"

definition digits_val :: "int \<Rightarrow> string \<Rightarrow> int" where
  "digits_val base ds = foldl (\<lambda>a c. base * a + xdigit_val c) 0 ds"

section \<open>Integers\<close>

definition take_sign :: "string \<Rightarrow> bool \<times> string" where
  "take_sign s = (case s of [] \<Rightarrow> (False, [])
     | c # t \<Rightarrow> if c = CHR ''-'' then (True, t) else if c = CHR ''+'' then (False, t) else (False, s))"

definition strtol :: "string \<Rightarrow> int \<times> nat \<times> bool" where
  "strtol s =
     (let (neg, r) = take_sign (dropWhile isspace s);
          ds = takeWhile isdigit r;
          n = length s - length (dropWhile isdigit r);
          v = (if neg then - digits_val 10 ds else digits_val 10 ds)
      in if ds = [] then (0, 0, False)
         else if LONG_MAX < v then (LONG_MAX, n, True)
         else if v < LONG_MIN then (LONG_MIN, n, True)
         else (v, n, False))"

section \<open>Floating-point numbers\<close>

text \<open>Digits with an optional point: the digits before and after it, and the rest.\<close>

definition take_mantissa :: "(char \<Rightarrow> bool) \<Rightarrow> string \<Rightarrow> string \<times> string \<times> string" where
  "take_mantissa dig s =
     (let ip = takeWhile dig s; r = dropWhile dig s in
      case r of [] \<Rightarrow> (ip, [], [])
      | c # t \<Rightarrow> if c = CHR ''.'' \<and> (ip \<noteq> [] \<or> takeWhile dig t \<noteq> [])
                 then (ip, takeWhile dig t, dropWhile dig t) else (ip, [], r))"

text \<open>An optional exponent part introduced by the letter \<open>mark\<close>; absent unless it has a digit.\<close>

definition take_exponent :: "char \<Rightarrow> string \<Rightarrow> int \<times> string" where
  "take_exponent mark s =
     (case s of [] \<Rightarrow> (0, [])
      | c # t \<Rightarrow>
          if tolower c = mark then
            let (neg, u) = take_sign t; ds = takeWhile isdigit u in
            if ds = [] then (0, s)
            else (if neg then - digits_val 10 ds else digits_val 10 ds, dropWhile isdigit u)
          else (0, s))"

definition pow10_ratio :: "bool \<Rightarrow> int \<Rightarrow> int \<Rightarrow> dbl \<times> int \<times> int" where
  "pow10_ratio sg n x =
     (if 0 \<le> x then (round_ratio sg (n * 10 ^ nat x) 1 0, n * 10 ^ nat x, 1)
      else (round_ratio sg n (10 ^ nat (- x)) 0, n, 10 ^ nat (- x)))"

fun range_error :: "dbl \<Rightarrow> int \<Rightarrow> int \<Rightarrow> int \<Rightarrow> bool" where
  "range_error (Fin s m e) n d k =
     (n \<noteq> 0 \<and> m < 2 ^ 52 \<and> (let (a, b) = scaled n d (k - e) in a \<noteq> m * b))"
| "range_error _ n d k = True"

definition has_prefix :: "string \<Rightarrow> string \<Rightarrow> bool" where
  "has_prefix p s \<longleftrightarrow> take (length p) (map tolower s) = p"

text \<open>The optional \<open>(n-char-sequence)\<close> after \<open>nan\<close>.\<close>

definition nan_tail :: "string \<Rightarrow> string" where
  "nan_tail s =
     (case s of [] \<Rightarrow> []
      | c # t \<Rightarrow> if c = CHR ''('' then
          (let ok = (\<lambda>c. isxdigit c \<or> c = CHR ''_'' \<or>
                 of_char (tolower c) \<ge> (97::int) \<and> of_char (tolower c) \<le> (122::int));
               u = dropWhile ok t
           in case u of [] \<Rightarrow> s | d # v \<Rightarrow> if d = CHR '')'' then v else s)
        else s)"

definition strtod :: "string \<Rightarrow> dbl \<times> nat \<times> bool" where
  "strtod s =
     (let (neg, r) = take_sign (dropWhile isspace s);
          done = (\<lambda>rest. length s - length rest)
      in
        if has_prefix ''infinity'' r then (Inf neg, done (drop 8 r), False)
        else if has_prefix ''inf'' r then (Inf neg, done (drop 3 r), False)
        else if has_prefix ''nan'' r then (NaN, done (nan_tail (drop 3 r)), False)
        else
          let (hi, hf, hr) = take_mantissa isxdigit (drop 2 r) in
          if has_prefix ''0x'' r \<and> hi @ hf \<noteq> [] then
            let (x, rest) = take_exponent (CHR ''p'') hr;
                n = digits_val 16 (hi @ hf); k = x - 4 * int (length hf);
                v = round_ratio neg n 1 k
            in (v, done rest, range_error v n 1 k)
          else
            let (ip, fp, mr) = take_mantissa isdigit r in
            if ip @ fp = [] then (Fin False 0 (- 1074), 0, False)
            else
              let (x, rest) = take_exponent (CHR ''e'') mr;
                  (v, n, d) = pow10_ratio neg (digits_val 10 (ip @ fp)) (x - int (length fp))
              in (v, done rest, range_error v n d 0))"

section \<open>Formatting\<close>

text \<open>The decimal exponent of \<open>n / d\<close>: the greatest \<open>x\<close> with \<open>10^x \<le> n / d\<close>.\<close>

definition ndigits :: "int \<Rightarrow> int" where
  "ndigits i = int (length (show_int i))"

definition dec_exp :: "int \<Rightarrow> int \<Rightarrow> int" where
  "dec_exp n d = (if d \<le> n then ndigits (n div d) - 1 else - ndigits ((d + n - 1) div n - 1))"

definition strip_zeros :: "string \<Rightarrow> string" where
  "strip_zeros s = rev (dropWhile (\<lambda>c. c = CHR ''0'') (rev s))"

definition with_point :: "string \<Rightarrow> string \<Rightarrow> string" where
  "with_point ip fp = (let f = strip_zeros fp in if f = [] then ip else ip @ CHR ''.'' # f)"

definition show_exp :: "int \<Rightarrow> string" where
  "show_exp x = (if x < 0 then CHR ''-'' else CHR ''+'') #
     (if \<bar>x\<bar> < 10 then CHR ''0'' # show_int \<bar>x\<bar> else show_int \<bar>x\<bar>)"

text \<open>The conversion \<open>%g\<close>: six significant digits, trailing zeros removed.\<close>

fun show_g :: "dbl \<Rightarrow> string" where
  "show_g NaN = ''nan''"
| "show_g (Inf s) = (if s then ''-inf'' else ''inf'')"
| "show_g (Fin s m e) =
     (if s then ''-'' else []) @
     (if m = 0 then ''0'' else
        let (n, d) = scaled m 1 e;
            x0 = dec_exp n d;
            ab = (if x0 \<le> 5 then (n * 10 ^ nat (5 - x0), d) else (n, d * 10 ^ nat (x0 - 5)));
            c0 = round_half_even (fst ab) (snd ab);
            (c, x) = (if c0 = 1000000 then (100000, x0 + 1) else (c0, x0));
            ds = show_int c
        in if x < - 4 \<or> 6 \<le> x then with_point (take 1 ds) (drop 1 ds) @ ''e'' @ show_exp x
           else if 0 \<le> x then with_point (take (nat (x + 1)) ds) (drop (nat (x + 1)) ds)
           else with_point ''0'' (replicate (nat (- x - 1)) (CHR ''0'') @ ds))"

text \<open>The conversions \<open>%.2f\<close> and \<open>%.6f\<close>: so many digits after the point.\<close>

fun show_fixed :: "nat \<Rightarrow> dbl \<Rightarrow> string" where
  "show_fixed k NaN = ''nan''"
| "show_fixed k (Inf s) = (if s then ''-inf'' else ''inf'')"
| "show_fixed k (Fin s m e) =
     (let (n, d) = scaled m 1 e;
          c = round_half_even (n * 10 ^ k) d;
          frac = show_int (c mod 10 ^ k)
      in (if s then ''-'' else []) @ show_int (c div 10 ^ k) @ ''.'' @ replicate (k - length frac) (CHR ''0'') @ frac)"

abbreviation show_f6 :: "dbl \<Rightarrow> string" where
  "show_f6 \<equiv> show_fixed 6"

text \<open>The conversion \<open>%-Ns\<close>.\<close>

definition pad_right :: "nat \<Rightarrow> string \<Rightarrow> string" where
  "pad_right w s = s @ replicate (w - length s) (CHR '' '')"

end
