(* ===== verification/Log.thy ===== *)
theory Log
  imports C_Stdlib
begin

text \<open>
  Leveled logging and the caller's message buffer: \<open>src/core/log.c\<close>, \<open>include/msearch/log.h\<close> and
  \<open>LogLevel\<close> of \<open>include/msearch/config.h\<close>. The file-scope variables \<open>g_level\<close> and \<open>g_rank\<close> are a
  record; a call to \<open>msearch_log\<close> is the text it appends to \<open>stderr\<close>. A component that logs returns
  the list of its log requests, which the caller renders with the logger in force.
\<close>

datatype LogLevel = LOG_ERROR | LOG_WARN | LOG_INFO | LOG_DEBUG

text \<open>The enumerators' values, which order the levels.\<close>

fun level_code :: "LogLevel \<Rightarrow> int" where
  "level_code LOG_ERROR = 0"
| "level_code LOG_WARN = 1"
| "level_code LOG_INFO = 2"
| "level_code LOG_DEBUG = 3"

lemma level_code_inject [simp]: "level_code a = level_code b \<longleftrightarrow> a = b"
  by (cases a; cases b) auto

instantiation LogLevel :: linorder
begin

definition less_eq_LogLevel :: "LogLevel \<Rightarrow> LogLevel \<Rightarrow> bool" where
  "a \<le> b \<longleftrightarrow> level_code a \<le> level_code b"

definition less_LogLevel :: "LogLevel \<Rightarrow> LogLevel \<Rightarrow> bool" where
  "a < b \<longleftrightarrow> level_code a < level_code b"

instance
  by standard (auto simp: less_eq_LogLevel_def less_LogLevel_def)

end

record Logger =
  g_level :: LogLevel
  g_rank :: int

definition logger_initial :: Logger where
  "logger_initial = \<lparr>g_level = LOG_INFO, g_rank = - 1\<rparr>"

definition msearch_log_init :: "LogLevel \<Rightarrow> int \<Rightarrow> Logger" where
  "msearch_log_init level rank = \<lparr>g_level = level, g_rank = rank\<rparr>"

fun kLabels :: "LogLevel \<Rightarrow> string" where
  "kLabels LOG_ERROR = ''error''"
| "kLabels LOG_WARN = ''warn''"
| "kLabels LOG_INFO = ''info''"
| "kLabels LOG_DEBUG = ''debug''"

definition newline :: string where
  "newline = [CHR 0x0A]"

definition text_line :: "string \<Rightarrow> string" where
  "text_line s = s @ newline"

definition msearch_log :: "Logger \<Rightarrow> LogLevel \<Rightarrow> string \<Rightarrow> string" where
  "msearch_log lg level msg =
     (if level > g_level lg then []
      else (if g_rank lg \<ge> 0
            then ''['' @ pad_right 5 (kLabels level) @ '' rank '' @ show_int (g_rank lg) @ ''] ''
            else ''['' @ pad_right 5 (kLabels level) @ ''] '') @ msg @ newline)"

type_synonym log_event = "LogLevel \<times> string"

definition render_log :: "Logger \<Rightarrow> log_event list \<Rightarrow> string" where
  "render_log lg evs = concat (map (\<lambda>(l, m). msearch_log lg l m) evs)"

section \<open>The caller's message buffer\<close>

text \<open>
  The pair \<open>(err, err_len)\<close> that every fallible function takes: \<open>None\<close> is a null pointer, otherwise
  the capacity and the text it holds now (without its terminator). \<open>msearch_set_err\<close> of
  \<open>src/core/log.c\<close> is \<open>vsnprintf\<close> into it: at most \<open>err_len - 1\<close> bytes are kept, and an absent or
  empty buffer is left alone.
\<close>

type_synonym errbuf = "(nat \<times> string) option"

fun msearch_set_err :: "errbuf \<Rightarrow> string \<Rightarrow> errbuf" where
  "msearch_set_err None msg = None"
| "msearch_set_err (Some (cap, old)) msg =
     (if cap = 0 then Some (cap, old) else Some (cap, take (cap - 1) msg))"

text \<open>The test \<open>err == NULL || err[0] == '\0'\<close>.\<close>

fun err_empty :: "errbuf \<Rightarrow> bool" where
  "err_empty None = True"
| "err_empty (Some (cap, s)) = (s = [])"

lemma msearch_log_silent: "g_level lg < level \<Longrightarrow> msearch_log lg level msg = []"
  by (simp add: msearch_log_def)

lemma msearch_log_speaks: "level \<le> g_level lg \<Longrightarrow> msearch_log lg level msg \<noteq> []"
  by (auto simp: msearch_log_def newline_def)

lemma set_err_bounded:
  assumes "buf = Some (cap, s)" "length s < cap"
  obtains t where "msearch_set_err buf msg = Some (cap, t)" "length t < cap"
  using assms by (cases "cap = 0") auto

lemma set_err_None_iff [simp]: "msearch_set_err buf msg = None \<longleftrightarrow> buf = None"
  by (cases "(buf, msg)" rule: msearch_set_err.cases) auto

section \<open>The clock\<close>

text \<open>\<open>msearch_wtime\<close> on a system with a monotonic clock, given the seconds and nanoseconds
  \<open>clock_gettime\<close> stored.\<close>

definition msearch_wtime :: "int \<times> int \<Rightarrow> dbl" where
  "msearch_wtime ts = (case ts of (tv_sec, tv_nsec) \<Rightarrow> dadd (dof_int tv_sec) (dmul (dof_int tv_nsec) (round_ratio False 1 1000000000 0)))"

end
