(* ===== verification/Problem.thy ===== *)
theory Problem
  imports Log "HOL-Library.Multiset"
begin

text \<open>
  The data model: \<open>include/msearch/types.h\<close>, \<open>include/msearch/problem.h\<close> and \<open>src/core/problem.c\<close>.
  A \<open>data\<close> pointer is \<open>None\<close> (null) or the array it points to; the \<open>pictures\<close> and \<open>objects\<close>
  pointers are lists, null when empty, since the code allocates them only for a positive count.
  The heap is what the properties need of it: an environment \<open>grants\<close> decides which allocation
  requests succeed, \<open>junk\<close> is what fresh \<open>malloc\<close> memory holds, and the state counts requests and
  live blocks, so that leaks and double frees show.
\<close>

section \<open>Types\<close>

datatype Status = MSEARCH_OK | MSEARCH_ERR_IO | MSEARCH_ERR_PARSE | MSEARCH_ERR_INVALID
  | MSEARCH_ERR_NOMEM | MSEARCH_ERR_BACKEND | MSEARCH_ERR_UNAVAILABLE

fun msearch_status_str :: "Status \<Rightarrow> string" where
  "msearch_status_str MSEARCH_OK = ''ok''"
| "msearch_status_str MSEARCH_ERR_IO = ''I/O error''"
| "msearch_status_str MSEARCH_ERR_PARSE = ''parse error''"
| "msearch_status_str MSEARCH_ERR_INVALID = ''invalid input''"
| "msearch_status_str MSEARCH_ERR_NOMEM = ''out of memory''"
| "msearch_status_str MSEARCH_ERR_BACKEND = ''backend error''"
| "msearch_status_str MSEARCH_ERR_UNAVAILABLE = ''backend unavailable''"

record Picture =
  p_id :: cint
  p_n :: cint
  p_data :: "cint list option"

record Object =
  o_id :: cint
  o_m :: cint
  o_data :: "cint list option"

record Problem =
  threshold :: dbl
  num_pictures :: cint
  pictures :: "Picture list"
  num_objects :: cint
  objects :: "Object list"

record Match =
  m_picture_id :: cint
  m_object_id :: cint
  m_row :: cint
  m_col :: cint

definition msearch_match_found :: "Match \<Rightarrow> bool" where
  "msearch_match_found mt \<longleftrightarrow> m_object_id mt \<ge> 0"

definition msearch_match_none :: "cint \<Rightarrow> Match" where
  "msearch_match_none pid = \<lparr>m_picture_id = pid, m_object_id = - 1, m_row = - 1, m_col = - 1\<rparr>"

definition MSEARCH_NO_PLACEMENT :: cint where
  "MSEARCH_NO_PLACEMENT = 2147483647"

section \<open>The heap\<close>

record env =
  grants :: "nat \<Rightarrow> bool"
  junk :: "nat \<Rightarrow> cint"

record heap =
  requests :: nat
  live :: int

definition mem_alloc :: "env \<Rightarrow> heap \<Rightarrow> bool \<times> heap" where
  "mem_alloc env h =
     (if grants env (requests h) then (True, h\<lparr>requests := requests h + 1, live := live h + 1\<rparr>)
      else (False, h\<lparr>requests := requests h + 1\<rparr>))"

text \<open>\<open>free\<close> of a pointer, a no-op on null.\<close>

definition mem_free :: "'a option \<Rightarrow> heap \<Rightarrow> heap" where
  "mem_free p h = (case p of None \<Rightarrow> h | Some _ \<Rightarrow> h\<lparr>live := live h - 1\<rparr>)"

text \<open>An array pointer as \<open>free\<close> sees it: null when no element was ever asked for.\<close>

definition array_ptr :: "'a list \<Rightarrow> 'a list option" where
  "array_ptr xs = (if xs = [] then None else Some xs)"

section \<open>Construction and destruction\<close>

definition msearch_problem_init :: Problem where
  "msearch_problem_init =
     \<lparr>threshold = dzero, num_pictures = 0, pictures = [], num_objects = 0, objects = []\<rparr>"

function free_pictures :: "Picture list \<Rightarrow> cint \<Rightarrow> cint \<Rightarrow> heap \<Rightarrow> heap option" where
  "free_pictures ps i n h =
     (if i < n then do { p \<leftarrow> load ps i; free_pictures ps (i + 1) n (mem_free (p_data p) h) }
      else Some h)"
  by pat_completeness auto
termination
  by (relation "measure (\<lambda>(ps, i, n, h). nat (n - i))") auto

function free_objects :: "Object list \<Rightarrow> cint \<Rightarrow> cint \<Rightarrow> heap \<Rightarrow> heap option" where
  "free_objects os k n h =
     (if k < n then do { o1 \<leftarrow> load os k; free_objects os (k + 1) n (mem_free (o_data o1) h) }
      else Some h)"
  by pat_completeness auto
termination
  by (relation "measure (\<lambda>(os, k, n, h). nat (n - k))") auto

declare free_pictures.simps [simp del] free_objects.simps [simp del]

definition msearch_problem_free :: "Problem option \<Rightarrow> heap \<Rightarrow> (Problem option \<times> heap) option" where
  "msearch_problem_free prob h =
     (case prob of None \<Rightarrow> Some (None, h)
      | Some p \<Rightarrow> do {
          h1 \<leftarrow> free_pictures (pictures p) 0 (num_pictures p) h;
          let h2 = mem_free (array_ptr (pictures p)) h1;
          h3 \<leftarrow> free_objects (objects p) 0 (num_objects p) h2;
          let h4 = mem_free (array_ptr (objects p)) h3;
          Some (Some msearch_problem_init, h4)
        })"

definition picture_zero :: Picture where
  "picture_zero = \<lparr>p_id = 0, p_n = 0, p_data = None\<rparr>"

definition object_zero :: Object where
  "object_zero = \<lparr>o_id = 0, o_m = 0, o_data = None\<rparr>"

definition msearch_problem_alloc ::
  "env \<Rightarrow> Problem \<Rightarrow> cint \<Rightarrow> cint \<Rightarrow> errbuf \<Rightarrow> heap \<Rightarrow> Status \<times> Problem \<times> errbuf \<times> heap" where
  "msearch_problem_alloc env p np no err h =
     (let p0 = p\<lparr>pictures := [], objects := [], num_pictures := np, num_objects := no\<rparr>;
          (okp, h1) = (if np > 0 then mem_alloc env h else (True, h))
      in if \<not> okp then
           (MSEARCH_ERR_NOMEM, p0,
            msearch_set_err err (''cannot allocate '' @ show_int np @ '' pictures''), h1)
         else
           let p1 = p0\<lparr>pictures := replicate (nat np) picture_zero\<rparr>;
               (oko, h2) = (if no > 0 then mem_alloc env h1 else (True, h1))
           in if \<not> oko then
                (MSEARCH_ERR_NOMEM, p1,
                 msearch_set_err err (''cannot allocate '' @ show_int no @ '' objects''), h2)
              else (MSEARCH_OK, p1\<lparr>objects := replicate (nat no) object_zero\<rparr>, err, h2))"

definition MSEARCH_MAX_SIDE :: cint where
  "MSEARCH_MAX_SIDE = 46340"

definition alloc_matrix ::
  "env \<Rightarrow> cint list option \<Rightarrow> cint \<Rightarrow> string \<Rightarrow> cint \<Rightarrow> errbuf \<Rightarrow> heap
    \<Rightarrow> Status \<times> cint list option \<times> errbuf \<times> heap" where
  "alloc_matrix env data side what pid err h =
     (if side \<le> 0 then
        (MSEARCH_ERR_INVALID, data,
         msearch_set_err err (what @ '' '' @ show_int pid @ '': size must be > 0, got '' @ show_int side), h)
      else if side > MSEARCH_MAX_SIDE then
        (MSEARCH_ERR_INVALID, data,
         msearch_set_err err (what @ '' '' @ show_int pid @ '': size '' @ show_int side @
           '' exceeds the supported maximum '' @ show_int MSEARCH_MAX_SIDE), h)
      else
        let elems = size_t (size_t side * size_t side);
            (ok, h1) = mem_alloc env h
        in if ok then (MSEARCH_OK, Some (map (junk env) [0..<nat elems]), err, h1)
           else (MSEARCH_ERR_NOMEM, None,
                 msearch_set_err err (what @ '' '' @ show_int pid @ '': cannot allocate '' @
                   show_int elems @ '' elements''), h1))"

definition msearch_picture_alloc ::
  "env \<Rightarrow> Picture \<Rightarrow> cint \<Rightarrow> cint \<Rightarrow> errbuf \<Rightarrow> heap \<Rightarrow> Status \<times> Picture \<times> errbuf \<times> heap" where
  "msearch_picture_alloc env p pid n err h =
     (let (st, d, err', h') = alloc_matrix env (p_data p) n ''picture'' pid err h
      in (st, p\<lparr>p_id := pid, p_n := n, p_data := d\<rparr>, err', h'))"

definition msearch_object_alloc ::
  "env \<Rightarrow> Object \<Rightarrow> cint \<Rightarrow> cint \<Rightarrow> errbuf \<Rightarrow> heap \<Rightarrow> Status \<times> Object \<times> errbuf \<times> heap" where
  "msearch_object_alloc env p pid m err h =
     (let (st, d, err', h') = alloc_matrix env (o_data p) m ''object'' pid err h
      in (st, p\<lparr>o_id := pid, o_m := m, o_data := d\<rparr>, err', h'))"

section \<open>Placements\<close>

definition msearch_placement_count :: "cint \<Rightarrow> cint \<Rightarrow> int option" where
  "msearch_placement_count n m = do {
     d \<leftarrow> chk64 (n - m);
     span \<leftarrow> chk64 (d + 1);
     if span > 0 then chk64 (span * span) else Some 0
   }"

function max_elems_from :: "Picture list \<Rightarrow> cint \<Rightarrow> cint \<Rightarrow> int \<Rightarrow> int option" where
  "max_elems_from ps i n mx =
     (if i < n then do {
        p \<leftarrow> load ps i;
        let elems = size_t (size_t (p_n p) * size_t (p_n p));
        max_elems_from ps (i + 1) n (if elems > mx then elems else mx)
      } else Some mx)"
  by pat_completeness auto
termination
  by (relation "measure (\<lambda>(ps, i, n, mx). nat (n - i))") auto

declare max_elems_from.simps [simp del]

definition msearch_max_picture_elems :: "Problem \<Rightarrow> int option" where
  "msearch_max_picture_elems p = max_elems_from (pictures p) 0 (num_pictures p) 0"

section \<open>Sorting\<close>

text \<open>The inner \<open>while\<close> of the insertion sort: shift larger objects one place up.\<close>

function shift_up :: "Object list \<Rightarrow> Object \<Rightarrow> cint \<Rightarrow> (Object list \<times> cint) option" where
  "shift_up os key j =
     (if j \<ge> 0 then do {
        o1 \<leftarrow> load os j;
        if o_id o1 > o_id key then do {
          os' \<leftarrow> store os (j + 1) o1;
          shift_up os' key (j - 1)
        } else Some (os, j)
      } else Some (os, j))"
  by pat_completeness auto
termination
  by (relation "measure (\<lambda>(os, key, j). nat (j + 1))") auto

function sort_from :: "Object list \<Rightarrow> cint \<Rightarrow> cint \<Rightarrow> Object list option" where
  "sort_from os i cnt =
     (if i < cnt then do {
        key \<leftarrow> load os i;
        (os', j) \<leftarrow> shift_up os key (i - 1);
        os'' \<leftarrow> store os' (j + 1) key;
        sort_from os'' (i + 1) cnt
      } else Some os)"
  by pat_completeness auto
termination
  by (relation "measure (\<lambda>(os, i, cnt). nat (cnt - i))") auto

declare shift_up.simps [simp del] sort_from.simps [simp del]

definition sort_objects_by_id :: "Object list \<Rightarrow> cint \<Rightarrow> Object list option" where
  "sort_objects_by_id os cnt = sort_from os 1 cnt"

section \<open>Validation\<close>

text \<open>The two checking loops: the message of the first failing element, if any.\<close>

function check_pictures :: "Picture list \<Rightarrow> cint \<Rightarrow> cint \<Rightarrow> string option option" where
  "check_pictures ps i n =
     (if i < n then do {
        p \<leftarrow> load ps i;
        if p_n p \<le> 0 \<or> p_data p = None
        then Some (Some (''picture '' @ show_int (p_id p) @ '': incomplete''))
        else do {
          c \<leftarrow> msearch_placement_count (p_n p) 1;
          if c > MSEARCH_NO_PLACEMENT
          then Some (Some (''picture '' @ show_int (p_id p) @ '': '' @ show_int (p_n p) @ ''x'' @
                 show_int (p_n p) @ '' has too many placements to index''))
          else check_pictures ps (i + 1) n
        }
      } else Some None)"
  by pat_completeness auto
termination
  by (relation "measure (\<lambda>(ps, i, n). nat (n - i))") auto

function check_objects :: "Object list \<Rightarrow> cint \<Rightarrow> cint \<Rightarrow> string option option" where
  "check_objects os k n =
     (if k < n then do {
        o1 \<leftarrow> load os k;
        if o_m o1 \<le> 0 \<or> o_data o1 = None
        then Some (Some (''object '' @ show_int (o_id o1) @ '': incomplete''))
        else check_objects os (k + 1) n
      } else Some None)"
  by pat_completeness auto
termination
  by (relation "measure (\<lambda>(os, k, n). nat (n - k))") auto

function max_side_from :: "Picture list \<Rightarrow> cint \<Rightarrow> cint \<Rightarrow> cint \<Rightarrow> cint option" where
  "max_side_from ps i n mx =
     (if i < n then do {
        p \<leftarrow> load ps i;
        max_side_from ps (i + 1) n (if p_n p > mx then p_n p else mx)
      } else Some mx)"
  by pat_completeness auto
termination
  by (relation "measure (\<lambda>(ps, i, n, mx). nat (n - i))") auto

function warn_objects :: "Object list \<Rightarrow> cint \<Rightarrow> cint \<Rightarrow> cint \<Rightarrow> log_event list option" where
  "warn_objects os k n max_n =
     (if k < n then do {
        o1 \<leftarrow> load os k;
        rest \<leftarrow> warn_objects os (k + 1) n max_n;
        Some ((if o_m o1 > max_n
               then [(LOG_WARN, ''object '' @ show_int (o_id o1) @ '' ('' @ show_int (o_m o1) @ ''x'' @
                       show_int (o_m o1) @ '') is larger than every picture (max '' @ show_int max_n @
                       ''x'' @ show_int max_n @ '') and can never match'')]
               else []) @ rest)
      } else Some [])"
  by pat_completeness auto
termination
  by (relation "measure (\<lambda>(os, k, n, max_n). nat (n - k))") auto

declare check_pictures.simps [simp del] check_objects.simps [simp del]
  max_side_from.simps [simp del] warn_objects.simps [simp del]

definition msearch_problem_validate ::
  "Problem \<Rightarrow> errbuf \<Rightarrow> (Status \<times> Problem \<times> errbuf \<times> log_event list) option" where
  "msearch_problem_validate p err =
     (if \<not> dlt dzero (threshold p) then
        Some (MSEARCH_ERR_INVALID, p,
          msearch_set_err err (''threshold must be > 0, got '' @ show_g (threshold p)), [])
      else if num_pictures p < 0 \<or> num_objects p < 0 then
        Some (MSEARCH_ERR_INVALID, p, msearch_set_err err ''picture/object counts must be >= 0'', [])
      else do {
        e1 \<leftarrow> check_pictures (pictures p) 0 (num_pictures p);
        case e1 of Some msg \<Rightarrow> Some (MSEARCH_ERR_INVALID, p, msearch_set_err err msg, [])
        | None \<Rightarrow> do {
            e2 \<leftarrow> check_objects (objects p) 0 (num_objects p);
            case e2 of Some msg \<Rightarrow> Some (MSEARCH_ERR_INVALID, p, msearch_set_err err msg, [])
            | None \<Rightarrow> do {
                max_n \<leftarrow> max_side_from (pictures p) 0 (num_pictures p) 0;
                warns \<leftarrow> warn_objects (objects p) 0 (num_objects p) max_n;
                os \<leftarrow> sort_objects_by_id (objects p) (num_objects p);
                Some (MSEARCH_OK, p\<lparr>objects := os\<rparr>, err, warns)
              }
          }
      })"

section \<open>Invariants\<close>

definition arrays_ok :: "Problem \<Rightarrow> bool" where
  "arrays_ok p \<longleftrightarrow> num_pictures p = int (length (pictures p)) \<and> num_objects p = int (length (objects p))"

text \<open>A loaded matrix: a side in range and that many \<open>int\<close>s.\<close>

definition matrix_ok :: "cint \<Rightarrow> cint list option \<Rightarrow> bool" where
  "matrix_ok side d \<longleftrightarrow> 0 < side \<and> side \<le> MSEARCH_MAX_SIDE \<and>
     (case d of None \<Rightarrow> False | Some xs \<Rightarrow> int (length xs) = side * side \<and> list_all int32 xs)"

definition picture_ok :: "Picture \<Rightarrow> bool" where
  "picture_ok p \<longleftrightarrow> int32 (p_id p) \<and> matrix_ok (p_n p) (p_data p)"

definition object_ok :: "Object \<Rightarrow> bool" where
  "object_ok p \<longleftrightarrow> int32 (o_id p) \<and> matrix_ok (o_m p) (o_data p)"

definition problem_ok :: "Problem \<Rightarrow> bool" where
  "problem_ok p \<longleftrightarrow> arrays_ok p \<and> dlt dzero (threshold p) \<and>
     list_all picture_ok (pictures p) \<and> list_all object_ok (objects p) \<and>
     sorted (map o_id (objects p))"

lemma matrix_okE:
  assumes "matrix_ok side d"
  obtains xs where "d = Some xs" "int (length xs) = side * side" "list_all int32 xs"
    "0 < side" "side \<le> 46340"
  using assms by (auto simp: matrix_ok_def MSEARCH_MAX_SIDE_def split: option.splits)

lemma max_side_square: "0 < n \<Longrightarrow> n \<le> MSEARCH_MAX_SIDE \<longleftrightarrow> n * n \<le> INT_MAX"
proof
  assume "0 < n" "n \<le> MSEARCH_MAX_SIDE"
  then have "n * n \<le> 46340 * 46340" by (intro mult_mono) (auto simp: MSEARCH_MAX_SIDE_def)
  then show "n * n \<le> INT_MAX" by (simp add: INT_MAX_def)
next
  assume "0 < n" "n * n \<le> INT_MAX"
  show "n \<le> MSEARCH_MAX_SIDE"
  proof (rule ccontr)
    assume "\<not> n \<le> MSEARCH_MAX_SIDE"
    then have "46341 * 46341 \<le> n * n" by (intro mult_mono) (auto simp: MSEARCH_MAX_SIDE_def)
    with \<open>n * n \<le> INT_MAX\<close> show False by (simp add: INT_MAX_def)
  qed
qed

section \<open>Loops over the arrays\<close>

lemma drop_nth_Cons: "i < length xs \<Longrightarrow> drop i xs = xs ! i # drop (Suc i) xs"
  by (rule Cons_nth_drop_Suc [symmetric])

lemma free_pictures_all:
  "i \<le> length ps \<Longrightarrow> free_pictures ps (int i) (int (length ps)) h =
     Some (fold (\<lambda>p. mem_free (p_data p)) (drop i ps) h)"
  by (induction i arbitrary: h rule: inc_induct)
    (subst free_pictures.simps, simp add: drop_nth_Cons add.commute)+

lemma free_objects_all:
  "i \<le> length ps \<Longrightarrow> free_objects ps (int i) (int (length ps)) h =
     Some (fold (\<lambda>p. mem_free (o_data p)) (drop i ps) h)"
  by (induction i arbitrary: h rule: inc_induct)
    (subst free_objects.simps, simp add: drop_nth_Cons add.commute)+

text \<open>The message with which validation rejects a picture or an object.\<close>

definition picture_fault :: "Picture \<Rightarrow> string option" where
  "picture_fault p =
     (if p_n p \<le> 0 \<or> p_data p = None
      then Some (''picture '' @ show_int (p_id p) @ '': incomplete'')
      else if INT_MAX < p_n p * p_n p
      then Some (''picture '' @ show_int (p_id p) @ '': '' @ show_int (p_n p) @ ''x'' @
                 show_int (p_n p) @ '' has too many placements to index'')
      else None)"

definition object_fault :: "Object \<Rightarrow> string option" where
  "object_fault q =
     (if o_m q \<le> 0 \<or> o_data q = None
      then Some (''object '' @ show_int (o_id q) @ '': incomplete'') else None)"

fun first_fault :: "('a \<Rightarrow> string option) \<Rightarrow> 'a list \<Rightarrow> string option" where
  "first_fault f [] = None"
| "first_fault f (x # xs) = (case f x of None \<Rightarrow> first_fault f xs | Some m \<Rightarrow> Some m)"

lemma first_fault_None: "first_fault f xs = None \<longleftrightarrow> (\<forall>x \<in> set xs. f x = None)"
  by (induction xs) (auto split: option.splits)

lemma int32_square_fits:
  assumes "int32 n" "0 < n" shows "int64 (n * n)"
proof -
  have "n * n \<le> 2147483647 * 2147483647"
    using assms by (intro mult_mono) (auto simp: int_ranges)
  moreover have "0 \<le> n * n" using assms by simp
  ultimately show ?thesis unfolding int_ranges by linarith
qed

lemma placement_count_1: "int32 n \<Longrightarrow> 0 < n \<Longrightarrow> msearch_placement_count n 1 = Some (n * n)"
  using int32_square_fits [of n]
  by (simp add: msearch_placement_count_def) (simp add: chk64_def int_ranges)

lemma placement_count_fits:
  assumes "int32 n" "int32 m" "0 < m"
  shows "msearch_placement_count n m = Some (if m \<le> n then (n - m + 1) * (n - m + 1) else 0)"
proof (cases "m \<le> n")
  case True
  then have "int64 ((n - m + 1) * (n - m + 1))"
    using assms by (intro int32_square_fits) (auto simp: int_ranges)
  with True assms show ?thesis
    by (simp add: msearch_placement_count_def) (simp add: chk64_def int_ranges)
next
  case False
  with assms show ?thesis
    by (simp add: msearch_placement_count_def chk64_def int_ranges)
qed

lemma check_pictures_all:
  assumes "\<forall>p \<in> set ps. int32 (p_n p)"
  shows "i \<le> length ps \<Longrightarrow>
    check_pictures ps (int i) (int (length ps)) = Some (first_fault picture_fault (drop i ps))"
proof (induction i rule: inc_induct)
  case base
  then show ?case by (subst check_pictures.simps) simp
next
  case (step i)
  have "int32 (p_n (ps ! i))" using assms step by auto
  with step show ?case
    by (subst check_pictures.simps)
      (auto simp: drop_nth_Cons add.commute picture_fault_def [of "ps ! i"] placement_count_1
        MSEARCH_NO_PLACEMENT_def INT_MAX_def)
qed

lemma check_objects_all:
  "i \<le> length ps \<Longrightarrow>
    check_objects ps (int i) (int (length ps)) = Some (first_fault object_fault (drop i ps))"
  by (induction i rule: inc_induct)
    (subst check_objects.simps, auto simp: drop_nth_Cons add.commute object_fault_def)+

lemma max_side_from_all:
  "i \<le> length ps \<Longrightarrow>
    max_side_from ps (int i) (int (length ps)) mx = Some (fold max (map p_n (drop i ps)) mx)"
  by (induction i arbitrary: mx rule: inc_induct)
    (subst max_side_from.simps, auto simp: drop_nth_Cons add.commute max_def)+

definition warning :: "cint \<Rightarrow> Object \<Rightarrow> log_event list" where
  "warning max_n q =
     (if o_m q > max_n
      then [(LOG_WARN, ''object '' @ show_int (o_id q) @ '' ('' @ show_int (o_m q) @ ''x'' @
              show_int (o_m q) @ '') is larger than every picture (max '' @ show_int max_n @
              ''x'' @ show_int max_n @ '') and can never match'')]
      else [])"

lemma warn_objects_all:
  "i \<le> length ps \<Longrightarrow>
    warn_objects ps (int i) (int (length ps)) mx = Some (concat (map (warning mx) (drop i ps)))"
  by (induction i rule: inc_induct)
    (subst warn_objects.simps, auto simp: drop_nth_Cons add.commute warning_def)+

lemma max_elems_from_all:
  assumes "\<forall>p \<in> set ps. 0 \<le> p_n p \<and> int32 (p_n p)"
  shows "i \<le> length ps \<Longrightarrow> max_elems_from ps (int i) (int (length ps)) mx =
    Some (fold max (map (\<lambda>p. p_n p * p_n p) (drop i ps)) mx)"
proof (induction i arbitrary: mx rule: inc_induct)
  case base
  then show ?case by (subst max_elems_from.simps) simp
next
  case (step i)
  have n: "0 \<le> p_n (ps ! i)" "p_n (ps ! i) \<le> 2147483647" using assms step by (auto simp: int_ranges)
  then have "p_n (ps ! i) * p_n (ps ! i) \<le> 2147483647 * 2147483647" by (intro mult_mono) auto
  with n step show ?case
    by (subst max_elems_from.simps) (auto simp: drop_nth_Cons add.commute max_def [of "p_n (ps ! i) * p_n (ps ! i)" mx] Let_def)
qed

section \<open>The insertion sort is the stable sort by id\<close>

lemma shift_up_spec:
  assumes "\<forall>x \<in> set big. o_id key < o_id x"
    and "pre = [] \<or> o_id (last pre) \<le> o_id key"
  shows "\<exists>x. shift_up (pre @ big @ hole # rest) key (int (length pre + length big) - 1) =
    Some (pre @ x # big @ rest, int (length pre) - 1)"
  using assms
proof (induction big arbitrary: hole rest rule: rev_induct)
  case Nil
  show ?case
  proof (cases pre rule: rev_cases)
    case Nil
    then show ?thesis by (subst shift_up.simps) simp
  next
    case (snoc ys y)
    with Nil.prems show ?thesis by (subst shift_up.simps) (auto simp: nth_append)
  qed
next
  case (snoc b bs)
  let ?j = "length pre + length bs"
  have "shift_up (pre @ (bs @ [b]) @ hole # rest) key (int (length pre + length (bs @ [b])) - 1) =
      shift_up (pre @ bs @ b # b # rest) key (int ?j - 1)"
    using snoc.prems
    by (subst shift_up.simps) (simp add: nth_append list_update_append nat_add_distrib load_def store_def)
  with snoc.IH [of b "b # rest"] snoc.prems show ?case by simp
qed

definition insert_after :: "Object \<Rightarrow> Object list \<Rightarrow> Object list" where
  "insert_after x ys =
     takeWhile (\<lambda>y. o_id y \<le> o_id x) ys @ x # dropWhile (\<lambda>y. o_id y \<le> o_id x) ys"

lemma dropWhile_above:
  "sorted (map f ys) \<Longrightarrow> z \<in> set (dropWhile (\<lambda>y. f y \<le> k) ys) \<Longrightarrow> (k::int) < f z"
  by (induction ys) (auto split: if_splits)

lemma takeWhile_last: "takeWhile P ys = [] \<or> P (last (takeWhile P ys))"
  by (metis last_in_set set_takeWhileD)

lemma sorted_insert_after: "sorted (map o_id ys) \<Longrightarrow> sorted (map o_id (insert_after x ys))"
  by (induction ys) (auto simp: insert_after_def dest: set_takeWhileD dropWhile_above less_imp_le)

lemma mset_insert_after [simp]: "mset (insert_after x ys) = add_mset x (mset ys)"
proof -
  let ?P = "\<lambda>y. o_id y \<le> o_id x"
  have "mset (takeWhile ?P ys) + mset (dropWhile ?P ys) = mset ys"
    by (simp only: mset_append [symmetric] takeWhile_dropWhile_id)
  then show ?thesis by (simp add: insert_after_def)
qed

lemma length_insert_after [simp]: "length (insert_after x ys) = Suc (length ys)"
  by (metis length_Cons mset.simps(2) mset_insert_after size_mset)

lemma filter_insert_after:
  "sorted (map o_id ys) \<Longrightarrow> filter (\<lambda>y. k = o_id y) (insert_after x ys) =
     filter (\<lambda>y. k = o_id y) ys @ (if k = o_id x then [x] else [])"
proof (induction ys)
  case Nil
  then show ?case by (simp add: insert_after_def)
next
  case (Cons a ys)
  show ?case
  proof (cases "o_id a \<le> o_id x")
    case True
    with Cons show ?thesis by (auto simp: insert_after_def)
  next
    case False
    with Cons.prems have "filter (\<lambda>y. o_id x = o_id y) (a # ys) = []"
      by (auto simp: filter_empty_conv)
    with False show ?thesis by (auto simp: insert_after_def)
  qed
qed

lemma sort_from_fold:
  assumes "sorted (map o_id pre)"
  shows "sort_from (pre @ suf) (int (length pre)) (int (length (pre @ suf))) = Some (fold insert_after suf pre)"
  using assms
proof (induction suf arbitrary: pre)
  case Nil
  then show ?case by (subst sort_from.simps) simp
next
  case (Cons key suf)
  define lo hi where "lo = takeWhile (\<lambda>y. o_id y \<le> o_id key) pre"
    and "hi = dropWhile (\<lambda>y. o_id y \<le> o_id key) pre"
  have pre: "pre = lo @ hi" by (simp add: lo_def hi_def)
  have "\<forall>x \<in> set hi. o_id key < o_id x"
    using Cons.prems dropWhile_above [of o_id pre] by (auto simp: hi_def)
  moreover have "lo = [] \<or> o_id (last lo) \<le> o_id key"
    using takeWhile_last [of "\<lambda>y. o_id y \<le> o_id key" pre] by (simp add: lo_def)
  ultimately obtain x where sh: "shift_up (lo @ hi @ key # suf) key (int (length lo + length hi) - 1) =
      Some (lo @ x # hi @ suf, int (length lo) - 1)"
    using shift_up_spec by blast
  have ins: "insert_after key pre = lo @ key # hi" by (simp add: insert_after_def lo_def hi_def)
  have ld: "load (pre @ key # suf) (int (length pre)) = Some key"
    by (simp add: load_def)
  have sh': "shift_up (pre @ key # suf) key (int (length pre) - 1) = Some (lo @ x # hi @ suf, int (length lo) - 1)"
    using sh by (simp add: pre)
  have st: "store (lo @ x # hi @ suf) (int (length lo)) key = Some (insert_after key pre @ suf)"
    by (simp add: store_def ins list_update_append)
  have "sort_from (pre @ key # suf) (int (length pre)) (int (length (pre @ key # suf))) =
      sort_from (insert_after key pre @ suf) (int (length (insert_after key pre)))
        (int (length (insert_after key pre @ suf)))"
    by (subst sort_from.simps) (simp add: ld sh' st ac_simps)
  with Cons.IH [of "insert_after key pre"] sorted_insert_after [OF Cons.prems] show ?case by simp
qed

lemma fold_insert_after:
  assumes "sorted (map o_id pre)"
  shows "sorted (map o_id (fold insert_after suf pre))"
    and "mset (fold insert_after suf pre) = mset pre + mset suf"
    and "filter (\<lambda>y. k = o_id y) (fold insert_after suf pre) =
      filter (\<lambda>y. k = o_id y) pre @ filter (\<lambda>y. k = o_id y) suf"
  using assms
  by (induction suf arbitrary: pre)
    (auto simp: sorted_insert_after filter_insert_after)

lemma sort_objects_by_id_sort_key: "sort_objects_by_id os (int (length os)) = Some (sort_key o_id os)"
proof -
  have s: "sort_key o_id os = fold insert_after os []"
    by (rule properties_for_sort_key) (simp_all add: fold_insert_after)
  have "sort_from os 1 (int (length os)) = Some (fold insert_after os [])"
  proof (cases os)
    case Nil
    then show ?thesis by (subst sort_from.simps) simp
  next
    case (Cons a list)
    then show ?thesis
      using sort_from_fold [of "[a]" list] by (simp add: insert_after_def)
  qed
  then show ?thesis by (simp add: sort_objects_by_id_def s)
qed

section \<open>What validation establishes\<close>

definition validation_warnings :: "Problem \<Rightarrow> log_event list" where
  "validation_warnings p =
     concat (map (warning (fold max (map p_n (pictures p)) 0)) (objects p))"

definition validation_fault :: "Problem \<Rightarrow> string option" where
  "validation_fault p =
     (if \<not> dlt dzero (threshold p) then Some (''threshold must be > 0, got '' @ show_g (threshold p))
      else case first_fault picture_fault (pictures p) of Some m \<Rightarrow> Some m
        | None \<Rightarrow> first_fault object_fault (objects p))"

lemma validate_cases:
  assumes "arrays_ok p" "\<forall>q \<in> set (pictures p). int32 (p_n q)"
  shows "msearch_problem_validate p err =
    Some (case validation_fault p of
        Some m \<Rightarrow> (MSEARCH_ERR_INVALID, p, msearch_set_err err m, [])
      | None \<Rightarrow> (MSEARCH_OK, p\<lparr>objects := sort_key o_id (objects p)\<rparr>, err, validation_warnings p))"
  using assms check_pictures_all [of "pictures p" 0] check_objects_all [of 0 "objects p"]
    max_side_from_all [of 0 "pictures p" 0]
    warn_objects_all [of 0 "objects p" "fold max (map p_n (pictures p)) 0"]
  by (auto simp: msearch_problem_validate_def validation_fault_def arrays_ok_def
      validation_warnings_def sort_objects_by_id_sort_key split: option.splits)

section \<open>Properties\<close>

lemma first_fault_picture_None:
  "first_fault picture_fault ps = None \<longleftrightarrow>
    (\<forall>q \<in> set ps. 0 < p_n q \<and> p_data q \<noteq> None \<and> p_n q * p_n q \<le> INT_MAX)"
  by (auto simp: first_fault_None picture_fault_def split: if_splits)

lemma first_fault_object_None:
  "first_fault object_fault qs = None \<longleftrightarrow> (\<forall>q \<in> set qs. 0 < o_m q \<and> o_data q \<noteq> None)"
  by (auto simp: first_fault_None object_fault_def split: if_splits)

lemma first_fault_elim:
  "first_fault f xs = Some m \<Longrightarrow> (\<And>x. x \<in> set xs \<Longrightarrow> f x = Some m \<Longrightarrow> thesis) \<Longrightarrow> thesis"
  by (induction xs) (auto split: option.splits)

text \<open>C14: Validation runs without undefined behaviour and accepts exactly the problems with a positive
  threshold, complete pictures small enough to index and complete objects; on success it has only
  reordered the objects, stably, by ascending id; on failure it has changed nothing and put a message
  in the caller's buffer.\<close>

theorem validate_accepts_and_sorts:
  assumes "arrays_ok p" "\<forall>q \<in> set (pictures p). int32 (p_n q)"
  shows "\<exists>st p' err' warns. msearch_problem_validate p err = Some (st, p', err', warns) \<and>
    (st = MSEARCH_OK \<longleftrightarrow> dlt dzero (threshold p) \<and>
       (\<forall>q \<in> set (pictures p). 0 < p_n q \<and> p_data q \<noteq> None \<and> p_n q * p_n q \<le> INT_MAX) \<and>
       (\<forall>q \<in> set (objects p). 0 < o_m q \<and> o_data q \<noteq> None)) \<and>
    (if st = MSEARCH_OK
     then p' = p\<lparr>objects := objects p'\<rparr> \<and> mset (objects p') = mset (objects p) \<and>
       sorted (map o_id (objects p')) \<and>
       (\<forall>k. filter (\<lambda>q. o_id q = k) (objects p') = filter (\<lambda>q. o_id q = k) (objects p)) \<and> err' = err
     else st = MSEARCH_ERR_INVALID \<and> p' = p \<and> warns = [] \<and>
       (\<exists>msg. msg \<noteq> [] \<and> err' = msearch_set_err err msg))"
proof (cases "validation_fault p")
  case None
  then have ok: "dlt dzero (threshold p)" "first_fault picture_fault (pictures p) = None"
    "first_fault object_fault (objects p) = None"
    by (auto simp: validation_fault_def split: if_splits option.splits)
  show ?thesis
    unfolding validate_cases [OF assms] None
    using ok by (simp add: first_fault_picture_None first_fault_object_None sort_key_stable)
next
  case (Some msg)
  have "msg \<noteq> []"
    using Some unfolding validation_fault_def
    by (auto split: if_splits option.splits elim!: first_fault_elim simp: picture_fault_def object_fault_def)
  moreover have "\<not> (dlt dzero (threshold p) \<and>
       (\<forall>q \<in> set (pictures p). 0 < p_n q \<and> p_data q \<noteq> None \<and> p_n q * p_n q \<le> INT_MAX) \<and>
       (\<forall>q \<in> set (objects p). 0 < o_m q \<and> o_data q \<noteq> None))"
    using Some unfolding first_fault_picture_None [symmetric] first_fault_object_None [symmetric]
    by (auto simp: validation_fault_def)
  ultimately show ?thesis
    unfolding validate_cases [OF assms] Some by auto
qed

definition unsorted_problem :: Problem where
  "unsorted_problem =
     \<lparr>threshold = dof_int 1, num_pictures = 1, pictures = [\<lparr>p_id = 1, p_n = 1, p_data = Some [7]\<rparr>],
      num_objects = 2, objects = [\<lparr>o_id = 5, o_m = 1, o_data = Some [7]\<rparr>, \<lparr>o_id = 2, o_m = 1, o_data = Some [8]\<rparr>]\<rparr>"

theorem validate_accepts_and_sorts_witness:
  "\<exists>p' err' warns. msearch_problem_validate unsorted_problem None = Some (MSEARCH_OK, p', err', warns) \<and>
    sorted (map o_id (objects p')) \<and> mset (objects p') = mset (objects unsorted_problem)"
proof -
  have a: "arrays_ok unsorted_problem" "\<forall>q \<in> set (pictures unsorted_problem). int32 (p_n q)" by code_simp+
  have ok: "dlt dzero (threshold unsorted_problem) \<and>
       (\<forall>q \<in> set (pictures unsorted_problem). 0 < p_n q \<and> p_data q \<noteq> None \<and> p_n q * p_n q \<le> INT_MAX) \<and>
       (\<forall>q \<in> set (objects unsorted_problem). 0 < o_m q \<and> o_data q \<noteq> None)"
    by code_simp
  from validate_accepts_and_sorts [OF a, of None] ok show ?thesis by (auto split: if_splits)
qed

text \<open>C19: A matrix is allocated exactly when its side is between 1 and 46340 and memory is granted; then
  it has \<open>side * side\<close> elements, a number that fits an \<open>int\<close>, and on every failure nothing new is held
  and a non-empty message is reported.\<close>

theorem alloc_matrix_bounds:
  "\<exists>st d err' h'. alloc_matrix env data side what pid err h = (st, d, err', h') \<and>
    (st = MSEARCH_OK \<longleftrightarrow> 0 < side \<and> side \<le> 46340 \<and> grants env (requests h)) \<and>
    (if st = MSEARCH_OK
     then (\<exists>xs. d = Some xs \<and> int (length xs) = side * side \<and> int32 (side * side)) \<and>
       live h' = live h + 1 \<and> err' = err
     else (\<exists>msg. msg \<noteq> [] \<and> err' = msearch_set_err err msg) \<and> live h' = live h)"
proof (cases "0 < side \<and> side \<le> 46340")
  case True
  then have "side * side \<le> INT_MAX" using max_side_square [of side] by (simp add: MSEARCH_MAX_SIDE_def)
  moreover have "0 < side * side" using True by simp
  ultimately have "int32 (side * side)" "0 \<le> side * side" "side * side < 18446744073709551616"
    unfolding int_ranges by linarith+
  then have "int32 (side * side)" "size_t (size_t side * size_t side) = side * side" "0 \<le> side * side"
    using True by simp_all
  with True show ?thesis
    by (auto simp: alloc_matrix_def MSEARCH_MAX_SIDE_def mem_alloc_def Let_def)
qed (auto simp: alloc_matrix_def MSEARCH_MAX_SIDE_def)

text \<open>C21: When the picture array cannot be allocated, the problem is left with a picture count and no
  array; releasing it then, as the reader's error path does, is undefined behaviour.\<close>

theorem failed_alloc_cannot_be_freed:
  assumes "0 < np" "\<not> grants env (requests h)"
  shows "\<exists>p' err' h'. msearch_problem_alloc env p np no err h = (MSEARCH_ERR_NOMEM, p', err', h') \<and>
    msearch_problem_free (Some p') h' = None"
proof -
  have "free_pictures [] 0 np h' = None" for h'
    using assms(1) by (subst free_pictures.simps) (simp add: load_def)
  with assms show ?thesis
    by (simp add: msearch_problem_alloc_def mem_alloc_def msearch_problem_free_def)
qed

theorem failed_alloc_cannot_be_freed_witness:
  "\<exists>p' err' h'. msearch_problem_alloc \<lparr>grants = (\<lambda>_. False), junk = (\<lambda>_. 0)\<rparr> msearch_problem_init 3 1
      None \<lparr>requests = 0, live = 0\<rparr> = (MSEARCH_ERR_NOMEM, p', err', h') \<and>
    msearch_problem_free (Some p') h' = None"
  by (rule failed_alloc_cannot_be_freed) simp_all

end
