(* ===== verification/Config.thy ===== *)
theory Config
  imports Problem
begin

text \<open>
  The run configuration: \<open>Config\<close> and \<open>EarlyAction\<close> of \<open>include/msearch/config.h\<close> and the defaults of
  \<open>src/cli/options.c\<close>. The fields keep the source's names behind a \<open>c_\<close>.
\<close>

record Config =
  c_input_path :: string
  c_output_path :: string
  c_backend_name :: string
  c_threads :: cint
  c_device :: cint
  c_node_rank :: cint
  c_node_ranks :: cint
  c_zero_eps :: dbl
  c_bench_reps :: cint
  c_verify :: bool
  c_log_level :: LogLevel

datatype EarlyAction = EARLY_NONE | EARLY_HELP | EARLY_VERSION | EARLY_LIST_BACKENDS

definition MSEARCH_DEFAULT_ZERO_EPS :: dbl where
  "MSEARCH_DEFAULT_ZERO_EPS = round_ratio False 1 1000000000 0"

definition msearch_config_defaults :: Config where
  "msearch_config_defaults =
     \<lparr>c_input_path = ''input.txt'', c_output_path = ''output.txt'', c_backend_name = ''auto'',
      c_threads = 0, c_device = - 1, c_node_rank = 0, c_node_ranks = 1,
      c_zero_eps = MSEARCH_DEFAULT_ZERO_EPS, c_bench_reps = 0, c_verify = False, c_log_level = LOG_INFO\<rparr>"

end
