(* ===== verification/Metric.thy ===== *)
theory Metric
  imports Config
begin

text \<open>
  The matching metric, \<open>include/msearch/metric.h\<close>: the per-element term and the score of a
  placement with its early exit. A load outside a matrix and a signed overflow are \<open>None\<close>. The
  specification is the sum of all terms in the code's order, without the early exit
  (\<open>full_score\<close>); the lemmas show that the score is defined on every placement inside the picture,
  that it decides the comparison with the threshold as the full sum does, and how close a term is
  to the real number \<open>|(p - o) / p|\<close>.
\<close>

section \<open>The code\<close>

definition msearch_term :: "cint \<Rightarrow> cint \<Rightarrow> dbl \<Rightarrow> dbl" where
  "msearch_term p q zero_eps =
     (let denom = (if p \<noteq> 0 then dof_int p else zero_eps)
      in dabs (ddiv (dsub (dof_int p) (dof_int q)) denom))"

text \<open>The loop over \<open>x\<close>: one row of the object.\<close>

function score_row :: "cint list \<Rightarrow> int \<Rightarrow> cint list \<Rightarrow> int \<Rightarrow> cint \<Rightarrow> cint \<Rightarrow> dbl \<Rightarrow> dbl \<Rightarrow> dbl option" where
  "score_row picture prow object orow m x zero_eps acc =
     (if x < m then do {
        p \<leftarrow> load picture (prow + x);
        q \<leftarrow> load object (orow + x);
        score_row picture prow object orow m (x + 1) zero_eps (dadd acc (msearch_term p q zero_eps))
      } else Some acc)"
  by pat_completeness auto
termination
  by (relation "measure (\<lambda>(picture, prow, object, orow, m, x, zero_eps, acc). nat (m - x))") auto

text \<open>The loop over \<open>y\<close>, which leaves as soon as the sum reaches the threshold.\<close>

function score_from ::
  "cint list \<Rightarrow> cint \<Rightarrow> cint list \<Rightarrow> cint \<Rightarrow> cint \<Rightarrow> cint \<Rightarrow> dbl \<Rightarrow> dbl \<Rightarrow> cint \<Rightarrow> dbl \<Rightarrow> dbl option" where
  "score_from picture n object m row col thr zero_eps y acc =
     (if y < m then do {
        r \<leftarrow> chk32 (row + y);
        prow \<leftarrow> ptr_add picture (size_t (size_t (size_t r * size_t n) + size_t col));
        orow \<leftarrow> ptr_add object (size_t (size_t y * size_t m));
        acc' \<leftarrow> score_row picture prow object orow m 0 zero_eps acc;
        if dle thr acc' then Some acc'
        else score_from picture n object m row col thr zero_eps (y + 1) acc'
      } else Some acc)"
  by pat_completeness auto
termination
  by (relation "measure (\<lambda>(picture, n, object, m, row, col, thr, zero_eps, y, acc). nat (m - y))")
    auto

declare score_row.simps [simp del] score_from.simps [simp del]

definition msearch_score_at ::
  "cint list \<Rightarrow> cint \<Rightarrow> cint list \<Rightarrow> cint \<Rightarrow> cint \<Rightarrow> cint \<Rightarrow> dbl \<Rightarrow> dbl \<Rightarrow> dbl option" where
  "msearch_score_at picture n object m row col thr zero_eps =
     score_from picture n object m row col thr zero_eps 0 dzero"

section \<open>Specification\<close>

definition row_terms :: "cint list \<Rightarrow> int \<Rightarrow> cint list \<Rightarrow> int \<Rightarrow> cint \<Rightarrow> cint \<Rightarrow> dbl \<Rightarrow> dbl list" where
  "row_terms picture prow object orow m x zero_eps =
     map (\<lambda>x. msearch_term (picture ! nat (prow + x)) (object ! nat (orow + x)) zero_eps) [x..m - 1]"

definition terms_from ::
  "cint list \<Rightarrow> cint \<Rightarrow> cint list \<Rightarrow> cint \<Rightarrow> cint \<Rightarrow> cint \<Rightarrow> dbl \<Rightarrow> cint \<Rightarrow> dbl list" where
  "terms_from picture n object m row col zero_eps y =
     concat (map (\<lambda>y. row_terms picture ((row + y) * n + col) object (y * m) m 0 zero_eps) [y..m - 1])"

definition full_score ::
  "cint list \<Rightarrow> cint \<Rightarrow> cint list \<Rightarrow> cint \<Rightarrow> cint \<Rightarrow> cint \<Rightarrow> dbl \<Rightarrow> dbl" where
  "full_score picture n object m row col zero_eps =
     foldl dadd dzero (terms_from picture n object m row col zero_eps 0)"

text \<open>A placement inside a picture, over loaded matrices, and an admissible \<open>zero_eps\<close>.\<close>

definition window_ok :: "cint list \<Rightarrow> cint \<Rightarrow> cint list \<Rightarrow> cint \<Rightarrow> cint \<Rightarrow> cint \<Rightarrow> bool" where
  "window_ok picture n object m row col \<longleftrightarrow>
     matrix_ok n (Some picture) \<and> matrix_ok m (Some object) \<and>
     0 \<le> row \<and> 0 \<le> col \<and> row + m \<le> n \<and> col + m \<le> n"

definition eps_ok :: "dbl \<Rightarrow> bool" where
  "eps_ok d \<longleftrightarrow> dbl_ok d \<and> dlt dzero d"

section \<open>Terms\<close>

lemma eps_ok_cases:
  assumes "eps_ok d"
  obtains "d = Inf False" | m e where "d = Fin False m e" "canonical m e" "0 < m"
proof (cases d)
  case (Fin s m e)
  with assms have c: "canonical m e" and "0 < dval (Fin s m e)"
    by (auto simp: eps_ok_def dzero_def pval_def)
  then have "\<not> s" and "0 < pval m e"
    using pval_nonneg [of m e] by (auto simp: canonical_def split: if_splits)
  then have "\<not> s \<and> 0 < m"
    using c by (cases "m = 0") (auto simp: canonical_def pval_def)
  with Fin c that show thesis by blast
qed (use assms that in \<open>auto simp: eps_ok_def dzero_def\<close>)

lemma eps_ok_default [simp]: "eps_ok MSEARCH_DEFAULT_ZERO_EPS"
  by code_simp

lemma int32_small: "int32 i \<Longrightarrow> \<bar>i\<bar> < 2 ^ 53"
  by (auto simp: int_ranges)

lemma int32_diff_small: "int32 i \<Longrightarrow> int32 j \<Longrightarrow> \<bar>i - j\<bar> < 2 ^ 53"
  by (auto simp: int_ranges)

text \<open>The two shapes of a term: the quotient of two exact positive numbers, rounded once.\<close>

lemma term_eps_inf:
  assumes "int32 q"
  shows "msearch_term 0 q (Inf False) = dzero"
proof -
  obtain m e where "dsub (dof_int 0) (dof_int q) = Fin (0 < q) m e"
    using dsub_int_exact [of 0 q] int32_small [OF assms] by auto
  then show ?thesis by (simp add: msearch_term_def dzero_def)
qed

lemma dabs_round_ratio: "dabs (round_ratio s n d k) = round_ratio False n d k"
  by (simp add: round_ratio_def Let_def)

lemma term_ratio:
  assumes "int32 p" "int32 q" and eps: "p = 0 \<Longrightarrow> eps = Fin False n f \<and> 0 < n"
  shows "\<exists>m e n' f'. msearch_term p q eps = round_ratio False m n' (e - f') \<and> 0 \<le> m \<and> 0 < n'
    \<and> pval m e = real_of_int \<bar>p - q\<bar>
    \<and> pval n' f' = (if p = 0 then pval n f else real_of_int \<bar>p\<bar>)"
proof -
  obtain m e where num: "dsub (dof_int p) (dof_int q) = Fin (p < q) m e" "canonical m e"
    "pval m e = real_of_int \<bar>p - q\<bar>"
    using dsub_int_exact [of p q] int32_small int32_diff_small assms by blast
  show ?thesis
  proof (cases "p = 0")
    case True
    with eps num show ?thesis
      by (auto simp: msearch_term_def dabs_round_ratio canonical_def)
  next
    case False
    obtain n' f' where den: "dof_int p = Fin (p < 0) n' f'" "canonical n' f'"
      "pval n' f' = real_of_int \<bar>p\<bar>"
      using dof_int_exact [OF int32_small [OF assms(1)]] by blast
    have "n' \<noteq> 0" using den(3) False by (auto simp: pval_def)
    with den(2) have "0 < n'" by (simp add: canonical_def)
    with num den False show ?thesis
      by (intro exI [of _ m] exI [of _ e] exI [of _ n'] exI [of _ f'])
        (simp add: msearch_term_def dabs_round_ratio canonical_def)
  qed
qed

lemma ratio_powi: "real_of_int m / real_of_int n * 2 powi (e - f) = pval m e / pval n f"
  by (simp add: pval_def power_int_diff)

lemma term_nonneg:
  assumes "int32 p" "int32 q" "eps_ok eps"
  shows "nonneg (msearch_term p q eps)"
  using assms(3)
proof (cases rule: eps_ok_cases)
  case 1
  show ?thesis
  proof (cases "p = 0")
    case True
    with 1 assms show ?thesis by (simp add: term_eps_inf)
  next
    case False
    with term_ratio [OF assms(1,2), of eps 0 0] show ?thesis by (auto simp: nonneg_round_ratio)
  qed
next
  case (2 m e)
  with term_ratio [OF assms(1,2), of eps m e] show ?thesis by (auto simp: nonneg_round_ratio)
qed

lemma term_same:
  assumes "int32 p" "eps_ok eps"
  shows "msearch_term p p eps = dzero"
  using assms(2)
proof (cases rule: eps_ok_cases)
  case 1
  show ?thesis
  proof (cases "p = 0")
    case True
    with 1 assms show ?thesis by (simp add: term_eps_inf)
  next
    case False
    with term_ratio [OF assms(1,1), of eps 0 0] show ?thesis
      by (auto simp: pval_def round_ratio_def dzero_def)
  qed
next
  case (2 m e)
  with term_ratio [OF assms(1,1), of eps m e] show ?thesis
    by (auto simp: pval_def round_ratio_def dzero_def)
qed

section \<open>Sums\<close>

lemma foldl_dadd_nonneg:
  "nonneg s \<Longrightarrow> \<forall>t \<in> set ts. nonneg t \<Longrightarrow> nonneg (foldl dadd s ts) \<and> dle s (foldl dadd s ts)"
proof (induction ts arbitrary: s)
  case Nil
  then show ?case by (auto intro: dle_refl)
next
  case (Cons t ts)
  then have "nonneg (dadd s t) \<and> dle s (dadd s t)"
    by (intro dadd_nonneg_ge) auto
  with Cons.IH [of "dadd s t"] Cons.prems show ?case by (auto intro: dle_trans)
qed

lemma foldl_dadd_zero: "\<forall>t \<in> set ts. t = dzero \<Longrightarrow> foldl dadd dzero ts = dzero"
  by (induction ts) (auto simp: dzero_def Let_def at_exp_def)

section \<open>Scores\<close>

lemma nonneg_dle_refl [simp]: "nonneg x \<Longrightarrow> dle x x"
  by (cases x) auto

lemma row_terms_Nil [simp]: "m \<le> x \<Longrightarrow> row_terms picture prow object orow m x eps = []"
  by (simp add: row_terms_def)

lemma row_terms_Cons:
  "x < m \<Longrightarrow> row_terms picture prow object orow m x eps =
     msearch_term (picture ! nat (prow + x)) (object ! nat (orow + x)) eps #
     row_terms picture prow object orow m (x + 1) eps"
  by (simp add: row_terms_def upto_rec1)

lemma terms_from_Nil [simp]: "m \<le> y \<Longrightarrow> terms_from picture n object m row col eps y = []"
  by (simp add: terms_from_def)

lemma terms_from_Cons:
  "y < m \<Longrightarrow> terms_from picture n object m row col eps y =
     row_terms picture ((row + y) * n + col) object (y * m) m 0 eps @
     terms_from picture n object m row col eps (y + 1)"
  by (simp add: terms_from_def upto_rec1)

lemma score_row_eq:
  assumes "0 \<le> prow" "prow + m \<le> int (length picture)" "0 \<le> orow" "orow + m \<le> int (length object)"
  shows "0 \<le> x \<Longrightarrow> score_row picture prow object orow m x eps s =
    Some (foldl dadd s (row_terms picture prow object orow m x eps))"
proof (induction "nat (m - x)" arbitrary: x s)
  case 0
  then show ?case by (subst score_row.simps) simp
next
  case (Suc k)
  then have x: "x < m" by simp
  with Suc assms show ?case
    by (subst score_row.simps) (simp add: row_terms_Cons [OF x])
qed

lemma window_rows:
  assumes "window_ok picture n object m row col" "0 \<le> y" "y < m"
  shows "int32 (row + y)"
    and "size_t (size_t (size_t (row + y) * size_t n) + size_t col) = (row + y) * n + col"
    and "size_t (size_t y * size_t m) = y * m"
    and "0 \<le> (row + y) * n + col" and "(row + y) * n + col + m \<le> int (length picture)"
    and "0 \<le> y * m" and "y * m + m \<le> int (length object)"
proof -
  have b: "0 < m" "m \<le> n" "n \<le> 46340" "0 \<le> row" "0 \<le> col" "row + y < n" "col + m \<le> n"
    "int (length picture) = n * n" "int (length object) = m * m"
    using assms by (auto simp: window_ok_def matrix_ok_def MSEARCH_MAX_SIDE_def)
  have ry: "0 \<le> (row + y) * n" "0 \<le> y * m" using b assms by auto
  have "(row + y + 1) * n \<le> n * n" using b by (intro mult_right_mono) auto
  then have ryn: "(row + y) * n + n \<le> n * n" by (simp add: algebra_simps)
  have "(y + 1) * m \<le> m * m" using b assms by (intro mult_right_mono) auto
  then have ym: "y * m + m \<le> m * m" by (simp add: algebra_simps)
  have nn: "n * n \<le> 46340 * 46340" and mm: "m * m \<le> 46340 * 46340"
    using b by (intro mult_mono; auto)+
  show "int32 (row + y)" using b assms by (simp add: int_ranges)
  show "size_t (size_t (size_t (row + y) * size_t n) + size_t col) = (row + y) * n + col"
    using b assms ry ryn nn by simp
  show "size_t (size_t y * size_t m) = y * m" using b assms ry ym mm by simp
  show "0 \<le> (row + y) * n + col" using ry b by simp
  show "(row + y) * n + col + m \<le> int (length picture)" using b ryn by simp
  show "0 \<le> y * m" by (rule ry)
  show "y * m + m \<le> int (length object)" using b ym by simp
qed

lemma window_terms_nonneg:
  assumes "window_ok picture n object m row col" "eps_ok eps" "0 \<le> y" "t \<in> set (terms_from picture n object m row col eps y)"
  shows "nonneg t"
proof -
  from assms(4) obtain y' x where yx: "y \<le> y'" "y' < m" "0 \<le> x" "x < m"
    and t: "t = msearch_term (picture ! nat ((row + y') * n + col + x)) (object ! nat (y' * m + x)) eps"
    by (auto simp: terms_from_def row_terms_def)
  have i32: "list_all int32 picture" "list_all int32 object"
    using assms(1) by (auto simp: window_ok_def matrix_ok_def)
  note w = window_rows [OF assms(1), of y']
  have "nat ((row + y') * n + col + x) < length picture" "nat (y' * m + x) < length object"
    using w yx assms(3) by linarith+
  with i32 t assms(2) show ?thesis by (auto simp: list_all_length intro: term_nonneg)
qed

text \<open>The early exit decides as the full sum does, and loses nothing when it is not taken.\<close>

lemma score_from_spec:
  assumes w: "window_ok picture n object m row col" and eps: "eps_ok eps" and thr: "thr \<noteq> NaN"
  shows "0 \<le> y \<Longrightarrow> nonneg s \<Longrightarrow> \<exists>r. score_from picture n object m row col thr eps y s = Some r \<and> nonneg r \<and>
    (let full = foldl dadd s (terms_from picture n object m row col eps y)
     in dle r full \<and> (dle thr r \<or> r = full))"
proof (induction "nat (m - y)" arbitrary: y s)
  case 0
  then show ?case by (subst score_from.simps) (auto simp: Let_def)
next
  case (Suc k)
  then have y: "y < m" by simp
  note wr = window_rows [OF w Suc.prems(1) y]
  define s' where "s' = foldl dadd s (row_terms picture ((row + y) * n + col) object (y * m) m 0 eps)"
  have row: "score_row picture ((row + y) * n + col) object (y * m) m 0 eps s = Some s'"
    using wr by (subst score_row_eq) (auto simp: s'_def)
  have nn: "\<forall>t \<in> set (terms_from picture n object m row col eps y). nonneg t"
    using window_terms_nonneg [OF w eps Suc.prems(1)] by blast
  then have s': "nonneg s'"
    unfolding s'_def by (intro foldl_dadd_nonneg [THEN conjunct1] Suc.prems)
      (auto simp: terms_from_Cons [OF y])
  have full: "foldl dadd s (terms_from picture n object m row col eps y) =
      foldl dadd s' (terms_from picture n object m row col eps (y + 1))"
    by (simp add: terms_from_Cons [OF y] s'_def)
  have step: "score_from picture n object m row col thr eps y s =
      (if dle thr s' then Some s' else score_from picture n object m row col thr eps (y + 1) s')"
  proof -
    have "(row + y) * n + col \<le> int (length picture)" "y * m \<le> int (length object)"
      using wr(5,7) Suc.prems(1) y by linarith+
    with wr have "ptr_add picture ((row + y) * n + col) = Some ((row + y) * n + col)"
      "ptr_add object (y * m) = Some (y * m)"
      by simp_all
    with y wr show ?thesis by (subst score_from.simps) (simp add: row)
  qed
  show ?case
  proof (cases "dle thr s'")
    case True
    have "dle s' (foldl dadd s' (terms_from picture n object m row col eps (y + 1)))"
      using foldl_dadd_nonneg [OF s'] nn by (auto simp: terms_from_Cons [OF y])
    with True s' show ?thesis by (simp add: step full Let_def)
  next
    case False
    with Suc.hyps(1) [of "y + 1" s'] Suc.hyps(2) Suc.prems s' show ?thesis
      by (simp add: step full)
  qed
qed

lemma msearch_score_at_spec:
  assumes "window_ok picture n object m row col" "eps_ok eps" "thr \<noteq> NaN"
  obtains r where "msearch_score_at picture n object m row col thr eps = Some r"
    and "dle r (full_score picture n object m row col eps)"
    and "dlt r thr \<longleftrightarrow> dlt (full_score picture n object m row col eps) thr"
    and "dlt r thr \<Longrightarrow> r = full_score picture n object m row col eps"
proof -
  let ?full = "full_score picture n object m row col eps"
  obtain r where r: "msearch_score_at picture n object m row col thr eps = Some r" "nonneg r"
    "dle r ?full" "dle thr r \<or> r = ?full"
    using score_from_spec [OF assms, of 0 dzero]
    by (auto simp: msearch_score_at_def full_score_def Let_def)
  have "r \<noteq> NaN" using r(2) by auto
  moreover have "?full \<noteq> NaN" using r(3) by (cases r) auto
  ultimately have "dlt r thr \<longleftrightarrow> dlt ?full thr"
    using r(3,4) dlt_not_dle [of r thr] dlt_not_dle [of ?full thr] assms(3) dle_trans [of thr r ?full] by auto
  moreover have "dlt r thr \<Longrightarrow> r = ?full"
    using r(4) dlt_not_dle [OF \<open>r \<noteq> NaN\<close> assms(3)] by auto
  ultimately show thesis using that r by blast
qed

section \<open>Properties\<close>

text \<open>C13: On every placement inside a loaded picture the score is defined (no load outside a matrix,
  no overflow), it is below the threshold exactly when the sum of all terms is, and then it is that
  sum; an early exit returns a lower bound of it.\<close>

theorem score_at_early_exit_sound:
  assumes "window_ok picture n object m row col" "eps_ok eps" "thr \<noteq> NaN"
  shows "\<exists>r. msearch_score_at picture n object m row col thr eps = Some r \<and>
    dle r (full_score picture n object m row col eps) \<and>
    dlt r thr = dlt (full_score picture n object m row col eps) thr \<and>
    (dlt r thr \<longrightarrow> r = full_score picture n object m row col eps)"
  using msearch_score_at_spec [OF assms] by blast

definition sample_picture :: "cint list" where
  "sample_picture = [1, 2, 3, 4, 5, 6, 7, 8, 9, 10, 11, 12, 13, 14, 15, 16]"

definition sample_object :: "cint list" where
  "sample_object = [6, 7, 10, 11]"

theorem score_at_early_exit_sound_witness:
  "window_ok sample_picture 4 sample_object 2 0 0 \<and>
   (\<exists>r. msearch_score_at sample_picture 4 sample_object 2 0 0 (dof_int 1) MSEARCH_DEFAULT_ZERO_EPS = Some r
      \<and> \<not> dlt r (dof_int 1)
      \<and> dle r (full_score sample_picture 4 sample_object 2 0 0 MSEARCH_DEFAULT_ZERO_EPS))"
proof -
  have w: "window_ok sample_picture 4 sample_object 2 0 0" by code_simp
  have "dof_int 1 \<noteq> NaN" by code_simp
  from score_at_early_exit_sound [OF w eps_ok_default this]
  obtain r where r: "msearch_score_at sample_picture 4 sample_object 2 0 0 (dof_int 1) MSEARCH_DEFAULT_ZERO_EPS = Some r"
    "dle r (full_score sample_picture 4 sample_object 2 0 0 MSEARCH_DEFAULT_ZERO_EPS)"
    "dlt r (dof_int 1) = dlt (full_score sample_picture 4 sample_object 2 0 0 MSEARCH_DEFAULT_ZERO_EPS) (dof_int 1)"
    by blast
  have "msearch_score_at sample_picture 4 sample_object 2 0 0 (dof_int 1) MSEARCH_DEFAULT_ZERO_EPS =
      Some (Fin False 8444249301319680 (- 50))"
    by code_simp
  with r(1) have "r = Fin False 8444249301319680 (- 50)" by simp
  moreover have "\<not> dlt (Fin False 8444249301319680 (- 50)) (dof_int 1)" by code_simp
  ultimately show ?thesis using w r by blast
qed

text \<open>C17: For distinct non-zero picture element \<open>p\<close> and object element \<open>q\<close>, the computed term is the
  real number \<open>|(p - q) / p|\<close> of the problem statement up to one rounding: a relative error of at
  most \<open>2^-53\<close>.\<close>

theorem term_relative_error:
  assumes "int32 p" "int32 q" "p \<noteq> 0" "p \<noteq> q"
  shows "\<exists>m e. msearch_term p q eps = Fin False m e \<and>
    \<bar>pval m e - \<bar>real_of_int (p - q) / real_of_int p\<bar>\<bar> \<le> \<bar>real_of_int (p - q) / real_of_int p\<bar> * 2 powi (- 53)"
proof -
  define x where "x = \<bar>real_of_int (p - q) / real_of_int p\<bar>"
  obtain m e n f where t: "msearch_term p q eps = round_ratio False m n (e - f)" "0 \<le> m" "0 < n"
    "pval m e = real_of_int \<bar>p - q\<bar>" "pval n f = real_of_int \<bar>p\<bar>"
    using term_ratio [OF assms(1,2), of eps 0 0] assms(3) by auto
  have "m \<noteq> 0" using t(4) assms(4) by (auto simp: pval_def)
  with t have m: "0 < m" by simp
  have x: "x = real_of_int m / real_of_int n * 2 powi (e - f)"
    unfolding ratio_powi t(4,5) x_def by (simp add: abs_divide)
  have p: "1 \<le> \<bar>p\<bar>" "\<bar>p\<bar> \<le> 2 ^ 31" and d: "1 \<le> \<bar>p - q\<bar>" "\<bar>p - q\<bar> \<le> 2 ^ 32"
    using assms by (auto simp: int_ranges)
  then have p': "1 \<le> \<bar>real_of_int p\<bar>" "\<bar>real_of_int p\<bar> \<le> 2 powi 31"
    and d': "1 \<le> \<bar>real_of_int (p - q)\<bar>" "\<bar>real_of_int (p - q)\<bar> \<le> 2 powi 32"
    by (simp_all flip: of_int_abs of_int_diff add: of_int_le_numeral_iff)
  have "(2::real) powi (- 1022) \<le> 2 powi (- 31)" by (simp only: powi_mono_iff)
  also have "\<dots> = 1 / 2 powi 31" by (simp add: power_int_minus field_simps)
  also have "\<dots> \<le> x" unfolding x_def abs_divide using p' d' by (intro frac_le) auto
  finally have lo: "2 powi (- 1022) \<le> x" .
  have "x \<le> 2 powi 32 / 1" unfolding x_def abs_divide using p' d' by (intro frac_le) auto
  also have "\<dots> \<le> 2 powi 1023" by (simp only: div_by_1 powi_mono_iff)
  finally have hi: "x \<le> 2 powi 1023" .
  from round_ratio_error [OF m t(3) x lo hi, of False] t(1) show ?thesis
    unfolding x_def by auto
qed

theorem term_relative_error_witness:
  "\<exists>m e. msearch_term 6 11 MSEARCH_DEFAULT_ZERO_EPS = Fin False m e \<and>
    \<bar>pval m e - \<bar>real_of_int (6 - 11) / real_of_int 6\<bar>\<bar> \<le> \<bar>real_of_int (6 - 11) / real_of_int 6\<bar> * 2 powi (- 53)"
  by (rule term_relative_error) (simp_all add: int_ranges)

text \<open>C18: The metric is total at a zero picture element: equal elements cost exactly zero whatever
  they are, zero included, and with the default \<open>zero_eps\<close> a non-zero object element over a zero
  costs at least 999999999.\<close>

theorem term_zero_policy:
  assumes "int32 q" "eps_ok eps"
  shows "msearch_term q q eps = dzero \<and>
    (q \<noteq> 0 \<longrightarrow> dle (dof_int 999999999) (msearch_term 0 q MSEARCH_DEFAULT_ZERO_EPS))"
proof (intro conjI impI)
  show "msearch_term q q eps = dzero" by (rule term_same [OF assms])
next
  assume "q \<noteq> 0"
  have eps: "MSEARCH_DEFAULT_ZERO_EPS = Fin False 4835703278458517 (- 82)" by code_simp
  have big: "dof_int 999999999 = Fin False 8388607991611392 (- 23)" by code_simp
  obtain m e n f where t: "msearch_term 0 q MSEARCH_DEFAULT_ZERO_EPS = round_ratio False m n (e - f)"
    "0 \<le> m" "0 < n" "pval m e = real_of_int \<bar>q\<bar>" "pval n f = pval 4835703278458517 (- 82)"
    using term_ratio [of 0 q MSEARCH_DEFAULT_ZERO_EPS 4835703278458517 "- 82"] assms(1) eps
    by (auto simp: int_ranges)
  have "m \<noteq> 0" using t(4) \<open>q \<noteq> 0\<close> by (auto simp: pval_def)
  with t have m: "0 < m" by simp
  have q1: "1 \<le> real_of_int \<bar>q\<bar>" using \<open>q \<noteq> 0\<close> by simp
  show "dle (dof_int 999999999) (msearch_term 0 q MSEARCH_DEFAULT_ZERO_EPS)"
    unfolding t(1) big
  proof (rule round_ratio_ge [OF _ m t(3)])
    show "canonical 8388607991611392 (- 23)" by code_simp
    have "pval 8388607991611392 (- 23) * pval 4835703278458517 (- 82) \<le> 1"
      by (simp add: pval_def power_int_minus)
    also note q1
    finally show "pval 8388607991611392 (- 23) \<le> real_of_int m / real_of_int n * 2 powi (e - f)"
      unfolding ratio_powi t(4,5)
      by (subst pos_le_divide_eq) (auto simp: pval_def)
  qed
qed

theorem term_zero_policy_witness:
  "msearch_term 7 7 MSEARCH_DEFAULT_ZERO_EPS = dzero \<and>
   dle (dof_int 999999999) (msearch_term 0 7 MSEARCH_DEFAULT_ZERO_EPS)"
  using term_zero_policy [of 7 MSEARCH_DEFAULT_ZERO_EPS] by (simp add: int_ranges)

end
