(* ===== verification/Backend.thy ===== *)
theory Backend
  imports Metric
begin

text \<open>
  The backend interface of \<open>include/msearch/backend.h\<close>: the table of functions every backend fills
  in, and the determinism contract its \<open>search\<close> must honour, stated twice: as the function
  \<open>canonical_match\<close> and as the relation \<open>contract\<close> in the words of the header. The locale
  \<open>match_backend\<close> is the contract as the runtimes rely on it.

  A \<open>void *ctx\<close> is a value of \<open>backend_ctx\<close>, one constructor per backend; handing a backend the
  context of another is undefined. What the hardware and the OpenMP runtime leave open is in two
  places: \<open>platform\<close> is what a process can query, and a \<open>world\<close> resolves the choices of one call
  of \<open>search\<close>: for each object, the number of threads the team really gets and the interleaving of
  the atomic actions of its threads, on the host or on the device; for a device, what its buffers hold
  before the call and which runtime calls fail, with the text of the error.
\<close>

section \<open>The table of functions\<close>

record platform =
  omp_num_threads_set :: bool
  omp_max_threads :: cint

record world =
  w_team :: "cint \<Rightarrow> nat"
  w_sched :: "cint \<Rightarrow> nat \<Rightarrow> nat"
  w_stale :: "string \<Rightarrow> nat \<Rightarrow> cint"
  w_cuda :: "string \<Rightarrow> cint \<Rightarrow> string option"

text \<open>
  \<open>struct CudaContext\<close>. A buffer whose contents every search rewrites is represented by its size in
  elements (\<open>None\<close> is the null pointer); the packed objects, written once, by their contents.
\<close>

record CudaContext =
  cu_problem :: Problem
  cu_zero_eps :: dbl
  cu_device :: cint
  cu_sm_count :: cint
  cu_stream :: bool
  cu_d_objects :: "cint list option"
  cu_obj_offset :: "int list option"
  cu_d_picture :: "nat option"
  cu_d_results :: "nat option"
  cu_h_results :: "nat option"
  cu_h_picture :: "nat option"
  cu_picture_capacity :: int

datatype backend_ctx = SerialCtx Problem dbl | OpenMpCtx Problem dbl cint | CudaCtx CudaContext

record MatchBackend =
  b_name :: string
  b_description :: string
  b_available :: "platform \<Rightarrow> errbuf \<Rightarrow> bool \<times> errbuf"
  b_create :: "platform \<Rightarrow> env \<Rightarrow> Problem \<Rightarrow> Config \<Rightarrow> errbuf \<Rightarrow> heap \<Rightarrow>
    Status \<times> backend_ctx option \<times> errbuf \<times> log_event list \<times> heap"
  b_search :: "backend_ctx \<Rightarrow> world \<Rightarrow> Picture \<Rightarrow> errbuf \<Rightarrow> (Status \<times> Match \<times> errbuf) option"
  b_destroy :: "backend_ctx option \<Rightarrow> heap \<Rightarrow> heap"

section \<open>The determinism contract\<close>

definition span_of :: "Picture \<Rightarrow> Object \<Rightarrow> int" where
  "span_of pic obj = p_n pic - o_m obj + 1"

text \<open>The object matches with its corner at \<open>(row, col)\<close>: the sum of all terms is below the threshold.\<close>

definition matches_at :: "dbl \<Rightarrow> dbl \<Rightarrow> Picture \<Rightarrow> Object \<Rightarrow> cint \<Rightarrow> cint \<Rightarrow> bool" where
  "matches_at thr eps pic obj row col \<longleftrightarrow>
     dlt (full_score (the (p_data pic)) (p_n pic) (the (o_data obj)) (o_m obj) row col eps) thr"

definition occurs :: "dbl \<Rightarrow> dbl \<Rightarrow> Picture \<Rightarrow> Object \<Rightarrow> cint \<Rightarrow> cint \<Rightarrow> bool" where
  "occurs thr eps pic obj row col \<longleftrightarrow>
     0 \<le> row \<and> 0 \<le> col \<and> row + o_m obj \<le> p_n pic \<and> col + o_m obj \<le> p_n pic \<and>
     matches_at thr eps pic obj row col"

text \<open>A packed placement key \<open>row * span + col\<close> that matches.\<close>

definition hit :: "dbl \<Rightarrow> dbl \<Rightarrow> Picture \<Rightarrow> Object \<Rightarrow> int \<Rightarrow> bool" where
  "hit thr eps pic obj key =
     matches_at thr eps pic obj (key div span_of pic obj) (key mod span_of pic obj)"

definition first_hit :: "dbl \<Rightarrow> dbl \<Rightarrow> Picture \<Rightarrow> Object \<Rightarrow> int option" where
  "first_hit thr eps pic obj =
     (if span_of pic obj \<le> 0 then None
      else find (hit thr eps pic obj) [0..span_of pic obj * span_of pic obj - 1])"

definition found_at :: "Picture \<Rightarrow> Object \<Rightarrow> int \<Rightarrow> Match" where
  "found_at pic obj key =
     \<lparr>m_picture_id = p_id pic, m_object_id = o_id obj,
      m_row = key div span_of pic obj, m_col = key mod span_of pic obj\<rparr>"

fun canonical_among :: "dbl \<Rightarrow> dbl \<Rightarrow> Picture \<Rightarrow> Object list \<Rightarrow> Match" where
  "canonical_among thr eps pic [] = msearch_match_none (p_id pic)"
| "canonical_among thr eps pic (obj # objs) =
     (case first_hit thr eps pic obj of
        Some key \<Rightarrow> found_at pic obj key
      | None \<Rightarrow> canonical_among thr eps pic objs)"

definition canonical_match :: "Problem \<Rightarrow> dbl \<Rightarrow> Picture \<Rightarrow> Match" where
  "canonical_match p eps pic = canonical_among (threshold p) eps pic (objects p)"

text \<open>
  The contract in the header's words: the object of lowest id that occurs anywhere in the picture,
  at its row-major-first placement; no match when none occurs.
\<close>

definition contract :: "Problem \<Rightarrow> dbl \<Rightarrow> Picture \<Rightarrow> Match \<Rightarrow> bool" where
  "contract p eps pic mt \<longleftrightarrow>
     (let occ = occurs (threshold p) eps pic in
      if \<exists>obj \<in> set (objects p). \<exists>row col. occ obj row col
      then m_picture_id mt = p_id pic \<and>
        (\<exists>obj \<in> set (objects p). m_object_id mt = o_id obj \<and> occ obj (m_row mt) (m_col mt) \<and>
           (\<forall>obj' \<in> set (objects p). (\<exists>row col. occ obj' row col) \<longrightarrow> o_id obj \<le> o_id obj') \<and>
           (\<forall>row col. occ obj row col \<longrightarrow> m_row mt < row \<or> m_row mt = row \<and> m_col mt \<le> col))
      else mt = msearch_match_none (p_id pic))"

section \<open>Keys and placements\<close>

lemma first_hit_SomeD:
  assumes "first_hit thr eps pic obj = Some key"
  shows "0 < span_of pic obj" and "0 \<le> key" and "key < span_of pic obj * span_of pic obj"
    and "hit thr eps pic obj key"
    and "\<And>k. 0 \<le> k \<Longrightarrow> k < key \<Longrightarrow> \<not> hit thr eps pic obj k"
proof -
  let ?n = "span_of pic obj * span_of pic obj"
  from assms have f: "find (hit thr eps pic obj) [0..?n - 1] = Some key" and s: "0 < span_of pic obj"
    by (auto simp: first_hit_def split: if_splits)
  show "0 < span_of pic obj" by (rule s)
  from f obtain i where i: "i < length [0..?n - 1]" "hit thr eps pic obj ([0..?n - 1] ! i)"
    "key = [0..?n - 1] ! i" "\<forall>j<i. \<not> hit thr eps pic obj ([0..?n - 1] ! j)"
    by (auto simp: find_Some_iff)
  then have k: "key = int i" "i < nat ?n" by (auto simp: nth_upto)
  then show "0 \<le> key" "key < ?n" by auto
  show "hit thr eps pic obj key" using i by simp
  fix k :: int assume "0 \<le> k" "k < key"
  then have "nat k < i" "k \<le> ?n - 1" using k by auto
  with i(4) have "\<not> hit thr eps pic obj ([0..?n - 1] ! nat k)" by blast
  with \<open>0 \<le> k\<close> \<open>k \<le> ?n - 1\<close> show "\<not> hit thr eps pic obj k" by (simp add: nth_upto)
qed

lemma first_hit_NoneD:
  "first_hit thr eps pic obj = None \<Longrightarrow> 0 \<le> k \<Longrightarrow> k < span_of pic obj * span_of pic obj \<Longrightarrow>
    0 < span_of pic obj \<Longrightarrow> \<not> hit thr eps pic obj k"
  by (auto simp: first_hit_def find_None_iff split: if_splits)

lemma first_hit_eqI:
  assumes "0 < span_of pic obj" "0 \<le> key" "key < span_of pic obj * span_of pic obj"
    and "hit thr eps pic obj key" and "\<And>k. 0 \<le> k \<Longrightarrow> k < key \<Longrightarrow> \<not> hit thr eps pic obj k"
  shows "first_hit thr eps pic obj = Some key"
proof (cases "first_hit thr eps pic obj")
  case None
  with first_hit_NoneD assms show ?thesis by blast
next
  case (Some k)
  with first_hit_SomeD [OF Some] assms show ?thesis by (metis linorder_neqE)
qed

lemma key_in_range:
  assumes "0 < s" "0 \<le> k" "k < s * (s::int)"
  shows "0 \<le> k div s" "k div s < s" "0 \<le> k mod s" "k mod s < s"
proof -
  have "(k div s) * s \<le> k" using assms(1) by (simp add: minus_mod_eq_div_mult [symmetric])
  with assms have "(k div s) * s < s * s" by linarith
  with assms(1) show "k div s < s" by simp
qed (use assms in \<open>auto simp: pos_imp_zdiv_nonneg_iff\<close>)

lemma key_of_placement:
  assumes "0 \<le> row" "row < s" "0 \<le> col" "col < (s::int)"
  shows "0 \<le> row * s + col" "row * s + col < s * s"
    "(row * s + col) div s = row" "(row * s + col) mod s = col"
proof -
  have "(row + 1) * s \<le> s * s" using assms by (intro mult_right_mono) auto
  with assms show "row * s + col < s * s" by (simp add: algebra_simps)
qed (use assms in auto)

lemma occurs_hit:
  assumes "occurs thr eps pic obj row col" "0 < o_m obj"
  shows "0 < span_of pic obj" "0 \<le> row * span_of pic obj + col"
    "row * span_of pic obj + col < span_of pic obj * span_of pic obj"
    "hit thr eps pic obj (row * span_of pic obj + col)"
proof -
  from assms have b: "0 \<le> row" "row < span_of pic obj" "0 \<le> col" "col < span_of pic obj"
    by (auto simp: occurs_def span_of_def)
  note k = key_of_placement [OF b]
  show "0 < span_of pic obj" using b by simp
  show "0 \<le> row * span_of pic obj + col" by (rule k)
  show "row * span_of pic obj + col < span_of pic obj * span_of pic obj" by (rule k)
  show "hit thr eps pic obj (row * span_of pic obj + col)"
    unfolding hit_def k(3,4) using assms(1) by (simp add: occurs_def)
qed

lemma hit_occurs:
  assumes "0 < span_of pic obj" "0 \<le> k" "k < span_of pic obj * span_of pic obj" "hit thr eps pic obj k"
  shows "occurs thr eps pic obj (k div span_of pic obj) (k mod span_of pic obj)"
  using key_in_range [OF assms(1-3)] assms(4) unfolding occurs_def hit_def
  by (auto simp: span_of_def)

lemma first_hit_occurs_iff:
  assumes "0 < o_m obj"
  shows "first_hit thr eps pic obj = None \<longleftrightarrow> (\<forall>row col. \<not> occurs thr eps pic obj row col)"
proof
  assume none: "first_hit thr eps pic obj = None"
  show "\<forall>row col. \<not> occurs thr eps pic obj row col"
  proof (intro allI notI)
    fix row col assume "occurs thr eps pic obj row col"
    from occurs_hit [OF this assms] show False using first_hit_NoneD [OF none] by blast
  qed
next
  assume no: "\<forall>row col. \<not> occurs thr eps pic obj row col"
  show "first_hit thr eps pic obj = None"
  proof (cases "first_hit thr eps pic obj")
    case (Some k)
    from hit_occurs [OF first_hit_SomeD(1-4) [OF Some]] no show ?thesis by blast
  qed
qed

lemma canonical_among_cases:
  obtains "\<forall>obj \<in> set objs. first_hit thr eps pic obj = None"
      "canonical_among thr eps pic objs = msearch_match_none (p_id pic)"
  | pre obj post key where "objs = pre @ obj # post" "first_hit thr eps pic obj = Some key"
      "\<forall>obj \<in> set pre. first_hit thr eps pic obj = None"
      "canonical_among thr eps pic objs = found_at pic obj key"
proof (induction objs arbitrary: thesis)
  case Nil
  then show ?case by simp
next
  case (Cons a objs)
  show ?case
  proof (cases "first_hit thr eps pic a")
    case None
    show ?thesis
    proof (rule Cons.IH)
      assume "\<forall>obj \<in> set objs. first_hit thr eps pic obj = None"
        "canonical_among thr eps pic objs = msearch_match_none (p_id pic)"
      with None show thesis by (intro Cons.prems(1)) auto
    next
      fix pre obj post key
      assume "objs = pre @ obj # post" "first_hit thr eps pic obj = Some key"
        "\<forall>obj \<in> set pre. first_hit thr eps pic obj = None"
        "canonical_among thr eps pic objs = found_at pic obj key"
      with None show thesis by (intro Cons.prems(2) [of "a # pre" obj post key]) auto
    qed
  next
    case (Some key)
    then show ?thesis by (intro Cons.prems(2) [of "[]" a objs key]) auto
  qed
qed

lemma found_at_contract:
  assumes f: "first_hit thr eps pic obj = Some key" and m: "0 < o_m obj"
  shows "occurs thr eps pic obj (m_row (found_at pic obj key)) (m_col (found_at pic obj key))"
    and "occurs thr eps pic obj row col \<Longrightarrow> m_row (found_at pic obj key) < row \<or>
      m_row (found_at pic obj key) = row \<and> m_col (found_at pic obj key) \<le> col"
proof -
  let ?s = "span_of pic obj"
  note k = first_hit_SomeD [OF f]
  show "occurs thr eps pic obj (m_row (found_at pic obj key)) (m_col (found_at pic obj key))"
    using hit_occurs [OF k(1-4)] by (simp add: found_at_def)
  assume occ: "occurs thr eps pic obj row col"
  note h = occurs_hit [OF occ m]
  then have "key \<le> row * ?s + col" using k(5) [of "row * ?s + col"] by force
  then have "key div ?s \<le> (row * ?s + col) div ?s" using k(1) by (rule zdiv_mono1)
  moreover have c: "0 \<le> col" "col < ?s" using occ m by (auto simp: occurs_def span_of_def)
  ultimately have le: "key div ?s \<le> row" by simp
  have "key mod ?s \<le> col" if "key div ?s = row"
  proof -
    have "key = row * ?s + key mod ?s" using that by (metis div_mult_mod_eq)
    with \<open>key \<le> row * ?s + col\<close> show ?thesis by linarith
  qed
  with le show "m_row (found_at pic obj key) < row \<or>
      m_row (found_at pic obj key) = row \<and> m_col (found_at pic obj key) \<le> col"
    by (auto simp: found_at_def)
qed

lemma canonical_match_contract:
  assumes "sorted (map o_id (objects p))" "\<forall>obj \<in> set (objects p). 0 < o_m obj"
  shows "contract p eps pic (canonical_match p eps pic)"
proof (rule canonical_among_cases [of "objects p" "threshold p" eps pic])
  assume none: "\<forall>obj \<in> set (objects p). first_hit (threshold p) eps pic obj = None"
    and eq: "canonical_among (threshold p) eps pic (objects p) = msearch_match_none (p_id pic)"
  from none assms(2) have "\<not> (\<exists>obj \<in> set (objects p). \<exists>row col. occurs (threshold p) eps pic obj row col)"
    using first_hit_occurs_iff by blast
  with eq show ?thesis by (simp add: contract_def canonical_match_def Let_def)
next
  fix pre obj post key
  assume os: "objects p = pre @ obj # post" and f: "first_hit (threshold p) eps pic obj = Some key"
    and pre: "\<forall>obj \<in> set pre. first_hit (threshold p) eps pic obj = None"
    and eq: "canonical_among (threshold p) eps pic (objects p) = found_at pic obj key"
  let ?occ = "occurs (threshold p) eps pic"
  have m: "0 < o_m obj" using os assms(2) by simp
  note fc = found_at_contract [OF f m]
  have low: "o_id obj \<le> o_id obj'" if "obj' \<in> set (objects p)" "?occ obj' row col" for obj' row col
  proof -
    have "obj' \<notin> set pre"
      using that pre assms(2) first_hit_occurs_iff [of obj' "threshold p" eps pic] by (auto simp: os)
    with that(1) have "obj' = obj \<or> obj' \<in> set post" by (auto simp: os)
    with assms(1) show ?thesis by (auto simp: os sorted_append)
  qed
  have ex: "\<exists>obj \<in> set (objects p). \<exists>row col. ?occ obj row col" using fc(1) os by auto
  let ?mt = "found_at pic obj key"
  have "\<exists>x \<in> set (objects p). m_object_id ?mt = o_id x \<and> ?occ x (m_row ?mt) (m_col ?mt) \<and>
      (\<forall>obj' \<in> set (objects p). (\<exists>row col. ?occ obj' row col) \<longrightarrow> o_id x \<le> o_id obj') \<and>
      (\<forall>row col. ?occ x row col \<longrightarrow> m_row ?mt < row \<or> m_row ?mt = row \<and> m_col ?mt \<le> col)"
    by (rule bexI [of _ obj]) (use fc low os in \<open>auto simp: found_at_def\<close>)
  with ex show ?thesis
    unfolding contract_def canonical_match_def eq Let_def by (simp add: found_at_def)
qed

text \<open>The contract leaves no freedom when ids are distinct.\<close>

lemma contract_unique:
  assumes "contract p eps pic a" "contract p eps pic b" "distinct (map o_id (objects p))"
  shows "a = b"
proof (cases "\<exists>obj \<in> set (objects p). \<exists>row col. occurs (threshold p) eps pic obj row col")
  case False
  with assms show ?thesis by (simp add: contract_def Let_def)
next
  case True
  let ?occ = "occurs (threshold p) eps pic"
  from True assms(1) obtain x where x: "x \<in> set (objects p)" "m_object_id a = o_id x" "?occ x (m_row a) (m_col a)"
    "\<forall>obj' \<in> set (objects p). (\<exists>row col. ?occ obj' row col) \<longrightarrow> o_id x \<le> o_id obj'"
    "\<forall>row col. ?occ x row col \<longrightarrow> m_row a < row \<or> m_row a = row \<and> m_col a \<le> col" "m_picture_id a = p_id pic"
    by (auto simp: contract_def Let_def)
  from True assms(2) obtain y where y: "y \<in> set (objects p)" "m_object_id b = o_id y" "?occ y (m_row b) (m_col b)"
    "\<forall>obj' \<in> set (objects p). (\<exists>row col. ?occ obj' row col) \<longrightarrow> o_id y \<le> o_id obj'"
    "\<forall>row col. ?occ y row col \<longrightarrow> m_row b < row \<or> m_row b = row \<and> m_col b \<le> col" "m_picture_id b = p_id pic"
    by (auto simp: contract_def Let_def)
  have "o_id x = o_id y" using x y by (intro order_antisym) blast+
  with x(1) y(1) assms(3) have "x = y" by (auto simp: distinct_map dest: inj_onD)
  with x y have "m_row a = m_row b \<and> m_col a = m_col b" by fastforce
  with x y \<open>x = y\<close> show ?thesis by simp
qed

section \<open>What every backend relies on\<close>

lemma problem_okD:
  assumes "problem_ok p"
  shows "num_pictures p = int (length (pictures p))" "num_objects p = int (length (objects p))"
    "threshold p \<noteq> NaN" "list_all picture_ok (pictures p)" "list_all object_ok (objects p)"
    "sorted (map o_id (objects p))" "\<forall>obj \<in> set (objects p). 0 < o_m obj"
  using assms
  by (auto simp: problem_ok_def arrays_ok_def list_all_iff object_ok_def matrix_ok_def dzero_def)

lemma problem_ok_picture: "problem_ok p \<Longrightarrow> pic \<in> set (pictures p) \<Longrightarrow> picture_ok pic"
  by (simp add: problem_ok_def list_all_iff)

lemma problem_ok_object: "problem_ok p \<Longrightarrow> obj \<in> set (objects p) \<Longrightarrow> object_ok obj"
  by (simp add: problem_ok_def list_all_iff)

text \<open>Every placement key of a loaded object in a loaded picture names a placement inside it.\<close>

lemma window_of_key:
  assumes "picture_ok pic" "object_ok obj" "p_data pic = Some pd" "o_data obj = Some od"
    and "0 < span_of pic obj" "0 \<le> key" "key < span_of pic obj * span_of pic obj"
  shows "window_ok pd (p_n pic) od (o_m obj) (key div span_of pic obj) (key mod span_of pic obj)"
  using key_in_range [OF assms(5-7)] assms(1-4)
  unfolding window_ok_def picture_ok_def object_ok_def by (auto simp: span_of_def)

lemma loaded_data:
  assumes "picture_ok pic" "object_ok obj"
  obtains pd od where "p_data pic = Some pd" "o_data obj = Some od"
  using assms by (auto simp: picture_ok_def object_ok_def elim!: matrix_okE)

lemma loaded_sizes:
  assumes "picture_ok pic" "object_ok obj"
  shows "int32 (p_n pic)" "int32 (o_m obj)" "0 < o_m obj" "int32 (p_n pic - o_m obj)"
    "int32 (p_n pic - o_m obj + 1)" "span_of pic obj \<le> 46340"
    "msearch_placement_count (p_n pic) (o_m obj) =
      Some (if o_m obj \<le> p_n pic then span_of pic obj * span_of pic obj else 0)"
proof -
  have b: "0 < p_n pic" "p_n pic \<le> 46340" "0 < o_m obj" "o_m obj \<le> 46340"
    using assms by (auto simp: picture_ok_def object_ok_def matrix_ok_def MSEARCH_MAX_SIDE_def)
  then show "int32 (p_n pic)" "int32 (o_m obj)" "0 < o_m obj" "int32 (p_n pic - o_m obj)"
    "int32 (p_n pic - o_m obj + 1)" "span_of pic obj \<le> 46340"
    by (auto simp: int_ranges span_of_def)
  then show "msearch_placement_count (p_n pic) (o_m obj) =
      Some (if o_m obj \<le> p_n pic then span_of pic obj * span_of pic obj else 0)"
    by (subst placement_count_fits) (auto simp: span_of_def)
qed

lemma placements_fit:
  assumes "picture_ok pic" "object_ok obj" "0 < span_of pic obj"
  shows "span_of pic obj * span_of pic obj \<le> 2147395600"
proof -
  have "span_of pic obj * span_of pic obj \<le> 46340 * 46340"
    using loaded_sizes(6) [OF assms(1,2)] assms(3) by (intro mult_mono) auto
  then show ?thesis by simp
qed

text \<open>The comparison both CPU backends make at a key is the specification's \<open>hit\<close>.\<close>

lemma score_at_hit:
  assumes "picture_ok pic" "object_ok obj" "p_data pic = Some pd" "o_data obj = Some od"
    and "eps_ok eps" "thr \<noteq> NaN"
    and "0 < span_of pic obj" "0 \<le> key" "key < span_of pic obj * span_of pic obj"
  shows "\<exists>r. msearch_score_at pd (p_n pic) od (o_m obj) (key div span_of pic obj) (key mod span_of pic obj) thr eps
      = Some r \<and> dlt r thr = hit thr eps pic obj key"
proof -
  note w = window_of_key [OF assms(1-4,7-9)]
  show ?thesis
    by (rule msearch_score_at_spec [OF w assms(5,6)])
      (use assms in \<open>simp add: hit_def matches_at_def\<close>)
qed

section \<open>The interface\<close>

text \<open>
  What a runtime needs of a backend: \<open>create\<close> succeeds exactly when it hands out a context, a
  context it hands out answers every search on a picture of its problem without undefined behaviour and, on
  success, with the canonical match, and \<open>destroy\<close> gives back what \<open>create\<close> took.
\<close>

locale match_backend =
  fixes bk :: MatchBackend
  assumes create_status:
    "b_create bk pf env p cfg err h = (st, c, err', lg, h') \<Longrightarrow> st = MSEARCH_OK \<longleftrightarrow> c \<noteq> None"
  and create_failed:
    "b_create bk pf env p cfg err h = (st, None, err', lg, h') \<Longrightarrow> live h' = live h"
  and search_canonical:
    "b_create bk pf env p cfg err h = (MSEARCH_OK, Some ctx, err', lg, h') \<Longrightarrow> problem_ok p \<Longrightarrow>
      eps_ok (c_zero_eps cfg) \<Longrightarrow> pic \<in> set (pictures p) \<Longrightarrow>
      \<exists>st mt e. b_search bk ctx w pic err'' = Some (st, mt, e) \<and>
        (st = MSEARCH_OK \<longrightarrow> mt = canonical_match p (c_zero_eps cfg) pic)"
  and destroy_balanced:
    "b_create bk pf env p cfg err h = (MSEARCH_OK, Some ctx, err', lg, h') \<Longrightarrow>
      live (b_destroy bk (Some ctx) h'') = live h'' - (live h' - live h)"
begin

lemma search_defined:
  assumes "b_create bk pf env p cfg err h = (MSEARCH_OK, Some ctx, err', lg, h')" "problem_ok p"
    "eps_ok (c_zero_eps cfg)" "pic \<in> set (pictures p)"
  shows "b_search bk ctx w pic err'' \<noteq> None"
  using search_canonical [OF assms] by force

lemma search_OK_canonical:
  assumes "b_create bk pf env p cfg err h = (MSEARCH_OK, Some ctx, err', lg, h')" "problem_ok p"
    "eps_ok (c_zero_eps cfg)" "pic \<in> set (pictures p)"
    and "b_search bk ctx w pic err'' = Some (MSEARCH_OK, mt, e)"
  shows "mt = canonical_match p (c_zero_eps cfg) pic"
  using search_canonical [OF assms(1-4), of w err''] assms(5) by simp

lemma search_OK_contract:
  assumes "b_create bk pf env p cfg err h = (MSEARCH_OK, Some ctx, err', lg, h')" "problem_ok p"
    "eps_ok (c_zero_eps cfg)" "pic \<in> set (pictures p)"
    and "b_search bk ctx w pic err'' = Some (MSEARCH_OK, mt, e)"
  shows "contract p (c_zero_eps cfg) pic mt"
  unfolding search_OK_canonical [OF assms]
  by (rule canonical_match_contract) (use problem_okD [OF assms(2)] in auto)

end

text \<open>A backend whose searches never fail, as the two CPU backends promise.\<close>

locale reliable_backend = match_backend +
  assumes search_succeeds:
    "b_create bk pf env p cfg err h = (MSEARCH_OK, Some ctx, err', lg, h') \<Longrightarrow>
      b_search bk ctx w pic err'' = Some (st, mt, e) \<Longrightarrow> st = MSEARCH_OK"
begin

lemma search_total:
  assumes "b_create bk pf env p cfg err h = (MSEARCH_OK, Some ctx, err', lg, h')" "problem_ok p"
    "eps_ok (c_zero_eps cfg)" "pic \<in> set (pictures p)"
  shows "\<exists>e. b_search bk ctx w pic err'' = Some (MSEARCH_OK, canonical_match p (c_zero_eps cfg) pic, e)"
proof -
  from search_canonical [OF assms] obtain st mt e where s: "b_search bk ctx w pic err'' = Some (st, mt, e)"
    "st = MSEARCH_OK \<longrightarrow> mt = canonical_match p (c_zero_eps cfg) pic"
    by blast
  with search_succeeds [OF assms(1)] show ?thesis by blast
qed

end

end
