(* ===== verification/Backend_Serial.thy ===== *)
theory Backend_Serial
  imports Backend
begin

text \<open>
  The reference backend, \<open>src/backends/backend_serial.c\<close>: placement keys are scanned in increasing
  order and the first hit of the first matching object is the answer. The interpretation at the end
  shows that it fulfils the contract and never fails once created.
\<close>

section \<open>The code\<close>

definition serial_available :: "platform \<Rightarrow> errbuf \<Rightarrow> bool \<times> errbuf" where
  "serial_available pf reason = (True, reason)"

definition serial_create ::
  "platform \<Rightarrow> env \<Rightarrow> Problem \<Rightarrow> Config \<Rightarrow> errbuf \<Rightarrow> heap \<Rightarrow>
    Status \<times> backend_ctx option \<times> errbuf \<times> log_event list \<times> heap" where
  "serial_create pf env p cfg err h =
     (let (ok, h') = mem_alloc env h in
      if ok then (MSEARCH_OK, Some (SerialCtx p (c_zero_eps cfg)), err, [], h')
      else (MSEARCH_ERR_NOMEM, None, msearch_set_err err ''cannot allocate serial context'', [], h'))"

text \<open>The inner loop: the row and column of the first key from \<open>key\<close> on that matches.\<close>

function serial_keys ::
  "cint list \<Rightarrow> cint \<Rightarrow> cint list \<Rightarrow> cint \<Rightarrow> dbl \<Rightarrow> dbl \<Rightarrow> cint \<Rightarrow> int \<Rightarrow> int \<Rightarrow> (cint \<times> cint) option option" where
  "serial_keys pd n od m thr eps sp placements key =
     (if key < placements then do {
        r \<leftarrow> c_div key sp;
        c \<leftarrow> c_mod key sp;
        let row = to_int r;
        let col = to_int c;
        score \<leftarrow> msearch_score_at pd n od m row col thr eps;
        if dlt score thr then Some (Some (row, col))
        else serial_keys pd n od m thr eps sp placements (key + 1)
      } else Some None)"
  by pat_completeness auto
termination
  by (relation "measure (\<lambda>(pd, n, od, m, thr, eps, sp, placements, key). nat (placements - key))") auto

function serial_objects ::
  "Problem \<Rightarrow> dbl \<Rightarrow> Picture \<Rightarrow> cint \<Rightarrow> Match \<Rightarrow> Match option" where
  "serial_objects p eps pic k out =
     (if k < num_objects p then do {
        obj \<leftarrow> load (objects p) k;
        placements \<leftarrow> msearch_placement_count (p_n pic) (o_m obj);
        if placements = 0 then serial_objects p eps pic (k + 1) out
        else do {
          d \<leftarrow> chk32 (p_n pic - o_m obj);
          sp \<leftarrow> chk32 (d + 1);
          pd \<leftarrow> p_data pic;
          od \<leftarrow> o_data obj;
          hit \<leftarrow> serial_keys pd (p_n pic) od (o_m obj) (threshold p) eps sp placements 0;
          case hit of
            Some (row, col) \<Rightarrow> Some (out\<lparr>m_object_id := o_id obj, m_row := row, m_col := col\<rparr>)
          | None \<Rightarrow> serial_objects p eps pic (k + 1) out
        }
      } else Some out)"
  by pat_completeness auto
termination
  by (relation "measure (\<lambda>(p, eps, pic, k, out). nat (num_objects p - k))") auto

declare serial_keys.simps [simp del] serial_objects.simps [simp del]

fun serial_search ::
  "backend_ctx \<Rightarrow> world \<Rightarrow> Picture \<Rightarrow> errbuf \<Rightarrow> (Status \<times> Match \<times> errbuf) option" where
  "serial_search (SerialCtx p eps) w pic err =
     (case serial_objects p eps pic 0 (msearch_match_none (p_id pic)) of
        None \<Rightarrow> None
      | Some out \<Rightarrow> Some (MSEARCH_OK, out, err))"
| "serial_search _ w pic err = None"

definition serial_destroy :: "backend_ctx option \<Rightarrow> heap \<Rightarrow> heap" where
  "serial_destroy ctx h = mem_free ctx h"

definition msearch_backend_serial :: MatchBackend where
  "msearch_backend_serial =
     \<lparr>b_name = ''serial'', b_description = ''single-threaded reference implementation'',
      b_available = serial_available, b_create = serial_create, b_search = serial_search,
      b_destroy = serial_destroy\<rparr>"

section \<open>Correctness\<close>

lemma serial_keys_find:
  assumes ok: "picture_ok pic" "object_ok obj" "p_data pic = Some pd" "o_data obj = Some od"
    and eps: "eps_ok eps" and thr: "thr \<noteq> NaN" and s: "0 < span_of pic obj"
  defines "pl \<equiv> span_of pic obj * span_of pic obj"
  shows "0 \<le> key \<Longrightarrow> serial_keys pd (p_n pic) od (o_m obj) thr eps (span_of pic obj) pl key =
    Some (map_option (\<lambda>k. (k div span_of pic obj, k mod span_of pic obj))
      (find (hit thr eps pic obj) [key..pl - 1]))"
proof (induction "nat (pl - key)" arbitrary: key)
  case 0
  then show ?case by (subst serial_keys.simps) simp
next
  case (Suc k)
  then have key: "0 \<le> key" "key < span_of pic obj * span_of pic obj" by (auto simp: pl_def)
  obtain r where r: "msearch_score_at pd (p_n pic) od (o_m obj) (key div span_of pic obj)
      (key mod span_of pic obj) thr eps = Some r" "dlt r thr = hit thr eps pic obj key"
    using score_at_hit [OF ok eps thr s key] by blast
  have i: "int32 (key div span_of pic obj)" "int32 (key mod span_of pic obj)"
    unfolding int_ranges using key_in_range [OF s key] loaded_sizes(6) [OF ok(1,2)] by linarith+
  have "serial_keys pd (p_n pic) od (o_m obj) thr eps (span_of pic obj) pl key =
      (if hit thr eps pic obj key then Some (Some (key div span_of pic obj, key mod span_of pic obj))
       else serial_keys pd (p_n pic) od (o_m obj) thr eps (span_of pic obj) pl (key + 1))"
    using key s r i by (subst serial_keys.simps) (simp add: pl_def Let_def)
  moreover have "[key..pl - 1] = key # [key + 1..pl - 1]"
    using key by (simp add: pl_def upto_rec1)
  ultimately show ?case using Suc by simp
qed

lemma serial_objects_canonical:
  assumes p: "problem_ok p" and eps: "eps_ok eps" and pic: "picture_ok pic"
  shows "k \<le> length (objects p) \<Longrightarrow>
    serial_objects p eps pic (int k) (msearch_match_none (p_id pic)) =
      Some (canonical_among (threshold p) eps pic (drop k (objects p)))"
proof (induction k rule: inc_induct)
  case base
  then show ?case using problem_okD(2) [OF p] by (subst serial_objects.simps) simp
next
  case (step k)
  define obj where "obj = objects p ! k"
  have obj: "object_ok obj" using problem_okD(5) [OF p] step by (simp add: obj_def list_all_length)
  obtain pd od where d: "p_data pic = Some pd" "o_data obj = Some od"
    using loaded_data [OF pic obj] by blast
  note sz = loaded_sizes [OF pic obj]
  have ld: "load (objects p) (int k) = Some obj" and k: "int k < num_objects p"
    using step problem_okD(2) [OF p] by (auto simp: obj_def)
  have drop: "drop k (objects p) = obj # drop (Suc k) (objects p)"
    using step by (simp add: obj_def drop_nth_Cons)
  show ?case
  proof (cases "o_m obj \<le> p_n pic")
    case False
    then have "first_hit (threshold p) eps pic obj = None" by (simp add: first_hit_def span_of_def)
    with False show ?thesis
      using step k ld sz by (subst serial_objects.simps) (simp add: drop add.commute)
  next
    case True
    then have s: "0 < span_of pic obj" by (simp add: span_of_def)
    have keys: "serial_keys pd (p_n pic) od (o_m obj) (threshold p) eps (p_n pic - o_m obj + 1)
        (span_of pic obj * span_of pic obj) 0 =
      Some (map_option (\<lambda>k. (k div span_of pic obj, k mod span_of pic obj)) (first_hit (threshold p) eps pic obj))"
      using serial_keys_find [OF pic obj d eps problem_okD(3) [OF p] s, of 0] s
      by (simp add: first_hit_def span_of_def)
    show ?thesis
      using step k ld sz d s keys True
      by (subst serial_objects.simps)
        (simp add: drop add.commute found_at_def msearch_match_none_def split: option.split)
  qed
qed

lemma serial_search_canonical:
  assumes "problem_ok p" "eps_ok eps" "picture_ok pic"
  shows "serial_search (SerialCtx p eps) w pic err = Some (MSEARCH_OK, canonical_match p eps pic, err)"
  using serial_objects_canonical [OF assms, of 0] by (simp add: canonical_match_def)

lemma serial_create_cases:
  assumes "serial_create pf env p cfg err h = (st, c, err', lg, h')"
  shows "st = MSEARCH_OK \<and> c = Some (SerialCtx p (c_zero_eps cfg)) \<and> live h' = live h + 1 \<or>
    st = MSEARCH_ERR_NOMEM \<and> c = None \<and> live h' = live h"
  using assms by (auto simp: serial_create_def mem_alloc_def split: if_splits)

interpretation serial: reliable_backend msearch_backend_serial
proof unfold_locales
  fix pf env p cfg err h st c err' lg h'
  assume "b_create msearch_backend_serial pf env p cfg err h = (st, c, err', lg, h')"
  then show "(st = MSEARCH_OK) = (c \<noteq> None)"
    by (auto simp: msearch_backend_serial_def dest: serial_create_cases)
next
  fix pf env p cfg err h st err' lg h'
  assume "b_create msearch_backend_serial pf env p cfg err h = (st, None, err', lg, h')"
  then show "live h' = live h"
    by (auto simp: msearch_backend_serial_def dest: serial_create_cases)
next
  fix pf env p cfg err h ctx err' lg h' pic w err''
  assume "b_create msearch_backend_serial pf env p cfg err h = (MSEARCH_OK, Some ctx, err', lg, h')"
    "problem_ok p" "eps_ok (c_zero_eps cfg)" "pic \<in> set (pictures p)"
  then show "\<exists>st mt e. b_search msearch_backend_serial ctx w pic err'' = Some (st, mt, e) \<and>
      (st = MSEARCH_OK \<longrightarrow> mt = canonical_match p (c_zero_eps cfg) pic)"
    by (auto simp: msearch_backend_serial_def serial_search_canonical problem_ok_picture dest!: serial_create_cases
        simp del: serial_search.simps)
next
  fix pf env p cfg err h ctx err' lg h' h''
  assume "b_create msearch_backend_serial pf env p cfg err h = (MSEARCH_OK, Some ctx, err', lg, h')"
  then show "live (b_destroy msearch_backend_serial (Some ctx) h'') = live h'' - (live h' - live h)"
    by (auto simp: msearch_backend_serial_def serial_destroy_def mem_free_def dest: serial_create_cases)
next
  fix pf env p cfg err h ctx err' lg h' w pic err'' st mt e
  assume "b_create msearch_backend_serial pf env p cfg err h = (MSEARCH_OK, Some ctx, err', lg, h')"
    "b_search msearch_backend_serial ctx w pic err'' = Some (st, mt, e)"
  then show "st = MSEARCH_OK"
    by (auto simp: msearch_backend_serial_def dest: serial_create_cases split: option.splits)
qed

end
