(* ===== verification/Backend_OpenMP.thy ===== *)
theory Backend_OpenMP
  imports Backend
begin

text \<open>
  The multicore backend, \<open>src/backends/backend_openmp.c\<close>. The parallel loop of
  \<open>lowest_matching_placement\<close> is a transition system: every thread of the team takes chunks of
  \<open>MSEARCH_OMP_CHUNK\<close> keys off the shared iteration space (\<open>schedule(dynamic)\<close>), and for each key
  performs the atomic read of \<open>best\<close>, the comparison and the scoring, and on a hit the critical
  section. One step of a thread is one of those atomic actions; a schedule picks the thread that
  moves next. Whatever the team size and the schedule, the loop ends with the lowest matching key.
\<close>

section \<open>The code\<close>

definition MSEARCH_OMP_CHUNK :: int where
  "MSEARCH_OMP_CHUNK = 256"

definition openmp_available :: "platform \<Rightarrow> errbuf \<Rightarrow> bool \<times> errbuf" where
  "openmp_available pf reason = (True, reason)"

definition resolve_thread_count :: "platform \<Rightarrow> Config \<Rightarrow> cint option" where
  "resolve_thread_count pf cfg =
     (if c_threads cfg > 0 then Some (c_threads cfg)
      else if omp_num_threads_set pf then Some (omp_max_threads pf)
      else do {
        let ranks_here = (if c_node_ranks cfg > 0 then c_node_ranks cfg else 1);
        share \<leftarrow> c_div (omp_max_threads pf) ranks_here;
        Some (if share > 0 then share else 1)
      })"

definition openmp_create ::
  "platform \<Rightarrow> env \<Rightarrow> Problem \<Rightarrow> Config \<Rightarrow> errbuf \<Rightarrow> heap \<Rightarrow>
    Status \<times> backend_ctx option \<times> errbuf \<times> log_event list \<times> heap" where
  "openmp_create pf env p cfg err h =
     (let (ok, h') = mem_alloc env h in
      if \<not> ok then (MSEARCH_ERR_NOMEM, None, msearch_set_err err ''cannot allocate OpenMP context'', [], h')
      else let n = the (resolve_thread_count pf cfg) in
        (MSEARCH_OK, Some (OpenMpCtx p (c_zero_eps cfg) n), err,
         [(LOG_DEBUG, ''openmp backend: '' @ show_int n @ '' threads'')], h'))"

text \<open>
  A thread between chunks; in a chunk with the next key to look at; with the snapshot it read for
  that key; with a hit at that key, in front of the critical section; past the end of the loop.
\<close>

datatype omp_thread =
    Idle
  | Run int int
  | Snap int int cint
  | Hit int int
  | Stopped

record omp_state =
  best :: cint
  next_key :: int
  team :: "omp_thread list"

record omp_loop =
  lp_pd :: "cint list"
  lp_n :: cint
  lp_od :: "cint list"
  lp_m :: cint
  lp_thr :: dbl
  lp_eps :: dbl
  lp_span :: cint
  lp_placements :: int

definition omp_score :: "omp_loop \<Rightarrow> int \<Rightarrow> dbl option" where
  "omp_score lp key = do {
     r \<leftarrow> c_div key (lp_span lp);
     c \<leftarrow> c_mod key (lp_span lp);
     msearch_score_at (lp_pd lp) (lp_n lp) (lp_od lp) (lp_m lp) (to_int r) (to_int c) (lp_thr lp) (lp_eps lp)
   }"

fun omp_step :: "omp_loop \<Rightarrow> omp_state \<Rightarrow> nat \<Rightarrow> omp_state option" where
  "omp_step lp s i =
     (case team s ! i of
        Idle \<Rightarrow>
          if next_key s < lp_placements lp
          then let hi = min (next_key s + MSEARCH_OMP_CHUNK) (lp_placements lp)
               in Some (s\<lparr>next_key := hi, team := (team s)[i := Run (next_key s) hi]\<rparr>)
          else Some (s\<lparr>team := (team s)[i := Stopped]\<rparr>)
      | Run key hi \<Rightarrow>
          if key < hi then Some (s\<lparr>team := (team s)[i := Snap key hi (best s)]\<rparr>)
          else Some (s\<lparr>team := (team s)[i := Idle]\<rparr>)
      | Snap key hi snapshot \<Rightarrow>
          if key \<ge> snapshot then Some (s\<lparr>team := (team s)[i := Run (key + 1) hi]\<rparr>)
          else do {
            score \<leftarrow> omp_score lp key;
            Some (s\<lparr>team := (team s)[i := if dlt score (lp_thr lp) then Hit key hi else Run (key + 1) hi]\<rparr>)
          }
      | Hit key hi \<Rightarrow>
          Some (s\<lparr>best := if to_int key < best s then to_int key else best s,
                  team := (team s)[i := Run (key + 1) hi]\<rparr>)
      | Stopped \<Rightarrow> Some s)"

text \<open>The threads that still have work, and the one the schedule picks at time \<open>t\<close>.\<close>

definition active :: "omp_thread list \<Rightarrow> nat list" where
  "active ts = filter (\<lambda>i. ts ! i \<noteq> Stopped) [0..<length ts]"

text \<open>A measure that every step of an active thread decreases.\<close>

fun thread_work :: "omp_thread \<Rightarrow> nat" where
  "thread_work Idle = 1"
| "thread_work (Run key hi) = 4 * nat (hi - key) + 2"
| "thread_work (Snap key hi snap) = 4 * nat (hi - (key + 1)) + 4"
| "thread_work (Hit key hi) = 4 * nat (hi - (key + 1)) + 3"
| "thread_work Stopped = 0"

definition omp_work :: "omp_loop \<Rightarrow> omp_state \<Rightarrow> nat" where
  "omp_work lp s = 8 * nat (lp_placements lp - next_key s) + sum_list (map thread_work (team s))"

lemma omp_step_work:
  assumes "omp_step lp s i = Some s'" "i \<in> set (active (team s))"
  shows "omp_work lp s' < omp_work lp s"
proof -
  from assms(2) have i: "i < length (team s)" "team s ! i \<noteq> Stopped" by (auto simp: active_def)
  note r = sum_list_replace [OF i(1), of thread_work]
  show ?thesis
  proof (cases "team s ! i")
    case Idle
    with assms(1) show ?thesis using r [of "Run (next_key s) (next_key s + 256)"]
        r [of "Run (next_key s) (lp_placements lp)"] r [of Stopped]
      by (auto simp: omp_work_def Let_def MSEARCH_OMP_CHUNK_def min_def split: if_splits)
  next
    case (Run key hi)
    with assms(1) show ?thesis using r [of "Snap key hi (best s)"] r [of Idle]
      by (auto simp: omp_work_def split: if_splits)
  next
    case (Snap key hi sn)
    with assms(1) show ?thesis using r [of "Hit key hi"] r [of "Run (key + 1) hi"]
      by (auto simp: omp_work_def split: if_splits bind_splits)
  next
    case (Hit key hi)
    with assms(1) show ?thesis using r [of "Run (key + 1) hi"]
      by (auto simp: omp_work_def)
  qed (use i in simp)
qed

text \<open>The loop runs until every thread has stopped: the implicit barrier at its end.\<close>

function omp_run :: "omp_loop \<Rightarrow> (nat \<Rightarrow> nat) \<Rightarrow> nat \<Rightarrow> omp_state \<Rightarrow> omp_state option" where
  "omp_run lp sched t s =
     (let as = active (team s) in
      if as = [] then Some s
      else case omp_step lp s (as ! (sched t mod length as)) of
             None \<Rightarrow> None
           | Some s' \<Rightarrow> omp_run lp sched (t + 1) s')"
  by pat_completeness auto
termination
  by (relation "measure (\<lambda>(lp, sched, t, s). omp_work lp s)") (auto simp del: omp_step.simps intro!: omp_step_work)

declare omp_run.simps [simp del] omp_step.simps [simp del]

definition omp_initial :: "nat \<Rightarrow> omp_state" where
  "omp_initial k = \<lparr>best = MSEARCH_NO_PLACEMENT, next_key = 0, team = replicate k Idle\<rparr>"

text \<open>The runtime may grant fewer threads than \<open>num_threads\<close> asks for, but always one.\<close>

definition team_size :: "cint \<Rightarrow> nat \<Rightarrow> nat" where
  "team_size threads granted = max 1 (min (nat threads) granted)"

definition lowest_matching_placement ::
  "nat \<Rightarrow> (nat \<Rightarrow> nat) \<Rightarrow> Picture \<Rightarrow> Object \<Rightarrow> dbl \<Rightarrow> dbl \<Rightarrow> int \<Rightarrow> cint \<Rightarrow> cint \<Rightarrow> cint option" where
  "lowest_matching_placement granted sched pic obj thr eps placements sp threads = do {
     pd \<leftarrow> p_data pic;
     od \<leftarrow> o_data obj;
     s \<leftarrow> omp_run \<lparr>lp_pd = pd, lp_n = p_n pic, lp_od = od, lp_m = o_m obj, lp_thr = thr, lp_eps = eps,
                   lp_span = sp, lp_placements = placements\<rparr>
           sched 0 (omp_initial (team_size threads granted));
     Some (best s)
   }"

function openmp_objects ::
  "Problem \<Rightarrow> dbl \<Rightarrow> cint \<Rightarrow> world \<Rightarrow> Picture \<Rightarrow> cint \<Rightarrow> Match \<Rightarrow> Match option" where
  "openmp_objects p eps threads w pic k out =
     (if k < num_objects p then do {
        obj \<leftarrow> load (objects p) k;
        placements \<leftarrow> msearch_placement_count (p_n pic) (o_m obj);
        if placements = 0 then openmp_objects p eps threads w pic (k + 1) out
        else do {
          d \<leftarrow> chk32 (p_n pic - o_m obj);
          sp \<leftarrow> chk32 (d + 1);
          b \<leftarrow> lowest_matching_placement (w_team w k) (w_sched w k) pic obj (threshold p) eps placements sp threads;
          if b \<noteq> MSEARCH_NO_PLACEMENT then do {
            row \<leftarrow> c_div b sp;
            col \<leftarrow> c_mod b sp;
            Some (out\<lparr>m_object_id := o_id obj, m_row := row, m_col := col\<rparr>)
          } else openmp_objects p eps threads w pic (k + 1) out
        }
      } else Some out)"
  by pat_completeness auto
termination
  by (relation "measure (\<lambda>(p, eps, threads, w, pic, k, out). nat (num_objects p - k))") auto

declare openmp_objects.simps [simp del]

fun openmp_search ::
  "backend_ctx \<Rightarrow> world \<Rightarrow> Picture \<Rightarrow> errbuf \<Rightarrow> (Status \<times> Match \<times> errbuf) option" where
  "openmp_search (OpenMpCtx p eps threads) w pic err =
     (case openmp_objects p eps threads w pic 0 (msearch_match_none (p_id pic)) of
        None \<Rightarrow> None
      | Some out \<Rightarrow> Some (MSEARCH_OK, out, err))"
| "openmp_search _ w pic err = None"

definition openmp_destroy :: "backend_ctx option \<Rightarrow> heap \<Rightarrow> heap" where
  "openmp_destroy ctx h = mem_free ctx h"

definition msearch_backend_openmp :: MatchBackend where
  "msearch_backend_openmp =
     \<lparr>b_name = ''openmp'', b_description = ''multicore CPU (OpenMP, parallel over placements)'',
      b_available = openmp_available, b_create = openmp_create, b_search = openmp_search,
      b_destroy = openmp_destroy\<rparr>"

section \<open>Every schedule finds the lowest key\<close>

text \<open>
  The invariant: what \<open>best\<close> and the threads hold are keys of the iteration space, \<open>best\<close> is absent
  or a hit, and every hit of a key already handed out is at or above \<open>best\<close> or still in a thread's
  hands.
\<close>

fun in_hands :: "omp_thread \<Rightarrow> int \<Rightarrow> bool" where
  "in_hands (Run key hi) k = (key \<le> k \<and> k < hi)"
| "in_hands (Snap key hi snap) k = (key \<le> k \<and> k < hi)"
| "in_hands (Hit key hi) k = (key \<le> k \<and> k < hi)"
| "in_hands _ k = False"

fun thread_ok :: "(int \<Rightarrow> bool) \<Rightarrow> omp_state \<Rightarrow> int \<Rightarrow> omp_thread \<Rightarrow> bool" where
  "thread_ok P s pl (Run key hi) = (0 \<le> key \<and> hi \<le> pl)"
| "thread_ok P s pl (Snap key hi snap) = (0 \<le> key \<and> key < hi \<and> hi \<le> pl \<and> best s \<le> snap)"
| "thread_ok P s pl (Hit key hi) = (0 \<le> key \<and> key < hi \<and> hi \<le> pl \<and> P key)"
| "thread_ok P s pl Idle = True"
| "thread_ok P s pl Stopped = (pl \<le> next_key s)"

definition best_ok :: "(int \<Rightarrow> bool) \<Rightarrow> omp_state \<Rightarrow> int \<Rightarrow> bool" where
  "best_ok P s pl \<longleftrightarrow> best s = MSEARCH_NO_PLACEMENT \<or> 0 \<le> best s \<and> best s < pl \<and> P (best s)"

definition covered :: "(int \<Rightarrow> bool) \<Rightarrow> omp_state \<Rightarrow> bool" where
  "covered P s \<longleftrightarrow> (\<forall>k. 0 \<le> k \<longrightarrow> k < next_key s \<longrightarrow> P k \<longrightarrow>
     best s \<le> k \<or> (\<exists>th \<in> set (team s). in_hands th k))"

definition omp_inv :: "(int \<Rightarrow> bool) \<Rightarrow> int \<Rightarrow> omp_state \<Rightarrow> bool" where
  "omp_inv P pl s \<longleftrightarrow> 0 \<le> next_key s \<and> list_all (thread_ok P s pl) (team s) \<and> best_ok P s pl \<and> covered P s"

lemma omp_inv_initial: "omp_inv P pl (omp_initial k)"
  by (simp add: omp_inv_def omp_initial_def best_ok_def covered_def list_all_iff)

text \<open>
  One lemma per kind of step: replacing a thread keeps the coverage if the keys the old one held are
  held by the new one or settled.
\<close>

lemma covered_replace:
  assumes "covered P s" "i < length (team s)" "best s' \<le> best s" "team s' = (team s)[i := th]"
    and "next_key s \<le> next_key s'"
    and "\<And>k. in_hands (team s ! i) k \<Longrightarrow> P k \<Longrightarrow> best s' \<le> k \<or> in_hands th k"
    and "\<And>k. next_key s \<le> k \<Longrightarrow> k < next_key s' \<Longrightarrow> in_hands th k"
  shows "covered P s'"
  unfolding covered_def
proof (intro allI impI)
  fix k assume k: "0 \<le> k" "k < next_key s'" "P k"
  have new: "th \<in> set (team s')" using assms(2,4) by (simp add: set_update_memI)
  show "best s' \<le> k \<or> (\<exists>th \<in> set (team s'). in_hands th k)"
  proof (cases "k < next_key s")
    case False
    with assms(7) k new show ?thesis by (auto simp: not_less)
  next
    case True
    with assms(1) k have "best s \<le> k \<or> (\<exists>th \<in> set (team s). in_hands th k)"
      by (simp add: covered_def)
    then consider "best s \<le> k" | j where "j < length (team s)" "in_hands (team s ! j) k"
      by (auto simp: in_set_conv_nth)
    then show ?thesis
    proof cases
      case 1
      with assms(3) show ?thesis by simp
    next
      case (2 j)
      show ?thesis
      proof (cases "j = i")
        case True
        with 2 assms(6) k new show ?thesis by blast
      next
        case False
        with 2 assms(4) have "team s' ! j = team s ! j" "j < length (team s')" by auto
        with 2 show ?thesis by (metis nth_mem)
      qed
    qed
  qed
qed

lemma thread_ok_mono:
  "thread_ok P s pl th \<Longrightarrow> best s' \<le> best s \<Longrightarrow> next_key s \<le> next_key s' \<Longrightarrow> thread_ok P s' pl th"
  by (cases th) auto

lemma team_ok_replace:
  assumes "list_all (thread_ok P s pl) (team s)" "best s' \<le> best s" "next_key s \<le> next_key s'"
    and "team s' = (team s)[i := th]" "thread_ok P s' pl th"
  shows "list_all (thread_ok P s' pl) (team s')"
  unfolding list_all_iff
proof
  fix x assume "x \<in> set (team s')"
  then have "x = th \<or> x \<in> set (team s)"
    using set_update_subset_insert [of "team s" i th] assms(4) by auto
  with assms show "thread_ok P s' pl x" by (auto simp: list_all_iff intro: thread_ok_mono)
qed

lemma omp_inv_replace:
  assumes "omp_inv P pl s" "i < length (team s)" "best s' \<le> best s" "team s' = (team s)[i := th]"
    and "next_key s \<le> next_key s'" "thread_ok P s' pl th" "best_ok P s' pl"
    and "\<And>k. in_hands (team s ! i) k \<Longrightarrow> P k \<Longrightarrow> best s' \<le> k \<or> in_hands th k"
    and "\<And>k. next_key s \<le> k \<Longrightarrow> k < next_key s' \<Longrightarrow> in_hands th k"
  shows "omp_inv P pl s'"
  using assms covered_replace [of P s i s' th] team_ok_replace [of P s pl s' i th]
  unfolding omp_inv_def by fastforce

text \<open>What the scoring function of the loop computes: it is defined on the whole iteration space.\<close>

definition scores :: "omp_loop \<Rightarrow> (int \<Rightarrow> bool) \<Rightarrow> bool" where
  "scores lp P \<longleftrightarrow> int32 (lp_placements lp) \<and>
     (\<forall>key. 0 \<le> key \<longrightarrow> key < lp_placements lp \<longrightarrow> (\<exists>r. omp_score lp key = Some r \<and> dlt r (lp_thr lp) = P key))"

lemma step_inv:
  assumes sc: "scores lp P" and inv: "omp_inv P (lp_placements lp) s" and i: "i \<in> set (active (team s))"
  obtains s' where "omp_step lp s i = Some s'" "omp_inv P (lp_placements lp) s'"
proof -
  let ?pl = "lp_placements lp"
  from i have i: "i < length (team s)" "team s ! i \<noteq> Stopped" by (auto simp: active_def)
  then have th: "thread_ok P s ?pl (team s ! i)" and bok: "best_ok P s ?pl" and nk: "0 \<le> next_key s"
    using inv by (auto simp: omp_inv_def list_all_length)
  note rep = omp_inv_replace [OF inv i(1)]
  show thesis
  proof (cases "team s ! i")
    case Idle
    show thesis
    proof (cases "next_key s < ?pl")
      case True
      define hi where "hi = min (next_key s + 256) ?pl"
      show thesis
        by (rule that [of "s\<lparr>next_key := hi, team := (team s)[i := Run (next_key s) hi]\<rparr>"])
          (use Idle True nk bok in \<open>auto simp: omp_step.simps Let_def MSEARCH_OMP_CHUNK_def hi_def best_ok_def intro!: rep\<close>)
    next
      case False
      show thesis
        by (rule that [of "s\<lparr>team := (team s)[i := Stopped]\<rparr>"])
          (use Idle False bok in \<open>auto simp: omp_step.simps best_ok_def intro!: rep\<close>)
    qed
  next
    case (Run key hi)
    show thesis
      by (rule that [of "s\<lparr>team := (team s)[i := if key < hi then Snap key hi (best s) else Idle]\<rparr>"])
        (use Run th bok in \<open>auto simp: omp_step.simps best_ok_def intro!: rep\<close>)
  next
    case (Snap key hi sn)
    show thesis
    proof (cases "key \<ge> sn")
      case True
      show thesis
        by (rule that [of "s\<lparr>team := (team s)[i := Run (key + 1) hi]\<rparr>"])
          (use Snap True th bok in \<open>auto simp: omp_step.simps best_ok_def intro!: rep\<close>)
    next
      case False
      obtain r where r: "omp_score lp key = Some r" "dlt r (lp_thr lp) = P key"
        using sc th Snap by (auto simp: scores_def)
      show thesis
      proof (cases "P key")
        case True
        show thesis
          by (rule that [of "s\<lparr>team := (team s)[i := Hit key hi]\<rparr>"])
            (use Snap False True th bok r in \<open>auto simp: omp_step.simps best_ok_def intro!: rep\<close>)
      next
        case P: False
        have nxt: "key + 1 \<le> k" if "P k" "key \<le> k" for k using that P by (cases "k = key") auto
        show thesis
          by (intro that [of "s\<lparr>team := (team s)[i := Run (key + 1) hi]\<rparr>"])
            (use Snap False P th bok r in \<open>auto simp: omp_step.simps best_ok_def intro!: rep intro: nxt\<close>)
      qed
    qed
  next
    case (Hit key hi)
    have "int32 key" using sc th Hit by (auto simp: scores_def int_ranges)
    then have "to_int key = key" by simp
    show thesis
      by (rule that [of "s\<lparr>best := if key < best s then key else best s, team := (team s)[i := Run (key + 1) hi]\<rparr>"])
        (use Hit th bok \<open>to_int key = key\<close> in \<open>auto simp: omp_step.simps best_ok_def intro!: rep\<close>)
  qed (use i in simp)
qed


lemma step_team_length: "omp_step lp s i = Some s' \<Longrightarrow> length (team s') = length (team s)"
  by (auto simp: omp_step.simps Let_def split: omp_thread.splits if_splits bind_splits)

lemma run_inv:
  assumes sc: "scores lp P" and "omp_inv P (lp_placements lp) s"
  shows "\<exists>s'. omp_run lp sched t s = Some s' \<and> omp_inv P (lp_placements lp) s' \<and>
    active (team s') = [] \<and> length (team s') = length (team s)"
  using assms(2)
proof (induction "omp_work lp s" arbitrary: s t rule: less_induct)
  case less
  let ?as = "active (team s)"
  show ?case
  proof (cases "?as = []")
    case True
    with less.prems show ?thesis by (subst omp_run.simps) simp
  next
    case False
    then have i: "?as ! (sched t mod length ?as) \<in> set ?as" by simp
    from step_inv [OF sc less.prems i] obtain s' where
      s': "omp_step lp s (?as ! (sched t mod length ?as)) = Some s'" "omp_inv P (lp_placements lp) s'"
      by blast
    with less.hyps [OF omp_step_work [OF s'(1) i] s'(2), of "t + 1"] False step_team_length [OF s'(1)]
    show ?thesis by (subst omp_run.simps) (simp add: Let_def)
  qed
qed

text \<open>The value left in \<open>best\<close> when the loop is over: the lowest key that scores a hit.\<close>

lemma run_lowest:
  assumes sc: "scores lp P" and "0 < n"
  shows "\<exists>s'. omp_run lp sched 0 (omp_initial n) = Some s' \<and> best_ok P s' (lp_placements lp) \<and>
    (\<forall>k. 0 \<le> k \<longrightarrow> k < lp_placements lp \<longrightarrow> P k \<longrightarrow> best s' \<le> k)"
proof -
  from run_inv [OF sc omp_inv_initial, of sched 0 n] obtain s' where
    s': "omp_run lp sched 0 (omp_initial n) = Some s'" "omp_inv P (lp_placements lp) s'"
    "active (team s') = []" "length (team s') = n"
    by (auto simp: omp_initial_def)
  have st: "\<forall>th \<in> set (team s'). th = Stopped"
    using s'(3) by (auto simp: active_def filter_empty_conv in_set_conv_nth)
  moreover have "team s' \<noteq> []" using s'(4) assms(2) by auto
  ultimately have "lp_placements lp \<le> next_key s'"
    using s'(2) by (cases "team s'") (auto simp: omp_inv_def)
  with s' st have "\<forall>k. 0 \<le> k \<longrightarrow> k < lp_placements lp \<longrightarrow> P k \<longrightarrow> best s' \<le> k"
    by (fastforce simp: omp_inv_def covered_def)
  with s' show ?thesis by (auto simp: omp_inv_def)
qed

section \<open>The backend fulfils the contract\<close>

lemma team_size_pos [simp]: "0 < team_size threads granted"
  by (simp add: team_size_def)

definition omp_loop_of :: "Picture \<Rightarrow> Object \<Rightarrow> dbl \<Rightarrow> dbl \<Rightarrow> omp_loop" where
  "omp_loop_of pic obj thr eps =
     \<lparr>lp_pd = the (p_data pic), lp_n = p_n pic, lp_od = the (o_data obj), lp_m = o_m obj, lp_thr = thr,
      lp_eps = eps, lp_span = span_of pic obj, lp_placements = span_of pic obj * span_of pic obj\<rparr>"

definition omp_ready :: "Picture \<Rightarrow> Object \<Rightarrow> dbl \<Rightarrow> dbl \<Rightarrow> bool" where
  "omp_ready pic obj thr eps \<longleftrightarrow>
     picture_ok pic \<and> object_ok obj \<and> eps_ok eps \<and> thr \<noteq> NaN \<and> 0 < span_of pic obj"

lemma scores_hit:
  assumes "omp_ready pic obj thr eps"
  shows "scores (omp_loop_of pic obj thr eps) (hit thr eps pic obj)"
  unfolding scores_def
proof (intro conjI allI impI)
  from assms have ok: "picture_ok pic" "object_ok obj" "eps_ok eps" "thr \<noteq> NaN" and s: "0 < span_of pic obj"
    by (auto simp: omp_ready_def)
  show "int32 (lp_placements (omp_loop_of pic obj thr eps))"
    using placements_fit [OF ok(1,2) s] zero_le_square [of "span_of pic obj"]
    by (simp add: omp_loop_of_def int_ranges del: zero_le_square)
  fix key assume "0 \<le> key" "key < lp_placements (omp_loop_of pic obj thr eps)"
  then have key: "0 \<le> key" "key < span_of pic obj * span_of pic obj" by (simp_all add: omp_loop_of_def)
  obtain pd od where d: "p_data pic = Some pd" "o_data obj = Some od"
    using loaded_data [OF ok(1,2)] by blast
  obtain r where r: "msearch_score_at pd (p_n pic) od (o_m obj) (key div span_of pic obj)
      (key mod span_of pic obj) thr eps = Some r" "dlt r thr = hit thr eps pic obj key"
    using score_at_hit [OF ok(1,2) d ok(3,4) s key] by blast
  have i: "int32 (key div span_of pic obj)" "int32 (key mod span_of pic obj)"
    unfolding int_ranges using key_in_range [OF s key] loaded_sizes(6) [OF ok(1,2)] by linarith+
  show "\<exists>r. omp_score (omp_loop_of pic obj thr eps) key = Some r \<and>
      dlt r (lp_thr (omp_loop_of pic obj thr eps)) = hit thr eps pic obj key"
    using key s r d i by (auto simp: omp_score_def omp_loop_of_def)
qed

lemma lowest_matching_placement_first_hit:
  assumes "omp_ready pic obj thr eps"
  shows "lowest_matching_placement granted sched pic obj thr eps (span_of pic obj * span_of pic obj)
      (span_of pic obj) threads =
    Some (case first_hit thr eps pic obj of None \<Rightarrow> MSEARCH_NO_PLACEMENT | Some k \<Rightarrow> k)"
proof -
  let ?pl = "span_of pic obj * span_of pic obj"
  from assms have ok: "picture_ok pic" "object_ok obj" and s: "0 < span_of pic obj"
    by (auto simp: omp_ready_def)
  obtain pd od where d: "p_data pic = Some pd" "o_data obj = Some od"
    using loaded_data [OF ok] by blast
  have lp: "\<lparr>lp_pd = pd, lp_n = p_n pic, lp_od = od, lp_m = o_m obj, lp_thr = thr, lp_eps = eps,
      lp_span = span_of pic obj, lp_placements = ?pl\<rparr> = omp_loop_of pic obj thr eps"
    using d by (simp add: omp_loop_of_def)
  obtain s' where s': "omp_run (omp_loop_of pic obj thr eps) sched 0 (omp_initial (team_size threads granted)) = Some s'"
    "best_ok (hit thr eps pic obj) s' ?pl"
    "\<forall>k. 0 \<le> k \<longrightarrow> k < ?pl \<longrightarrow> hit thr eps pic obj k \<longrightarrow> best s' \<le> k"
    using run_lowest [OF scores_hit [OF assms] team_size_pos, of sched threads granted]
    by (auto simp: omp_loop_of_def)
  have "best s' = (case first_hit thr eps pic obj of None \<Rightarrow> MSEARCH_NO_PLACEMENT | Some k \<Rightarrow> k)"
  proof (cases "first_hit thr eps pic obj")
    case None
    with first_hit_NoneD [OF None _ _ s] s'(2) show ?thesis by (auto simp: best_ok_def)
  next
    case (Some k)
    note f = first_hit_SomeD [OF Some]
    have "best s' \<le> k" using s'(3) f by blast
    moreover have "k < MSEARCH_NO_PLACEMENT"
      using f(3) placements_fit [OF ok s] by (simp add: MSEARCH_NO_PLACEMENT_def)
    ultimately have "0 \<le> best s'" "hit thr eps pic obj (best s')" using s'(2) by (auto simp: best_ok_def)
    with f(5) [of "best s'"] \<open>best s' \<le> k\<close> Some show ?thesis by force
  qed
  with s' d show ?thesis by (simp add: lowest_matching_placement_def lp)
qed

lemma openmp_objects_canonical:
  assumes p: "problem_ok p" and eps: "eps_ok eps" and pic: "picture_ok pic"
  shows "k \<le> length (objects p) \<Longrightarrow>
    openmp_objects p eps threads w pic (int k) (msearch_match_none (p_id pic)) =
      Some (canonical_among (threshold p) eps pic (drop k (objects p)))"
proof (induction k rule: inc_induct)
  case base
  then show ?case using problem_okD(2) [OF p] by (subst openmp_objects.simps) simp
next
  case (step k)
  define obj where "obj = objects p ! k"
  have obj: "object_ok obj" using problem_okD(5) [OF p] step by (simp add: obj_def list_all_length)
  note sz = loaded_sizes [OF pic obj]
  have ld: "load (objects p) (int k) = Some obj" and k: "int k < num_objects p"
    using step problem_okD(2) [OF p] by (auto simp: obj_def)
  have drop: "drop k (objects p) = obj # drop (Suc k) (objects p)"
    using step by (simp add: obj_def drop_nth_Cons)
  show ?case
  proof (cases "o_m obj \<le> p_n pic")
    case False
    then have "first_hit (threshold p) eps pic obj = None" by (simp add: first_hit_def span_of_def)
    with False show ?thesis
      using step k ld sz by (subst openmp_objects.simps) (simp add: drop add.commute)
  next
    case True
    then have s: "0 < span_of pic obj" by (simp add: span_of_def)
    then have "omp_ready pic obj (threshold p) eps"
      using pic obj eps problem_okD(3) [OF p] by (simp add: omp_ready_def)
    note low = lowest_matching_placement_first_hit [OF this, of "w_team w (int k)" "w_sched w (int k)" threads]
    have key: "k \<noteq> MSEARCH_NO_PLACEMENT \<and> 0 \<le> k" if "first_hit (threshold p) eps pic obj = Some k" for k
      using first_hit_SomeD [OF that] placements_fit [OF pic obj s] by (simp add: MSEARCH_NO_PLACEMENT_def)
    show ?thesis
    proof (cases "first_hit (threshold p) eps pic obj")
      case None
      with step k ld sz s low True show ?thesis
        by (subst openmp_objects.simps) (simp add: drop add.commute span_of_def)
    next
      case (Some key)
      with \<open>\<And>k. first_hit (threshold p) eps pic obj = Some k \<Longrightarrow> k \<noteq> MSEARCH_NO_PLACEMENT \<and> 0 \<le> k\<close>
      have "key \<noteq> MSEARCH_NO_PLACEMENT" "0 \<le> key" by auto
      with Some step k ld sz s low True show ?thesis
        by (subst openmp_objects.simps)
          (simp add: drop add.commute found_at_def msearch_match_none_def span_of_def)
    qed
  qed
qed

lemma openmp_search_canonical:
  assumes "problem_ok p" "eps_ok eps" "picture_ok pic"
  shows "openmp_search (OpenMpCtx p eps threads) w pic err = Some (MSEARCH_OK, canonical_match p eps pic, err)"
  using openmp_objects_canonical [OF assms, of 0] by (simp add: canonical_match_def)

lemma openmp_create_cases:
  assumes "openmp_create pf env p cfg err h = (st, c, err', lg, h')"
  shows "st = MSEARCH_OK \<and> c = Some (OpenMpCtx p (c_zero_eps cfg) (the (resolve_thread_count pf cfg))) \<and>
      live h' = live h + 1 \<or>
    st = MSEARCH_ERR_NOMEM \<and> c = None \<and> live h' = live h"
  using assms by (auto simp: openmp_create_def mem_alloc_def Let_def split: if_splits)

lemma resolve_thread_count_defined: "resolve_thread_count pf cfg \<noteq> None"
  by (auto simp: resolve_thread_count_def Let_def c_div_def split: bind_splits)

interpretation openmp: reliable_backend msearch_backend_openmp
proof unfold_locales
  fix pf env p cfg err h st c err' lg h'
  assume "b_create msearch_backend_openmp pf env p cfg err h = (st, c, err', lg, h')"
  then show "(st = MSEARCH_OK) = (c \<noteq> None)"
    by (auto simp: msearch_backend_openmp_def dest: openmp_create_cases)
next
  fix pf env p cfg err h st err' lg h'
  assume "b_create msearch_backend_openmp pf env p cfg err h = (st, None, err', lg, h')"
  then show "live h' = live h"
    by (auto simp: msearch_backend_openmp_def dest: openmp_create_cases)
next
  fix pf env p cfg err h ctx err' lg h' pic w err''
  assume "b_create msearch_backend_openmp pf env p cfg err h = (MSEARCH_OK, Some ctx, err', lg, h')"
    "problem_ok p" "eps_ok (c_zero_eps cfg)" "pic \<in> set (pictures p)"
  then show "\<exists>st mt e. b_search msearch_backend_openmp ctx w pic err'' = Some (st, mt, e) \<and>
      (st = MSEARCH_OK \<longrightarrow> mt = canonical_match p (c_zero_eps cfg) pic)"
    by (auto simp: msearch_backend_openmp_def openmp_search_canonical problem_ok_picture dest!: openmp_create_cases
        simp del: openmp_search.simps)
next
  fix pf env p cfg err h ctx err' lg h' h''
  assume "b_create msearch_backend_openmp pf env p cfg err h = (MSEARCH_OK, Some ctx, err', lg, h')"
  then show "live (b_destroy msearch_backend_openmp (Some ctx) h'') = live h'' - (live h' - live h)"
    by (auto simp: msearch_backend_openmp_def openmp_destroy_def mem_free_def dest: openmp_create_cases)
next
  fix pf env p cfg err h ctx err' lg h' w pic err'' st mt e
  assume "b_create msearch_backend_openmp pf env p cfg err h = (MSEARCH_OK, Some ctx, err', lg, h')"
    "b_search msearch_backend_openmp ctx w pic err'' = Some (st, mt, e)"
  then show "st = MSEARCH_OK"
    by (auto simp: msearch_backend_openmp_def dest: openmp_create_cases split: option.splits)
qed

section \<open>Properties\<close>

text \<open>C5: The parallel loop over the placements of one object ends, without undefined behaviour, with
  the lowest matching key, or the sentinel when no placement matches: whatever number of threads the
  runtime grants and whatever the interleaving of their atomic actions.\<close>

theorem lowest_matching_placement_any_schedule:
  assumes "picture_ok pic" "object_ok obj" "eps_ok eps" "thr \<noteq> NaN" "0 < span_of pic obj"
  shows "lowest_matching_placement granted sched pic obj thr eps (span_of pic obj * span_of pic obj)
      (span_of pic obj) threads =
    Some (case first_hit thr eps pic obj of None \<Rightarrow> MSEARCH_NO_PLACEMENT | Some k \<Rightarrow> k)"
  by (rule lowest_matching_placement_first_hit) (use assms in \<open>simp add: omp_ready_def\<close>)

definition two_hits :: Picture where
  "two_hits = \<lparr>p_id = 1, p_n = 2, p_data = Some [1, 3, 3, 1]\<rparr>"

definition one_cell :: Object where
  "one_cell = \<lparr>o_id = 9, o_m = 1, o_data = Some [3]\<rparr>"

theorem lowest_matching_placement_any_schedule_witness:
  "lowest_matching_placement 4 (\<lambda>t. 3 * t) two_hits one_cell (dof_int 1) MSEARCH_DEFAULT_ZERO_EPS 4 2 4 = Some 1"
proof -
  have sp: "span_of two_hits one_cell = 2" by code_simp
  have first: "first_hit (dof_int 1) MSEARCH_DEFAULT_ZERO_EPS two_hits one_cell = Some 1" by code_simp
  have "picture_ok two_hits" "object_ok one_cell" "dof_int 1 \<noteq> NaN" by code_simp+
  then show ?thesis
    using lowest_matching_placement_any_schedule [of two_hits one_cell MSEARCH_DEFAULT_ZERO_EPS "dof_int 1" 4 "\<lambda>t. 3 * t" 4]
    by (simp add: sp first eps_ok_default)
qed

text \<open>The thread count is the configured one when it is positive, else the environment's, else
  the node's cores shared among its ranks: never zero, and with the default never more in total than
  the node has, when each rank can have one at all.\<close>

theorem resolve_thread_count_policy:
  assumes "1 \<le> omp_max_threads pf"
  shows "\<exists>n \<ge> 1. resolve_thread_count pf cfg = Some n \<and>
    (0 < c_threads cfg \<longrightarrow> n = c_threads cfg) \<and>
    (c_threads cfg \<le> 0 \<longrightarrow> omp_num_threads_set pf \<longrightarrow> n = omp_max_threads pf) \<and>
    (c_threads cfg \<le> 0 \<longrightarrow> \<not> omp_num_threads_set pf \<longrightarrow> 1 \<le> c_node_ranks cfg \<longrightarrow>
       c_node_ranks cfg \<le> omp_max_threads pf \<longrightarrow> n * c_node_ranks cfg \<le> omp_max_threads pf)"
proof -
  define r where "r = (if c_node_ranks cfg > 0 then c_node_ranks cfg else 1)"
  have r: "0 < r" by (simp add: r_def)
  have "omp_max_threads pf div r * r \<le> omp_max_threads pf"
    using r by (simp add: minus_mod_eq_div_mult [symmetric])
  moreover have "0 < omp_max_threads pf div r" if "r \<le> omp_max_threads pf"
    using that r by (simp add: pos_imp_zdiv_pos_iff)
  ultimately show ?thesis
    using assms r by (auto simp: resolve_thread_count_def r_def [symmetric] Let_def) (auto simp: r_def)
qed

theorem resolve_thread_count_policy_witness:
  "\<exists>n \<ge> 1. resolve_thread_count \<lparr>omp_num_threads_set = False, omp_max_threads = 16\<rparr>
      (msearch_config_defaults\<lparr>c_node_ranks := 4\<rparr>) = Some n \<and> n * 4 \<le> 16"
  using resolve_thread_count_policy [of "\<lparr>omp_num_threads_set = False, omp_max_threads = 16\<rparr>"
      "msearch_config_defaults\<lparr>c_node_ranks := 4\<rparr>"]
  by (auto simp: msearch_config_defaults_def)

end
