(* ===== verification/Backend_CUDA.thy ===== *)
theory Backend_CUDA
  imports Backend
begin

text \<open>
  The GPU backend, \<open>src/backends/backend_cuda.cu\<close>. The kernel is a transition system over the threads of
  its grid: each walks the keys \<open>i, i + stride, i + 2 * stride, ...\<close>, gives up when the running minimum
  is at or below its key, and lowers the minimum with \<open>atomicMin\<close> on a hit; a schedule interleaves them.
  Whatever the schedule, the cell of the object ends with its lowest matching key, and once an object
  has matched the kernels of the later ones leave the results alone. The host side follows the source
  call by call: every checked call of the CUDA runtime can fail, and \<open>create\<close> then gives back what it
  took. The runtime library and the device are parameters (\<open>gpu\<close>, and the \<open>world\<close> of a search).
\<close>

section \<open>The kernel\<close>

text \<open>
  A thread of the grid: at the entry, where it looks for a lower object that matched; in the loop, with
  the key it looks at next; with a hit, in front of the \<open>atomicMin\<close>; returned.
\<close>

datatype cuda_thread = Entering | Looping int | Lowering int | Returned

record cuda_grid =
  results :: "cint list"
  threads :: "cuda_thread list"

record cuda_args =
  ka_picture :: "cint list"
  ka_n :: cint
  ka_object :: "cint list"
  ka_m :: cint
  ka_span :: cint
  ka_placements :: int
  ka_thr :: dbl
  ka_eps :: dbl
  ka_index :: cint

text \<open>The reads of \<open>results[j]\<close> below the object's own cell, which no thread of this grid writes.\<close>

function earlier_object_matched :: "cint list \<Rightarrow> cint \<Rightarrow> cint \<Rightarrow> bool option" where
  "earlier_object_matched rs j object_index =
     (if j < object_index then do {
        r \<leftarrow> load rs j;
        if r \<noteq> MSEARCH_NO_PLACEMENT then Some True else earlier_object_matched rs (j + 1) object_index
      } else Some False)"
  by pat_completeness auto
termination
  by (relation "measure (\<lambda>(rs, j, object_index). nat (object_index - j))") auto

declare earlier_object_matched.simps [simp del]

definition cuda_score :: "cuda_args \<Rightarrow> int \<Rightarrow> dbl option" where
  "cuda_score ka key = do {
     r \<leftarrow> c_div key (ka_span ka);
     c \<leftarrow> c_mod key (ka_span ka);
     msearch_score_at (ka_picture ka) (ka_n ka) (ka_object ka) (ka_m ka) (to_int r) (to_int c) (ka_thr ka) (ka_eps ka)
   }"

text \<open>
  One atomic action of thread \<open>i\<close>, which is thread \<open>i mod blockDim.x\<close> of block \<open>i div blockDim.x\<close>;
  \<open>gridDim.x * blockDim.x\<close> is the number of threads. The score reads only what no thread writes, so it
  belongs to the volatile read of \<open>best\<close> before it.
\<close>

fun cuda_step :: "cuda_args \<Rightarrow> cuda_grid \<Rightarrow> nat \<Rightarrow> cuda_grid option" where
  "cuda_step ka s i =
     (let stride = int (length (threads s)) in
      case threads s ! i of
        Entering \<Rightarrow> do {
          found \<leftarrow> earlier_object_matched (results s) 0 (ka_index ka);
          Some (s\<lparr>threads := (threads s)[i := if found then Returned else Looping (int i)]\<rparr>)
        }
      | Looping key \<Rightarrow>
          if key < ka_placements ka then do {
            best \<leftarrow> load (results s) (ka_index ka);
            if key \<ge> best then Some (s\<lparr>threads := (threads s)[i := Returned]\<rparr>)
            else do {
              score \<leftarrow> cuda_score ka key;
              if dlt score (ka_thr ka) then Some (s\<lparr>threads := (threads s)[i := Lowering key]\<rparr>)
              else do {
                key' \<leftarrow> chk64 (key + stride);
                Some (s\<lparr>threads := (threads s)[i := Looping key']\<rparr>)
              }
            }
          } else Some (s\<lparr>threads := (threads s)[i := Returned]\<rparr>)
      | Lowering key \<Rightarrow> do {
          best \<leftarrow> load (results s) (ka_index ka);
          rs \<leftarrow> store (results s) (ka_index ka) (min best (to_int key));
          key' \<leftarrow> chk64 (key + stride);
          Some (s\<lparr>results := rs, threads := (threads s)[i := Looping key']\<rparr>)
        }
      | Returned \<Rightarrow> Some s)"

declare cuda_step.simps [simp del]

definition running :: "cuda_thread list \<Rightarrow> nat list" where
  "running ts = filter (\<lambda>i. ts ! i \<noteq> Returned) [0..<length ts]"

text \<open>A measure that every step of a running thread decreases.\<close>

fun cuda_thread_work :: "int \<Rightarrow> nat \<Rightarrow> cuda_thread \<Rightarrow> nat" where
  "cuda_thread_work pl i Entering = 2 * nat (pl - int i) + 2"
| "cuda_thread_work pl i (Looping key) = 2 * nat (pl - key) + 1"
| "cuda_thread_work pl i (Lowering key) = 2 * nat (pl - (key + 1)) + 2"
| "cuda_thread_work pl i Returned = 0"

definition cuda_work :: "cuda_args \<Rightarrow> cuda_grid \<Rightarrow> nat" where
  "cuda_work ka s = (\<Sum>i<length (threads s). cuda_thread_work (ka_placements ka) i (threads s ! i))"

lemma cuda_work_replace:
  assumes "i < length (threads s)" "threads s' = (threads s)[i := th]"
    and "cuda_thread_work (ka_placements ka) i th < cuda_thread_work (ka_placements ka) i (threads s ! i)"
  shows "cuda_work ka s' < cuda_work ka s"
  unfolding cuda_work_def assms(2) length_list_update
  by (rule sum_strict_mono_ex1) (use assms in \<open>auto simp: nth_list_update\<close>)

lemma cuda_step_work:
  assumes "cuda_step ka s i = Some s'" "i \<in> set (running (threads s))"
  shows "cuda_work ka s' < cuda_work ka s"
proof -
  from assms(2) have i: "i < length (threads s)" "threads s ! i \<noteq> Returned" by (auto simp: running_def)
  show ?thesis
    using assms(1) i
    by (cases "threads s ! i")
      (auto simp: cuda_step.simps Let_def chk64_def split: if_splits bind_splits intro!: cuda_work_replace [OF i(1)])
qed

text \<open>The grid runs until every thread has returned, as \<open>sched\<close> interleaves them.\<close>

function cuda_run :: "cuda_args \<Rightarrow> (nat \<Rightarrow> nat) \<Rightarrow> nat \<Rightarrow> cuda_grid \<Rightarrow> cuda_grid option" where
  "cuda_run ka sched t s =
     (let rs = running (threads s) in
      if rs = [] then Some s
      else case cuda_step ka s (rs ! (sched t mod length rs)) of
             None \<Rightarrow> None
           | Some s' \<Rightarrow> cuda_run ka sched (t + 1) s')"
  by pat_completeness auto
termination
proof (relation "measure (\<lambda>(ka, sched, t, s). cuda_work ka s)")
  fix ka sched s rs s' and t :: nat
  assume "rs = running (threads s)" "rs \<noteq> []" "cuda_step ka s (rs ! (sched t mod length rs)) = Some s'"
  moreover from this have "rs ! (sched t mod length rs) \<in> set rs" by (intro nth_mem) simp
  ultimately have "cuda_work ka s' < cuda_work ka s" using cuda_step_work by simp
  then show "((ka, sched, t + 1, s'), (ka, sched, t, s)) \<in> measure (\<lambda>(ka, sched, t, s). cuda_work ka s)" by simp
qed simp

declare cuda_run.simps [simp del]

definition MSEARCH_CUDA_BLOCK :: int where
  "MSEARCH_CUDA_BLOCK = 256"

definition MSEARCH_CUDA_BLOCKS_PER_SM :: int where
  "MSEARCH_CUDA_BLOCKS_PER_SM = 32"

text \<open>A launch \<open><<<blocks, MSEARCH_CUDA_BLOCK>>>\<close>: the contents of \<open>results\<close> when the grid is done.\<close>

definition k_search_thread_per_placement :: "cuda_args \<Rightarrow> cint \<Rightarrow> (nat \<Rightarrow> nat) \<Rightarrow> cint list \<Rightarrow> cint list option" where
  "k_search_thread_per_placement ka blocks sched rs =
     map_option results
       (cuda_run ka sched 0 \<lparr>results = rs, threads = replicate (nat (blocks * MSEARCH_CUDA_BLOCK)) Entering\<rparr>)"

section \<open>The host side\<close>

text \<open>
  The device and its runtime library: the number of devices, the properties of each, the text the
  compiler puts for \<open>__FILE__:__LINE__\<close> of a checked call that begins on a line, and the outcome of the
  calls \<open>create\<close> makes when the heap is \<open>h\<close>: \<open>g_fault g h call k\<close> is the error string of the \<open>k\<close>-th
  execution of \<open>call\<close>, or \<open>None\<close> for \<open>cudaSuccess\<close>. The calls of \<open>search\<close> are resolved by its \<open>world\<close>.
\<close>

record gpu =
  g_count_error :: "string option"
  g_count :: cint
  g_name :: "cint \<Rightarrow> string"
  g_sms :: "cint \<Rightarrow> cint"
  g_where :: "int \<Rightarrow> string"
  g_fault :: "heap \<Rightarrow> string \<Rightarrow> cint \<Rightarrow> string option"

text \<open>
  A step of a function with a \<open>fail\<close> label: \<open>None\<close> is undefined behaviour, \<open>Inl\<close> the jump to the label
  with the status, the message buffer and the state at the jump, \<open>Inr\<close> the state after the step.
\<close>

type_synonym 's attempt = "(Status \<times> errbuf \<times> 's + 's) option"

definition and_then :: "'s attempt \<Rightarrow> ('s \<Rightarrow> 's attempt) \<Rightarrow> 's attempt" where
  "and_then m f = (case m of None \<Rightarrow> None | Some (Inl e) \<Rightarrow> Some (Inl e) | Some (Inr s) \<Rightarrow> f s)"

definition goto_fail :: "Status \<Rightarrow> string \<Rightarrow> errbuf \<Rightarrow> 's \<Rightarrow> 's attempt" where
  "goto_fail st msg err s = Some (Inl (st, msearch_set_err err msg, s))"

definition CUDA_CHECK ::
  "gpu \<Rightarrow> (string \<Rightarrow> cint \<Rightarrow> string option) \<Rightarrow> int \<Rightarrow> string \<Rightarrow> cint \<Rightarrow> errbuf \<Rightarrow> 's \<Rightarrow> 's \<Rightarrow> 's attempt" where
  "CUDA_CHECK g fault line call k err s s' =
     (case fault call k of
        None \<Rightarrow> Some (Inr s')
      | Some msg \<Rightarrow> goto_fail MSEARCH_ERR_BACKEND
          (''CUDA error in '' @ call @ '' ('' @ g_where g line @ ''): '' @ msg) err s)"

definition cuda_available :: "gpu \<Rightarrow> platform \<Rightarrow> errbuf \<Rightarrow> bool \<times> errbuf" where
  "cuda_available g pf reason =
     (case g_count_error g of
        Some msg \<Rightarrow> (False, msearch_set_err reason (''cudaGetDeviceCount: '' @ msg))
      | None \<Rightarrow> if g_count g \<le> 0 then (False, msearch_set_err reason ''no CUDA device visible'')
                else (True, reason))"

text \<open>\<open>cuda_destroy\<close>: every resource the context holds goes back; the device calls cannot fail it.\<close>

fun cuda_destroy :: "backend_ctx option \<Rightarrow> heap \<Rightarrow> heap" where
  "cuda_destroy (Some (CudaCtx c)) h =
     (let h1 = (if cu_stream c then h\<lparr>live := live h - 1\<rparr> else h);
          h2 = mem_free (cu_d_objects c) h1;
          h3 = mem_free (cu_d_picture c) h2;
          h4 = mem_free (cu_d_results c) h3;
          h5 = mem_free (cu_h_results c) h4;
          h6 = mem_free (cu_h_picture c) h5;
          h7 = mem_free (cu_obj_offset c) h6
      in mem_free (Some c) h7)"
| "cuda_destroy _ h = h"

text \<open>What \<open>cuda_create\<close> builds up: the context, the heap and the log. A device or pinned allocation counts
  as one of the live blocks.\<close>

type_synonym cuda_build = "CudaContext \<times> heap \<times> log_event list"

definition cuda_blank :: "Problem \<Rightarrow> dbl \<Rightarrow> CudaContext" where
  "cuda_blank p eps =
     \<lparr>cu_problem = p, cu_zero_eps = eps, cu_device = 0, cu_sm_count = 0, cu_stream = False, cu_d_objects = None,
      cu_obj_offset = None, cu_d_picture = None, cu_d_results = None, cu_h_results = None, cu_h_picture = None,
      cu_picture_capacity = 0\<rparr>"

definition taken :: "heap \<Rightarrow> heap" where
  "taken h = h\<lparr>live := live h + 1\<rparr>"

definition elems_of :: "cint \<Rightarrow> int" where
  "elems_of side = size_t (size_t side * size_t side)"

function total_elems :: "Problem \<Rightarrow> cint \<Rightarrow> int \<Rightarrow> int option" where
  "total_elems p k total_object_elems =
     (if k < num_objects p then do {
        obj \<leftarrow> load (objects p) k;
        k' \<leftarrow> chk32 (k + 1);
        total_elems p k' (size_t (total_object_elems + elems_of (o_m obj)))
      } else Some total_object_elems)"
  by pat_completeness auto
termination
  by (relation "measure (\<lambda>(p, k, total_object_elems). nat (num_objects p - k))") auto

text \<open>A copy of \<open>n\<close> elements into an array at an offset; undefined outside either array.\<close>

definition copy_into :: "cint list \<Rightarrow> int \<Rightarrow> cint list \<Rightarrow> int \<Rightarrow> cint list option" where
  "copy_into dst off src n =
     (if 0 \<le> off \<and> 0 \<le> n \<and> n \<le> int (length src) \<and> off + n \<le> int (length dst)
      then Some (take (nat off) dst @ take (nat n) src @ drop (nat (off + n)) dst) else None)"

function upload_objects ::
  "gpu \<Rightarrow> (string \<Rightarrow> cint \<Rightarrow> string option) \<Rightarrow> Problem \<Rightarrow> errbuf \<Rightarrow> cint \<Rightarrow> int \<Rightarrow> int list \<Rightarrow> cint list \<Rightarrow>
    (int list \<times> cint list) attempt" where
  "upload_objects g fault p err k offset offs dst =
     (if k < num_objects p then do {
        obj \<leftarrow> load (objects p) k;
        let elems = elems_of (o_m obj);
        offs' \<leftarrow> store offs k offset;
        src \<leftarrow> o_data obj;
        dst' \<leftarrow> copy_into dst offset src elems;
        and_then
          (CUDA_CHECK g fault 219
             ''cudaMemcpy(c->d_objects + offset, problem->objects[k].data, elems * sizeof(int), cudaMemcpyHostToDevice)''
             k err (offs', dst) (offs', dst'))
          (\<lambda>(offs2, dst2). upload_objects g fault p err (k + 1) (size_t (offset + elems)) offs2 dst2)
      } else Some (Inr (offs, dst)))"
  by pat_completeness auto
termination
  by (relation "measure (\<lambda>(g, fault, p, err, k, offset, offs, dst). nat (num_objects p - k))") auto

text \<open>The two fields the loop writes, put back in the context.\<close>

definition with_objects :: "cuda_build \<Rightarrow> (int list \<times> cint list) attempt \<Rightarrow> cuda_build attempt" where
  "with_objects s m =
     (let put = (\<lambda>(offs, dst). case s of (c, h, lg) \<Rightarrow> (c\<lparr>cu_obj_offset := Some offs, cu_d_objects := Some dst\<rparr>, h, lg)) in
      map_option (map_sum (\<lambda>(st, err, x). (st, err, put x)) put) m)"

declare total_elems.simps [simp del] upload_objects.simps [simp del]

text \<open>
  The body of \<open>cuda_create\<close> after the allocation of the context, up to the return or the \<open>fail\<close> label, in
  parts: choosing the device, uploading the objects, reserving the result and the picture buffers.
\<close>

definition create_device ::
  "gpu \<Rightarrow> (string \<Rightarrow> cint \<Rightarrow> string option) \<Rightarrow> Config \<Rightarrow> errbuf \<Rightarrow> cuda_build \<Rightarrow> cuda_build attempt" where
  "create_device g fault cfg err s =
     and_then (CUDA_CHECK g fault 183 ''cudaGetDeviceCount(&device_count)'' 0 err s s) (\<lambda>s.
     if g_count g \<le> 0 then goto_fail MSEARCH_ERR_UNAVAILABLE ''no CUDA device visible'' err s
     else do {
       dev \<leftarrow> (if c_device cfg \<ge> 0 then Some (c_device cfg) else c_mod (c_node_rank cfg) (g_count g));
       let s = (case s of (c, h, lg) \<Rightarrow> (c\<lparr>cu_device := dev\<rparr>, h, lg));
       if dev \<ge> g_count g
       then goto_fail MSEARCH_ERR_INVALID
         (''device '' @ show_int dev @ '' requested but only '' @ show_int (g_count g) @ '' visible'') err s
       else
         and_then (CUDA_CHECK g fault 197 ''cudaSetDevice(c->device)'' 0 err s s) (\<lambda>s.
         and_then (CUDA_CHECK g fault 198 ''cudaGetDeviceProperties(&prop, c->device)'' 0 err s s) (\<lambda>(c, h, lg).
         let s = (c\<lparr>cu_sm_count := g_sms g dev\<rparr>, h,
                  lg @ [(LOG_INFO, ''cuda backend: device '' @ show_int dev @ '' ('' @ g_name g dev @ '', '' @
                           show_int (g_sms g dev) @ '' SMs)'')]) in
         CUDA_CHECK g fault 202 ''cudaStreamCreate(&c->stream)'' 0 err s
           (case s of (c, h, lg) \<Rightarrow> (c\<lparr>cu_stream := True\<rparr>, taken h, lg))))
     })"

definition create_results ::
  "gpu \<Rightarrow> (string \<Rightarrow> cint \<Rightarrow> string option) \<Rightarrow> Problem \<Rightarrow> errbuf \<Rightarrow> cuda_build \<Rightarrow> cuda_build attempt" where
  "create_results g fault p err s =
     and_then (CUDA_CHECK g fault 223 ''cudaMalloc(&c->d_results, (size_t)problem->num_objects * sizeof(int))'' 0 err s
         (case s of (c, h, lg) \<Rightarrow> (c\<lparr>cu_d_results := Some (ints_in (size_t (num_objects p)))\<rparr>, taken h, lg))) (\<lambda>s.
     CUDA_CHECK g fault 224 ''cudaMallocHost(&c->h_results, (size_t)problem->num_objects * sizeof(int))'' 0 err s
       (case s of (c, h, lg) \<Rightarrow> (c\<lparr>cu_h_results := Some (ints_in (size_t (num_objects p)))\<rparr>, taken h, lg)))"

definition create_objects ::
  "gpu \<Rightarrow> (string \<Rightarrow> cint \<Rightarrow> string option) \<Rightarrow> env \<Rightarrow> Problem \<Rightarrow> errbuf \<Rightarrow> cuda_build \<Rightarrow> cuda_build attempt" where
  "create_objects g fault env p err s = do {
     total \<leftarrow> total_elems p 0 0;
     if num_objects p > 0 then do {
       let (c, h, lg) = s;
       let (ok, h1) = mem_alloc env h;
       if \<not> ok then goto_fail MSEARCH_ERR_NOMEM ''cannot allocate object offset table'' err (c, h1, lg)
       else let offs = replicate (nat (num_objects p)) 0; c1 = c\<lparr>cu_obj_offset := Some offs\<rparr>;
                dst = map (junk env) [0..<ints_in total] in
         and_then (CUDA_CHECK g fault 215 ''cudaMalloc(&c->d_objects, total_object_elems * sizeof(int))'' 0 err
             (c1, h1, lg) (c1\<lparr>cu_d_objects := Some dst\<rparr>, taken h1, lg)) (\<lambda>s.
         and_then (with_objects s (upload_objects g fault p err 0 0 offs dst)) (create_results g fault p err))
     } else Some (Inr s)
   }"

definition create_pictures ::
  "gpu \<Rightarrow> (string \<Rightarrow> cint \<Rightarrow> string option) \<Rightarrow> Problem \<Rightarrow> errbuf \<Rightarrow> cuda_build \<Rightarrow> cuda_build attempt" where
  "create_pictures g fault p err s = do {
     cap \<leftarrow> msearch_max_picture_elems p;
     let s = (case s of (c, h, lg) \<Rightarrow> (c\<lparr>cu_picture_capacity := cap\<rparr>, h, lg));
     if cap > 0 then
       and_then (CUDA_CHECK g fault 230 ''cudaMalloc(&c->d_picture, c->picture_capacity * sizeof(int))'' 0 err s
           (case s of (c, h, lg) \<Rightarrow> (c\<lparr>cu_d_picture := Some (ints_in cap)\<rparr>, taken h, lg))) (\<lambda>s.
       CUDA_CHECK g fault 233 ''cudaMallocHost(&c->h_picture, c->picture_capacity * sizeof(int))'' 0 err s
         (case s of (c, h, lg) \<Rightarrow> (c\<lparr>cu_h_picture := Some (ints_in cap)\<rparr>, taken h, lg)))
     else Some (Inr s)
   }"

definition create_body ::
  "gpu \<Rightarrow> (string \<Rightarrow> cint \<Rightarrow> string option) \<Rightarrow> env \<Rightarrow> Problem \<Rightarrow> Config \<Rightarrow> errbuf \<Rightarrow> cuda_build \<Rightarrow> cuda_build attempt" where
  "create_body g fault env p cfg err s =
     and_then (create_device g fault cfg err s) (\<lambda>s.
     and_then (create_objects g fault env p err s) (create_pictures g fault p err))"

text \<open>
  A body that is undefined, which \<open>create_body_defined\<close> rules out for a loaded problem, is given the value
  of a failure: the table's \<open>create\<close> is a total function.
\<close>

definition cuda_create ::
  "gpu \<Rightarrow> platform \<Rightarrow> env \<Rightarrow> Problem \<Rightarrow> Config \<Rightarrow> errbuf \<Rightarrow> heap \<Rightarrow>
    Status \<times> backend_ctx option \<times> errbuf \<times> log_event list \<times> heap" where
  "cuda_create g pf env p cfg err h =
     (let (ok, h1) = mem_alloc env h in
      if \<not> ok then (MSEARCH_ERR_NOMEM, None, msearch_set_err err ''cannot allocate CUDA context'', [], h1)
      else case create_body g (g_fault g h) env p cfg err (cuda_blank p (c_zero_eps cfg), h1, []) of
          None \<Rightarrow> (MSEARCH_ERR_BACKEND, None, err, [], h)
        | Some (Inl (st, err', c, h', lg)) \<Rightarrow> (st, None, err', lg, cuda_destroy (Some (CudaCtx c)) h')
        | Some (Inr (c, h', lg)) \<Rightarrow> (MSEARCH_OK, Some (CudaCtx c), err, lg, h'))"

section \<open>A search\<close>

text \<open>
  A buffer as a search finds it: of its size, with whatever the calls before left in it. \<open>overwrite\<close> is the
  copy of \<open>n\<close> elements to its start, undefined when the pointer is null or one of the two is shorter.
\<close>

definition overwrite :: "nat option \<Rightarrow> (nat \<Rightarrow> cint) \<Rightarrow> cint list \<Rightarrow> int \<Rightarrow> cint list option" where
  "overwrite buf stale src n = do {
     len \<leftarrow> buf;
     copy_into (map stale [0..<len]) 0 src n
   }"

text \<open>
  The loop that queues one kernel per object. The stream runs them in this order, each to its end before
  the next begins, so the model runs a kernel where it is launched.
\<close>

function launch_kernels ::
  "gpu \<Rightarrow> CudaContext \<Rightarrow> world \<Rightarrow> cint list \<Rightarrow> cint \<Rightarrow> cint \<Rightarrow> errbuf \<Rightarrow> cint \<Rightarrow> cint list \<Rightarrow> cint list attempt" where
  "launch_kernels g c w d_picture n max_blocks err k rs =
     (let p = cu_problem c in
      if k < num_objects p then do {
        obj \<leftarrow> load (objects p) k;
        placements \<leftarrow> msearch_placement_count n (o_m obj);
        if placements = 0 then launch_kernels g c w d_picture n max_blocks err (k + 1) rs
        else do {
          d \<leftarrow> chk32 (n - o_m obj);
          sp \<leftarrow> chk32 (d + 1);
          d_objects \<leftarrow> cu_d_objects c;
          offs \<leftarrow> cu_obj_offset c;
          off \<leftarrow> load offs k;
          start \<leftarrow> ptr_add d_objects off;
          up \<leftarrow> chk64 (placements + MSEARCH_CUDA_BLOCK - 1);
          all \<leftarrow> c_div up MSEARCH_CUDA_BLOCK;
          let want = (if all > max_blocks then max_blocks else all);
          let blocks = to_int (if want > 0 then want else 1);
          rs' \<leftarrow> k_search_thread_per_placement
            \<lparr>ka_picture = d_picture, ka_n = n, ka_object = drop (nat start) d_objects, ka_m = o_m obj, ka_span = sp,
              ka_placements = placements, ka_thr = threshold p, ka_eps = cu_zero_eps c, ka_index = k\<rparr>
            blocks (w_sched w k) rs;
          and_then (CUDA_CHECK g (w_cuda w) 294 ''cudaGetLastError()'' k err rs rs')
            (launch_kernels g c w d_picture n max_blocks err (k + 1))
        }
      } else Some (Inr rs))"
  by pat_completeness auto
termination
  by (relation "measure (\<lambda>(g, c, w, d_picture, n, max_blocks, err, k, rs). nat (num_objects (cu_problem c) - k))") auto

text \<open>The scan of the copied-back results.\<close>

function first_result :: "Problem \<Rightarrow> Picture \<Rightarrow> cint list \<Rightarrow> cint \<Rightarrow> Match \<Rightarrow> Match option" where
  "first_result p pic rs k out =
     (if k < num_objects p then do {
        r \<leftarrow> load rs k;
        if r \<noteq> MSEARCH_NO_PLACEMENT then do {
          obj \<leftarrow> load (objects p) k;
          d \<leftarrow> chk32 (p_n pic - o_m obj);
          sp \<leftarrow> chk32 (d + 1);
          row \<leftarrow> c_div r sp;
          col \<leftarrow> c_mod r sp;
          Some (out\<lparr>m_object_id := o_id obj, m_row := row, m_col := col\<rparr>)
        } else first_result p pic rs (k + 1) out
      } else Some out)"
  by pat_completeness auto
termination
  by (relation "measure (\<lambda>(p, pic, rs, k, out). nat (num_objects p - k))") auto

declare launch_kernels.simps [simp del] first_result.simps [simp del]

text \<open>From \<open>cudaSetDevice\<close> to the synchronisation: the contents of \<open>h_results\<close> at its end.\<close>

definition run_stream :: "gpu \<Rightarrow> CudaContext \<Rightarrow> world \<Rightarrow> Picture \<Rightarrow> cint \<Rightarrow> errbuf \<Rightarrow> cint list attempt" where
  "run_stream g c w pic max_blocks err =
     (let p = cu_problem c; elems = elems_of (p_n pic); K = num_objects p; none = replicate (nat K) MSEARCH_NO_PLACEMENT in
      and_then (CUDA_CHECK g (w_cuda w) 257 ''cudaSetDevice(c->device)'' 0 err [] []) (\<lambda>_. do {
        data \<leftarrow> p_data pic;
        h_picture \<leftarrow> overwrite (cu_h_picture c) (w_stale w ''h_picture'') data elems;
        d_picture \<leftarrow> overwrite (cu_d_picture c) (w_stale w ''d_picture'') h_picture elems;
        and_then (CUDA_CHECK g (w_cuda w) 261
            ''cudaMemcpyAsync(c->d_picture, c->h_picture, picture_elems * sizeof(int), cudaMemcpyHostToDevice, c->stream)''
            0 err [] []) (\<lambda>_. do {
          h_results \<leftarrow> overwrite (cu_h_results c) (w_stale w ''h_results'') none K;
          d_results \<leftarrow> overwrite (cu_d_results c) (w_stale w ''d_results'') h_results K;
          and_then (CUDA_CHECK g (w_cuda w) 269
              ''cudaMemcpyAsync(c->d_results, c->h_results, (size_t)problem->num_objects * sizeof(int), cudaMemcpyHostToDevice, c->stream)''
              0 err [] d_results) (\<lambda>d_results.
          and_then (launch_kernels g c w d_picture (p_n pic) max_blocks err 0 d_results) (\<lambda>d_results. do {
            copied \<leftarrow> copy_into h_results 0 d_results K;
            and_then (CUDA_CHECK g (w_cuda w) 297
                ''cudaMemcpyAsync(c->h_results, c->d_results, (size_t)problem->num_objects * sizeof(int), cudaMemcpyDeviceToHost, c->stream)''
                0 err [] copied)
              (\<lambda>copied. CUDA_CHECK g (w_cuda w) 300 ''cudaStreamSynchronize(c->stream)'' 0 err [] copied)
          }))
        })
      }))"

fun cuda_search :: "gpu \<Rightarrow> backend_ctx \<Rightarrow> world \<Rightarrow> Picture \<Rightarrow> errbuf \<Rightarrow> (Status \<times> Match \<times> errbuf) option" where
  "cuda_search g (CudaCtx c) w pic err = do {
     max_blocks \<leftarrow> chk32 (cu_sm_count c * MSEARCH_CUDA_BLOCKS_PER_SM);
     let out = msearch_match_none (p_id pic);
     if num_objects (cu_problem c) = 0 then Some (MSEARCH_OK, out, err)
     else do {
       r \<leftarrow> run_stream g c w pic max_blocks err;
       case r of
         Inl (st, err', rs) \<Rightarrow> Some (st, out, err')
       | Inr rs \<Rightarrow> do {
           out' \<leftarrow> first_result (cu_problem c) pic rs 0 out;
           Some (MSEARCH_OK, out', err)
         }
     }
   }"
| "cuda_search g _ w pic err = None"

definition msearch_backend_cuda :: "gpu \<Rightarrow> MatchBackend" where
  "msearch_backend_cuda g =
     \<lparr>b_name = ''cuda'', b_description = ''NVIDIA GPU (CUDA, persistent buffers, one thread per placement)'',
      b_available = cuda_available g, b_create = cuda_create g, b_search = cuda_search g,
      b_destroy = cuda_destroy\<rparr>"

section \<open>Every schedule finds the lowest key\<close>

text \<open>
  The invariant of a grid whose object has no lower one that matched: the cell of the object is absent or
  a hit, and a thread at a key has settled every key of its own below it: such a hit is at or above the
  cell.
\<close>

record kernel_goal =
  kg_hit :: "int \<Rightarrow> bool"
  kg_pl :: int
  kg_cell :: nat

definition settled :: "kernel_goal \<Rightarrow> cint \<Rightarrow> nat \<Rightarrow> nat \<Rightarrow> int \<Rightarrow> bool" where
  "settled kg best stride i key \<longleftrightarrow>
     (\<forall>h. 0 \<le> h \<longrightarrow> h < key \<longrightarrow> h < kg_pl kg \<longrightarrow> h mod int stride = int i \<longrightarrow> kg_hit kg h \<longrightarrow> best \<le> h)"

fun cuda_thread_ok :: "kernel_goal \<Rightarrow> cint \<Rightarrow> nat \<Rightarrow> nat \<Rightarrow> cuda_thread \<Rightarrow> bool" where
  "cuda_thread_ok kg best stride i Entering = True"
| "cuda_thread_ok kg best stride i (Looping key) =
     (0 \<le> key \<and> key < kg_pl kg + int stride \<and> key mod int stride = int i \<and> settled kg best stride i key)"
| "cuda_thread_ok kg best stride i (Lowering key) =
     (0 \<le> key \<and> key < kg_pl kg \<and> key mod int stride = int i \<and> settled kg best stride i key \<and> kg_hit kg key)"
| "cuda_thread_ok kg best stride i Returned = settled kg best stride i (kg_pl kg)"

definition cell_ok :: "kernel_goal \<Rightarrow> cint \<Rightarrow> bool" where
  "cell_ok kg best \<longleftrightarrow> best = MSEARCH_NO_PLACEMENT \<or> 0 \<le> best \<and> best < kg_pl kg \<and> kg_hit kg best"

definition cuda_inv :: "kernel_goal \<Rightarrow> cint list \<Rightarrow> cuda_grid \<Rightarrow> bool" where
  "cuda_inv kg rs s \<longleftrightarrow>
     (let best = results s ! kg_cell kg in
      results s = rs[kg_cell kg := best] \<and> cell_ok kg best \<and>
      (\<forall>i < length (threads s). cuda_thread_ok kg best (length (threads s)) i (threads s ! i)))"

lemma settled_mono: "settled kg best stride i key \<Longrightarrow> best' \<le> best \<Longrightarrow> settled kg best' stride i key"
  by (force simp: settled_def)

lemma cuda_thread_ok_mono:
  "cuda_thread_ok kg best stride i th \<Longrightarrow> best' \<le> best \<Longrightarrow> cuda_thread_ok kg best' stride i th"
  by (cases th) (auto intro: settled_mono)

text \<open>From a key of a thread to its next one there is no other key of that thread.\<close>

lemma residue_gap:
  assumes "h mod s = k mod s" "k \<le> h" "h < k + (s::int)"
  shows "h = k"
proof -
  have "(h - k) mod s = 0" using assms(1) by (simp add: mod_eq_dvd_iff flip: dvd_eq_mod_eq_0)
  moreover have "(h - k) mod s = h - k" using assms by (intro mod_pos_pos_trivial) auto
  ultimately show ?thesis by simp
qed

lemma settled_next:
  assumes "settled kg best stride i key" "key mod int stride = int i" "kg_hit kg key \<Longrightarrow> key < kg_pl kg \<Longrightarrow> best \<le> key"
  shows "settled kg best stride i (key + int stride)"
  unfolding settled_def
proof (intro allI impI)
  fix h assume h: "0 \<le> h" "h < key + int stride" "h < kg_pl kg" "h mod int stride = int i" "kg_hit kg h"
  show "best \<le> h"
  proof (cases "h < key")
    case True
    with h assms(1) show ?thesis by (simp add: settled_def)
  next
    case False
    with h assms(2) have "h = key" by (intro residue_gap [of h "int stride" key]) auto
    with h assms(3) show ?thesis by simp
  qed
qed

lemma settled_above: "settled kg best stride i key \<Longrightarrow> best \<le> key \<Longrightarrow> settled kg best stride i k"
  by (force simp: settled_def)

lemma settled_end: "settled kg best stride i key \<Longrightarrow> kg_pl kg \<le> key \<Longrightarrow> settled kg best stride i (kg_pl kg)"
  by (force simp: settled_def)

lemma cuda_inv_replace:
  assumes "cuda_inv kg rs s" "i < length (threads s)" "threads s' = (threads s)[i := th]" "kg_cell kg < length rs"
    and "results s' = (results s)[kg_cell kg := best']" "best' \<le> results s ! kg_cell kg" "cell_ok kg best'"
    and "cuda_thread_ok kg best' (length (threads s)) i th"
  shows "cuda_inv kg rs s'"
proof -
  let ?c = "kg_cell kg"
  have rs: "results s = rs[?c := results s ! ?c]" and ok: "\<forall>i < length (threads s). cuda_thread_ok kg (results s ! ?c)
      (length (threads s)) i (threads s ! i)"
    using assms(1) unfolding cuda_inv_def Let_def by blast+
  have len: "length (results s) = length rs" by (subst rs) simp
  then have b: "results s' ! ?c = best'" using assms(4,5) by simp
  have "results s' = rs[?c := best']" unfolding assms(5) by (subst rs) simp
  moreover have "cuda_thread_ok kg best' (length (threads s)) j (threads s' ! j)" if "j < length (threads s)" for j
    using that ok assms(2,3,6,8) cuda_thread_ok_mono by (cases "j = i") auto
  ultimately show ?thesis using b assms(3,7) by (simp add: cuda_inv_def)
qed


text \<open>What the arguments of a kernel must be for its goal, and the two outcomes of the entry test.\<close>

definition serves :: "cuda_args \<Rightarrow> kernel_goal \<Rightarrow> nat \<Rightarrow> cint list \<Rightarrow> bool" where
  "serves ka kg stride rs \<longleftrightarrow>
     0 \<le> ka_index ka \<and> kg_cell kg = nat (ka_index ka) \<and> kg_cell kg < length rs \<and> kg_pl kg = ka_placements ka \<and>
     0 \<le> kg_pl kg \<and> int32 (kg_pl kg) \<and> int64 (kg_pl kg + 2 * int stride) \<and>
     (\<forall>key. 0 \<le> key \<longrightarrow> key < kg_pl kg \<longrightarrow> (\<exists>r. cuda_score ka key = Some r \<and> dlt r (ka_thr ka) = kg_hit kg key))"

lemma earlier_object_matched_iff:
  assumes "nat k \<le> length rs" "0 \<le> j"
  shows "earlier_object_matched rs j k = Some (\<exists>i < nat k. nat j \<le> i \<and> rs ! i \<noteq> MSEARCH_NO_PLACEMENT)"
  using assms
proof (induction rs j k rule: earlier_object_matched.induct)
  case (1 rs j k)
  show ?case
  proof (cases "j < k")
    case False
    with 1(3) show ?thesis by (subst earlier_object_matched.simps) auto
  next
    case True
    with 1(2,3) have j: "nat j < length rs" "nat j < nat k" "load rs j = Some (rs ! nat j)" by auto
    have ge: "nat (j + 1) \<le> i \<longleftrightarrow> nat j \<le> i \<and> i \<noteq> nat j" for i using 1(3) by auto
    show ?thesis
    proof (cases "rs ! nat j = MSEARCH_NO_PLACEMENT")
      case True
      have "earlier_object_matched rs j k = earlier_object_matched rs (j + 1) k"
        using True j \<open>j < k\<close> by (subst earlier_object_matched.simps) simp
      also have "\<dots> = Some (\<exists>i < nat k. nat (j + 1) \<le> i \<and> rs ! i \<noteq> MSEARCH_NO_PLACEMENT)"
        using 1(1) [OF \<open>j < k\<close> j(3)] 1(2,3) True by simp
      finally show ?thesis using True unfolding ge by auto
    next
      case False
      with j \<open>j < k\<close> show ?thesis by (subst earlier_object_matched.simps) (auto intro!: exI [of _ "nat j"])
    qed
  qed
qed

lemma cuda_step_inv:
  assumes sv: "serves ka kg (length (threads s)) rs" and inv: "cuda_inv kg rs s"
    and none: "\<forall>j < kg_cell kg. rs ! j = MSEARCH_NO_PLACEMENT" and i: "i \<in> set (running (threads s))"
  obtains s' where "cuda_step ka s i = Some s'" "cuda_inv kg rs s'"
proof -
  let ?c = "kg_cell kg" and ?st = "length (threads s)"
  define best where "best = results s ! ?c"
  from i have i: "i < ?st" "threads s ! i \<noteq> Returned" by (auto simp: running_def)
  note sv' = sv [unfolded serves_def]
  have rs: "results s = rs[?c := best]" and cell: "cell_ok kg best"
    and th: "cuda_thread_ok kg best ?st i (threads s ! i)"
    using inv i by (auto simp: cuda_inv_def Let_def best_def)
  have ld: "load (results s) (ka_index ka) = Some best" and ix: "nat (ka_index ka) = ?c"
    using sv' unfolding rs by auto
  have keep: "cuda_inv kg rs (s\<lparr>threads := (threads s)[i := x]\<rparr>)" if "cuda_thread_ok kg best ?st i x" for x
    by (rule cuda_inv_replace [OF inv i(1), of _ x best])
      (use that sv' cell in \<open>auto simp: rs\<close>)
  have st: "0 < ?st" using i(1) by (cases "threads s") auto
  show thesis
  proof (cases "threads s ! i")
    case Entering
    have "earlier_object_matched (results s) 0 (ka_index ka) =
        Some (\<exists>j < ?c. 0 \<le> j \<and> results s ! j \<noteq> MSEARCH_NO_PLACEMENT)"
      by (subst earlier_object_matched_iff) (use sv' rs in auto)
    also have "\<dots> = Some False" unfolding rs using none by auto
    finally have "cuda_step ka s i = Some (s\<lparr>threads := (threads s)[i := Looping (int i)]\<rparr>)"
      by (simp add: cuda_step.simps Entering Let_def)
    moreover have "cuda_thread_ok kg best ?st i (Looping (int i))"
      using i(1) sv' by (auto simp: settled_def)
    ultimately show thesis using keep that by blast
  next
    case (Looping key)
    with th have key: "0 \<le> key" "key < kg_pl kg + int ?st" "key mod int ?st = int i" "settled kg best ?st i key" by simp_all
    consider "kg_pl kg \<le> key" | "key < kg_pl kg" "best \<le> key" | "key < kg_pl kg" "key < best" by linarith
    then show thesis
    proof cases
      case 1
      then have "cuda_step ka s i = Some (s\<lparr>threads := (threads s)[i := Returned]\<rparr>)"
        using Looping sv' by (simp add: cuda_step.simps)
      with keep [of Returned] settled_end [OF key(4) 1] that show thesis by simp
    next
      case 2
      then have "cuda_step ka s i = Some (s\<lparr>threads := (threads s)[i := Returned]\<rparr>)"
        using Looping sv' ld by (simp add: cuda_step.simps)
      with keep [of Returned] settled_above [OF key(4) 2(2)] that show thesis by simp
    next
      case 3
      obtain r where r: "cuda_score ka key = Some r" "dlt r (ka_thr ka) = kg_hit kg key"
        using sv' key(1) 3(1) by blast
      define x where "x = (if kg_hit kg key then Lowering key else Looping (key + int ?st))"
      have "int64 (key + int ?st)" using sv' key(1) 3(1) by (simp add: int_ranges)
      then have "cuda_step ka s i = Some (s\<lparr>threads := (threads s)[i := x]\<rparr>)"
        using Looping 3 sv' ld r by (simp add: cuda_step.simps x_def)
      moreover have "cuda_thread_ok kg best ?st i x"
        using key 3 settled_next [OF key(4,3)] by (cases "kg_hit kg key") (simp_all add: x_def)
      ultimately show thesis using keep that by blast
    qed
  next
    case (Lowering key)
    with th have key: "0 \<le> key" "key < kg_pl kg" "key mod int ?st = int i" "settled kg best ?st i key" "kg_hit kg key"
      by simp_all
    let ?b = "min best key"
    let ?s = "s\<lparr>results := (results s)[?c := ?b], threads := (threads s)[i := Looping (key + int ?st)]\<rparr>"
    have "int32 key" "int64 (key + int ?st)" using sv' key(1,2) by (simp_all add: int_ranges)
    moreover have "store (results s) (ka_index ka) ?b = Some ((results s)[?c := ?b])"
      unfolding ix [symmetric] by (rule store_Some) (use sv' in \<open>auto simp: rs\<close>)
    ultimately have step: "cuda_step ka s i = Some ?s" using Lowering ld by (simp add: cuda_step.simps)
    have "settled kg ?b ?st i (key + int ?st)"
      by (rule settled_next [OF settled_mono [OF key(4)] key(3)]) simp_all
    then have "cuda_inv kg rs ?s"
      by (intro cuda_inv_replace [OF inv i(1), of _ "Looping (key + int ?st)" ?b])
        (use key sv' cell in \<open>auto simp: cell_ok_def min_def best_def\<close>)
    with step that show thesis by blast
  qed (use i in simp)
qed

lemma cuda_step_length: "cuda_step ka s i = Some s' \<Longrightarrow> length (threads s') = length (threads s)"
  by (auto simp: cuda_step.simps Let_def split: cuda_thread.splits if_splits bind_splits)

text \<open>A property of grids that every step of a running thread keeps holds when the grid is done.\<close>

lemma cuda_run_induct:
  assumes "Q s" and "\<And>s i. Q s \<Longrightarrow> length (threads s) = n \<Longrightarrow> i \<in> set (running (threads s)) \<Longrightarrow> \<exists>s'. cuda_step ka s i = Some s' \<and> Q s'"
    and "length (threads s) = n"
  shows "\<exists>s'. cuda_run ka sched t s = Some s' \<and> Q s' \<and> running (threads s') = [] \<and> length (threads s') = n"
  using assms(1,3)
proof (induction "cuda_work ka s" arbitrary: s t rule: less_induct)
  case less
  let ?rs = "running (threads s)"
  show ?case
  proof (cases "?rs = []")
    case True
    with less.prems show ?thesis by (subst cuda_run.simps) simp
  next
    case False
    then have i: "?rs ! (sched t mod length ?rs) \<in> set ?rs" by simp
    from assms(2) [OF less.prems i] obtain s' where
      s': "cuda_step ka s (?rs ! (sched t mod length ?rs)) = Some s'" "Q s'"
      by blast
    with less.hyps [OF cuda_step_work [OF s'(1) i] s'(2), of "t + 1"] False cuda_step_length [OF s'(1)] less.prems(2)
    show ?thesis by (subst cuda_run.simps) (simp add: Let_def)
  qed
qed

lemma running_Nil: "running ts = [] \<longleftrightarrow> (\<forall>i < length ts. ts ! i = Returned)"
  by (auto simp: running_def filter_empty_conv)

lemma kernel_lowest:
  assumes sv: "serves ka kg n rs" and n: "n = nat (blocks * MSEARCH_CUDA_BLOCK)" "0 < n"
    and none: "\<forall>j \<le> kg_cell kg. rs ! j = MSEARCH_NO_PLACEMENT"
  obtains b where "k_search_thread_per_placement ka blocks sched rs = Some (rs[kg_cell kg := b])" "cell_ok kg b"
    "\<And>h. 0 \<le> h \<Longrightarrow> h < kg_pl kg \<Longrightarrow> kg_hit kg h \<Longrightarrow> b \<le> h"
proof -
  let ?s = "\<lparr>results = rs, threads = replicate n Entering\<rparr>"
  have inv: "cuda_inv kg rs ?s" using none sv by (simp add: cuda_inv_def cell_ok_def serves_def)
  have step: "\<exists>s'. cuda_step ka s i = Some s' \<and> cuda_inv kg rs s'"
    if "cuda_inv kg rs s" "length (threads s) = n" "i \<in> set (running (threads s))" for s i
    using cuda_step_inv [of ka kg s rs i] sv none that by (metis less_imp_le)
  from cuda_run_induct [of "cuda_inv kg rs", OF inv step] obtain s' where
    s': "cuda_run ka sched 0 ?s = Some s'" "cuda_inv kg rs s'" "running (threads s') = []" "length (threads s') = n"
    by force
  define b where "b = results s' ! kg_cell kg"
  have r: "results s' = rs[kg_cell kg := b]" "cell_ok kg b"
    and ok: "\<forall>i < n. settled kg b n i (kg_pl kg)"
    using s' by (auto simp: cuda_inv_def b_def running_Nil Let_def)
  have "b \<le> h" if "0 \<le> h" "h < kg_pl kg" "kg_hit kg h" for h
  proof -
    have m: "0 \<le> h mod int n" "h mod int n < int n" using n(2) by simp_all
    then have "h mod int n = int (nat (h mod int n))" "nat (h mod int n) < n" by auto
    with ok that show ?thesis unfolding settled_def by metis
  qed
  with r s'(1) n(1) that show thesis by (simp add: k_search_thread_per_placement_def)
qed

text \<open>Once a lower object has matched, a kernel leaves the results alone.\<close>

lemma kernel_skips:
  assumes "j < nat (ka_index ka)" "rs ! j \<noteq> MSEARCH_NO_PLACEMENT" "nat (ka_index ka) \<le> length rs"
  shows "k_search_thread_per_placement ka blocks sched rs = Some rs"
proof -
  let ?n = "nat (blocks * MSEARCH_CUDA_BLOCK)"
  let ?Q = "\<lambda>s. results s = rs \<and> set (threads s) \<subseteq> {Entering, Returned}"
  have found: "earlier_object_matched rs 0 (ka_index ka) = Some True"
    by (subst earlier_object_matched_iff) (use assms in auto)
  have step: "\<exists>s'. cuda_step ka s i = Some s' \<and> ?Q s'"
    if q: "?Q s" and i: "i \<in> set (running (threads s))" for s i
  proof -
    from i q have "i < length (threads s)" "threads s ! i \<noteq> Returned" by (auto simp: running_def)
    moreover from this q have "threads s ! i = Entering" by (meson insert_iff nth_mem singletonD subset_iff)
    ultimately have "cuda_step ka s i = Some (s\<lparr>threads := (threads s)[i := Returned]\<rparr>)"
      using q found by (simp add: cuda_step.simps Let_def)
    with q show ?thesis using set_update_subset_insert [of "threads s" i Returned] by auto
  qed
  have "?Q \<lparr>results = rs, threads = replicate ?n Entering\<rparr>" by auto
  from cuda_run_induct [of ?Q, OF this step] obtain s' where
    "cuda_run ka sched 0 \<lparr>results = rs, threads = replicate ?n Entering\<rparr> = Some s'" "results s' = rs" by force
  then show ?thesis by (simp add: k_search_thread_per_placement_def)
qed

section \<open>Arrays with more behind them\<close>

text \<open>
  The kernel reads the picture at the start of a buffer sized for the largest one, and the object inside
  the packed array: what follows them is never looked at.
\<close>

lemma load_append: "load xs i = Some v \<Longrightarrow> load (xs @ ys) i = Some v"
  by (auto simp: load_def nth_append split: if_splits)

lemma ptr_add_append: "ptr_add xs i = Some v \<Longrightarrow> ptr_add (xs @ ys) i = Some v"
  by (auto simp: ptr_add_def split: if_splits)

lemma score_row_append:
  "score_row pd prow od orow m x eps acc = Some v \<Longrightarrow> score_row (pd @ a) prow (od @ b) orow m x eps acc = Some v"
proof (induction pd prow od orow m x eps acc rule: score_row.induct)
  case (1 pd prow od orow m x eps acc)
  show ?case
  proof (cases "x < m")
    case False
    with 1(2) show ?thesis by (simp add: score_row.simps)
  next
    case True
    with 1(2) obtain p q where l: "load pd (prow + x) = Some p" "load od (orow + x) = Some q"
      "score_row pd prow od orow m (x + 1) eps (dadd acc (msearch_term p q eps)) = Some v"
      by (simp add: score_row.simps [of pd prow od orow m x] split: bind_splits)
    with 1(1) [OF True l] show ?thesis
      using True by (simp add: score_row.simps [of "pd @ a" prow "od @ b" orow m x] load_append)
  qed
qed

lemma score_from_append:
  "score_from pd n od m row col thr eps y acc = Some v \<Longrightarrow>
    score_from (pd @ a) n (od @ b) m row col thr eps y acc = Some v"
proof (induction pd n od m row col thr eps y acc rule: score_from.induct)
  case (1 pd n od m row col thr eps y acc)
  show ?case
  proof (cases "y < m")
    case False
    with 1(2) show ?thesis by (simp add: score_from.simps)
  next
    case True
    with 1(2) obtain r prow orow acc' where l: "chk32 (row + y) = Some r"
      "ptr_add pd (size_t (size_t (size_t r * size_t n) + size_t col)) = Some prow"
      "ptr_add od (size_t (size_t y * size_t m)) = Some orow"
      "score_row pd prow od orow m 0 eps acc = Some acc'"
      and rest: "(if dle thr acc' then Some acc' else score_from pd n od m row col thr eps (y + 1) acc') = Some v"
      by (subst (asm) score_from.simps) (auto split: bind_splits)
    note l' = l(1) ptr_add_append [OF l(2), of a] ptr_add_append [OF l(3), of b] score_row_append [OF l(4), of a b]
    show ?thesis
      using True rest 1(1) [OF True l] l' by (simp add: score_from.simps [of "pd @ a" n "od @ b" m row col thr eps y] split: if_splits)
  qed
qed

lemma score_at_append:
  "msearch_score_at pd n od m row col thr eps = Some v \<Longrightarrow>
    msearch_score_at (pd @ a) n (od @ b) m row col thr eps = Some v"
  by (simp add: msearch_score_at_def score_from_append)

section \<open>A search finds the canonical match\<close>

definition goal_of :: "dbl \<Rightarrow> dbl \<Rightarrow> Picture \<Rightarrow> Object \<Rightarrow> nat \<Rightarrow> kernel_goal" where
  "goal_of thr eps pic obj k =
     \<lparr>kg_hit = hit thr eps pic obj, kg_pl = span_of pic obj * span_of pic obj, kg_cell = k\<rparr>"

definition args_of :: "dbl \<Rightarrow> dbl \<Rightarrow> Picture \<Rightarrow> Object \<Rightarrow> nat \<Rightarrow> cint list \<Rightarrow> cint list \<Rightarrow> cuda_args" where
  "args_of thr eps pic obj k pd od =
     \<lparr>ka_picture = pd, ka_n = p_n pic, ka_object = od, ka_m = o_m obj, ka_span = span_of pic obj,
      ka_placements = span_of pic obj * span_of pic obj, ka_thr = thr, ka_eps = eps, ka_index = int k\<rparr>"

lemma serves_goal:
  assumes "picture_ok pic" "object_ok obj" "eps_ok eps" "thr \<noteq> NaN" and s: "0 < span_of pic obj"
    and "k < length rs" "int n \<le> 2 ^ 40"
  shows "serves (args_of thr eps pic obj k (the (p_data pic) @ a) (the (o_data obj) @ b)) (goal_of thr eps pic obj k) n rs"
proof -
  let ?pl = "span_of pic obj * span_of pic obj"
  obtain pd od where d: "p_data pic = Some pd" "o_data obj = Some od"
    using loaded_data [OF assms(1,2)] by blast
  have pl: "0 \<le> ?pl" "?pl \<le> 2147395600" using placements_fit [OF assms(1,2) s] by simp_all
  have small: "int32 x \<and> int64 (x + 2 * int n)" if "0 \<le> x" "x \<le> 2147395600" for x
    using that assms(7) by (simp add: int_ranges)
  note small [OF pl]
  moreover note pl
  moreover have "\<exists>r. cuda_score (args_of thr eps pic obj k (pd @ a) (od @ b)) key = Some r \<and> dlt r thr = hit thr eps pic obj key"
    if key: "0 \<le> key" "key < ?pl" for key
  proof -
    obtain r where r: "msearch_score_at pd (p_n pic) od (o_m obj) (key div span_of pic obj)
        (key mod span_of pic obj) thr eps = Some r" "dlt r thr = hit thr eps pic obj key"
      using score_at_hit [OF assms(1,2) d assms(3,4) s key] by blast
    have "int32 (key div span_of pic obj)" "int32 (key mod span_of pic obj)"
      unfolding int_ranges using key_in_range [OF s key] loaded_sizes(6) [OF assms(1,2)] by linarith+
    with r score_at_append [OF r(1)] s key show ?thesis by (simp add: cuda_score_def args_of_def)
  qed
  ultimately show ?thesis
    using d assms(6,7) by (simp add: serves_def args_of_def goal_of_def)
qed

text \<open>The kernel of one object, from results with no match yet.\<close>

lemma kernel_first_hit:
  assumes "picture_ok pic" "object_ok obj" "eps_ok eps" "thr \<noteq> NaN" and s: "0 < span_of pic obj"
    and "k < length rs" "\<forall>j \<le> k. rs ! j = MSEARCH_NO_PLACEMENT" "1 \<le> blocks" "int32 blocks"
  shows "k_search_thread_per_placement
      (args_of thr eps pic obj k (the (p_data pic) @ a) (the (o_data obj) @ b)) blocks sched rs =
    Some (case first_hit thr eps pic obj of None \<Rightarrow> rs | Some key \<Rightarrow> rs[k := key])"
proof -
  let ?pl = "span_of pic obj * span_of pic obj" and ?n = "nat (blocks * MSEARCH_CUDA_BLOCK)"
  have n: "0 < ?n" "int ?n \<le> 2 ^ 40" using assms(8,9) by (simp_all add: MSEARCH_CUDA_BLOCK_def int_ranges)
  note sv = serves_goal [OF assms(1-6) n(2), of a b]
  obtain c where c: "k_search_thread_per_placement
      (args_of thr eps pic obj k (the (p_data pic) @ a) (the (o_data obj) @ b)) blocks sched rs = Some (rs[k := c])"
    "cell_ok (goal_of thr eps pic obj k) c"
    "\<And>h. 0 \<le> h \<Longrightarrow> h < ?pl \<Longrightarrow> hit thr eps pic obj h \<Longrightarrow> c \<le> h"
    by (rule kernel_lowest [OF sv refl n(1), where sched = sched]) (use assms(7) in \<open>simp_all add: goal_of_def\<close>)
  show ?thesis
  proof (cases "first_hit thr eps pic obj")
    case None
    with first_hit_NoneD [OF None _ _ s] c(2) have "c = MSEARCH_NO_PLACEMENT"
      by (auto simp: cell_ok_def goal_of_def)
    with c(1) None assms(7) show ?thesis by (simp add: list_update_same_conv assms(6))
  next
    case (Some key)
    note f = first_hit_SomeD [OF Some]
    have "c \<le> key" using c(3) f by blast
    moreover have "key < MSEARCH_NO_PLACEMENT"
      using f(3) placements_fit [OF assms(1,2) s] by (simp add: MSEARCH_NO_PLACEMENT_def)
    ultimately have "0 \<le> c" "hit thr eps pic obj c" using c(2) by (auto simp: cell_ok_def goal_of_def)
    with f(5) [of c] \<open>c \<le> key\<close> have "c = key" by force
    with c(1) Some show ?thesis by simp
  qed
qed

text \<open>What holds when a sequence of checked steps fails and when it succeeds; and that it is defined.\<close>

definition attempts :: "('s \<Rightarrow> bool) \<Rightarrow> ('s \<Rightarrow> bool) \<Rightarrow> 's attempt \<Rightarrow> bool" where
  "attempts E Q m \<longleftrightarrow>
     (\<forall>st err s. m = Some (Inl (st, err, s)) \<longrightarrow> st \<noteq> MSEARCH_OK \<and> E s) \<and> (\<forall>s. m = Some (Inr s) \<longrightarrow> Q s)"

definition settles :: "('s \<Rightarrow> bool) \<Rightarrow> 's attempt \<Rightarrow> bool" where
  "settles Q m \<longleftrightarrow> m \<noteq> None \<and> attempts (\<lambda>_. True) Q m"

lemma attempts_check: "E s \<Longrightarrow> Q s' \<Longrightarrow> attempts E Q (CUDA_CHECK g fault line call k err s s')"
  by (auto simp: attempts_def CUDA_CHECK_def goto_fail_def split: option.splits)

lemma attempts_fail: "E s \<Longrightarrow> st \<noteq> MSEARCH_OK \<Longrightarrow> attempts E Q (goto_fail st msg err s)"
  by (simp add: attempts_def goto_fail_def)

lemma attempts_Inr: "Q s \<Longrightarrow> attempts E Q (Some (Inr s))"
  by (simp add: attempts_def)

lemma attempts_None: "attempts E Q None"
  by (simp add: attempts_def)

lemma attempts_and_then:
  "attempts E P m \<Longrightarrow> (\<And>s. P s \<Longrightarrow> attempts E Q (f s)) \<Longrightarrow> attempts E Q (and_then m f)"
proof -
  assume m: "attempts E P m" and f: "\<And>s. P s \<Longrightarrow> attempts E Q (f s)"
  consider "m = None" | e where "m = Some (Inl e)" | s where "m = Some (Inr s)" by (metis option.exhaust sum.exhaust)
  then show "attempts E Q (and_then m f)"
  proof cases
    case (3 s)
    with m have "P s" by (simp add: attempts_def)
    from f [OF this] 3 show ?thesis by (simp add: and_then_def)
  qed (use m in \<open>auto simp: attempts_def and_then_def\<close>)
qed

lemma attempts_bind: "(\<And>x. m = Some x \<Longrightarrow> attempts E Q (f x)) \<Longrightarrow> attempts E Q (m \<bind> f)"
  by (cases m) (auto intro: attempts_None)

lemma settles_check: "Q s' \<Longrightarrow> settles Q (CUDA_CHECK g fault line call k err s s')"
  by (auto simp: settles_def CUDA_CHECK_def goto_fail_def attempts_def split: option.splits)

lemma settles_and_then:
  "settles P m \<Longrightarrow> (\<And>s. P s \<Longrightarrow> settles Q (f s)) \<Longrightarrow> settles Q (and_then m f)"
proof -
  assume m: "settles P m" and f: "\<And>s. P s \<Longrightarrow> settles Q (f s)"
  consider e where "m = Some (Inl e)" | s where "m = Some (Inr s)"
    using m by (metis option.exhaust sum.exhaust settles_def)
  then show "settles Q (and_then m f)"
  proof cases
    case (2 s)
    with m have "P s" by (simp add: settles_def attempts_def)
    from f [OF this] 2 show ?thesis by (simp add: and_then_def)
  qed (use m in \<open>auto simp: settles_def attempts_def and_then_def\<close>)
qed

lemma settles_Inr [simp]: "settles Q (Some (Inr s)) = Q s"
  by (simp add: settles_def attempts_def)

lemma settles_mono: "settles P m \<Longrightarrow> (\<And>s. P s \<Longrightarrow> Q s) \<Longrightarrow> settles Q m"
  by (auto simp: settles_def attempts_def)

text \<open>A context whose device array holds every object at its offset.\<close>

definition uploaded :: "CudaContext \<Rightarrow> bool" where
  "uploaded c \<longleftrightarrow>
     (\<exists>dst offs. cu_d_objects c = Some dst \<and> cu_obj_offset c = Some offs \<and>
        length offs = length (objects (cu_problem c)) \<and>
        (\<forall>k < length offs. 0 \<le> offs ! k \<and> offs ! k \<le> int (length dst) \<and>
           (\<exists>b. drop (nat (offs ! k)) dst = the (o_data (objects (cu_problem c) ! k)) @ b)))"

definition grid_ready :: "CudaContext \<Rightarrow> Picture \<Rightarrow> bool" where
  "grid_ready c pic \<longleftrightarrow> problem_ok (cu_problem c) \<and> uploaded c \<and> picture_ok pic \<and> eps_ok (cu_zero_eps c)"

lemma grid_blocks:
  assumes "0 < pl" "int32 pl" "all = (pl + MSEARCH_CUDA_BLOCK - 1) div MSEARCH_CUDA_BLOCK"
    and "want = (if all > max_blocks then max_blocks else all)" "blocks = to_int (if want > 0 then want else 1)"
  shows "1 \<le> blocks" "int32 blocks"
proof -
  have "all \<le> pl" using assms(1,3) by (simp add: MSEARCH_CUDA_BLOCK_def)
  with assms have "want \<le> INT_MAX" by (auto simp: int_ranges split: if_splits)
  then have "int32 (if want > 0 then want else 1)" by (simp add: int_ranges)
  with assms(5) show "1 \<le> blocks" "int32 blocks" by simp_all
qed

text \<open>One round of the loop, for an object that fits in the picture and for one that does not.\<close>

lemma launch_kernels_round:
  assumes r: "grid_ready c pic" and k: "k < length (objects (cu_problem c))"
  obtains "o_m (objects (cu_problem c) ! k) > p_n pic"
      "launch_kernels g c w (the (p_data pic) @ a) (p_n pic) mb err (int k) rs =
        launch_kernels g c w (the (p_data pic) @ a) (p_n pic) mb err (int (Suc k)) rs"
  | blocks b where "0 < span_of pic (objects (cu_problem c) ! k)" "1 \<le> blocks" "int32 blocks"
      "launch_kernels g c w (the (p_data pic) @ a) (p_n pic) mb err (int k) rs = do {
        rs' \<leftarrow> k_search_thread_per_placement
          (args_of (threshold (cu_problem c)) (cu_zero_eps c) pic (objects (cu_problem c) ! k) k
            (the (p_data pic) @ a) (the (o_data (objects (cu_problem c) ! k)) @ b)) blocks (w_sched w (int k)) rs;
        and_then (CUDA_CHECK g (w_cuda w) 294 ''cudaGetLastError()'' (int k) err rs rs')
          (launch_kernels g c w (the (p_data pic) @ a) (p_n pic) mb err (int (Suc k)))
      }"
proof -
  let ?p = "cu_problem c"
  let ?obj = "objects ?p ! k"
  from r have ok: "problem_ok ?p" "picture_ok pic" "uploaded c" by (simp_all add: grid_ready_def)
  have obj: "object_ok ?obj" using problem_ok_object [OF ok(1)] k by simp
  note sz = loaded_sizes [OF ok(2) obj]
  have ld: "load (objects ?p) (int k) = Some ?obj" "int k < num_objects ?p"
    using k problem_okD(2) [OF ok(1)] by simp_all
  show thesis
  proof (cases "o_m ?obj \<le> p_n pic")
    case False
    have "launch_kernels g c w (the (p_data pic) @ a) (p_n pic) mb err (int k) rs =
        launch_kernels g c w (the (p_data pic) @ a) (p_n pic) mb err (int (Suc k)) rs"
      using ld sz False by (subst launch_kernels.simps) (simp add: add.commute)
    with that(1) False show thesis by simp
  next
    case True
    then have s: "0 < span_of pic ?obj" by (simp add: span_of_def)
    let ?pl = "span_of pic ?obj * span_of pic ?obj"
    have pl: "0 < ?pl" "?pl \<le> 2147395600" using s placements_fit [OF ok(2) obj s] by simp_all
    have i64: "chk64 (x + MSEARCH_CUDA_BLOCK - 1) = Some (x + MSEARCH_CUDA_BLOCK - 1)"
        "c_div (x + MSEARCH_CUDA_BLOCK - 1) MSEARCH_CUDA_BLOCK = Some ((x + MSEARCH_CUDA_BLOCK - 1) div MSEARCH_CUDA_BLOCK)"
        "int32 x" if "0 < x" "x \<le> 2147395600" for x
      using that by (simp_all add: int_ranges MSEARCH_CUDA_BLOCK_def)
    obtain dst offs b where up: "cu_d_objects c = Some dst" "cu_obj_offset c = Some offs" "load offs (int k) = Some (offs ! k)"
      "ptr_add dst (offs ! k) = Some (offs ! k)" "drop (nat (offs ! k)) dst = the (o_data ?obj) @ b"
      using ok(3) k by (force simp: uploaded_def)
    define all where "all = (?pl + MSEARCH_CUDA_BLOCK - 1) div MSEARCH_CUDA_BLOCK"
    define want where "want = (if all > mb then mb else all)"
    define blocks where "blocks = to_int (if want > 0 then want else 1)"
    note blk = grid_blocks [OF pl(1) i64(3) [OF pl] all_def want_def blocks_def]
    show thesis
    proof (rule that(2) [OF s blk, of b])
      show "launch_kernels g c w (the (p_data pic) @ a) (p_n pic) mb err (int k) rs = do {
          rs' \<leftarrow> k_search_thread_per_placement
            (args_of (threshold ?p) (cu_zero_eps c) pic ?obj k
              (the (p_data pic) @ a) (the (o_data ?obj) @ b)) blocks (w_sched w (int k)) rs;
          and_then (CUDA_CHECK g (w_cuda w) 294 ''cudaGetLastError()'' (int k) err rs rs')
            (launch_kernels g c w (the (p_data pic) @ a) (p_n pic) mb err (int (Suc k)))
        }"
        using ld sz True s i64(1,2) [OF pl] up
        by (subst launch_kernels.simps)
          (simp add: Let_def args_of_def span_of_def all_def want_def blocks_def add.commute)
    qed
  qed
qed

text \<open>Once an object has matched, the rest of the queue changes nothing.\<close>

lemma launch_kernels_skip:
  assumes r: "grid_ready c pic" and j: "j < k" "rs ! j \<noteq> MSEARCH_NO_PLACEMENT"
    and k: "k \<le> length (objects (cu_problem c))" and len: "length rs = length (objects (cu_problem c))"
  shows "settles (\<lambda>r. r = rs) (launch_kernels g c w (the (p_data pic) @ a) (p_n pic) mb err (int k) rs)"
  using k j(1)
proof (induction k rule: inc_induct)
  case base
  have "\<not> int (length (objects (cu_problem c))) < num_objects (cu_problem c)"
    using r problem_okD(2) by (simp add: grid_ready_def)
  then show ?case by (subst launch_kernels.simps) simp
next
  case (step k)
  show ?case
  proof (rule launch_kernels_round [OF r step.hyps(2), where g = g and w = w and a = a and mb = mb and err = err and rs = rs])
    assume "launch_kernels g c w (the (p_data pic) @ a) (p_n pic) mb err (int k) rs =
        launch_kernels g c w (the (p_data pic) @ a) (p_n pic) mb err (int (Suc k)) rs"
    with step.IH step.prems show ?thesis by simp
  next
    fix blocks b
    let ?ka = "args_of (threshold (cu_problem c)) (cu_zero_eps c) pic (objects (cu_problem c) ! k) k
        (the (p_data pic) @ a) (the (o_data (objects (cu_problem c) ! k)) @ b)"
    assume eq: "launch_kernels g c w (the (p_data pic) @ a) (p_n pic) mb err (int k) rs = do {
        rs' \<leftarrow> k_search_thread_per_placement ?ka blocks (w_sched w (int k)) rs;
        and_then (CUDA_CHECK g (w_cuda w) 294 ''cudaGetLastError()'' (int k) err rs rs')
          (launch_kernels g c w (the (p_data pic) @ a) (p_n pic) mb err (int (Suc k)))
      }"
    have "k_search_thread_per_placement ?ka blocks (w_sched w (int k)) rs = Some rs"
      by (rule kernel_skips [OF _ j(2)]) (use step len in \<open>simp_all add: args_of_def\<close>)
    then show ?thesis
      unfolding eq using step.IH step.prems
      by (auto intro!: settles_and_then [OF settles_check [of "\<lambda>r. r = rs"]])
  qed
qed

text \<open>From results without a match: the first object with a hit gets its lowest key, the others nothing.\<close>

definition queue_result :: "dbl \<Rightarrow> dbl \<Rightarrow> Picture \<Rightarrow> Object list \<Rightarrow> nat \<Rightarrow> cint list \<Rightarrow> bool" where
  "queue_result thr eps pic objs k rs \<longleftrightarrow>
     (let none = replicate (length objs) MSEARCH_NO_PLACEMENT in
      (rs = none \<and> (\<forall>obj \<in> set (drop k objs). first_hit thr eps pic obj = None)) \<or>
      (\<exists>f key. k \<le> f \<and> f < length objs \<and> rs = none[f := key] \<and> first_hit thr eps pic (objs ! f) = Some key \<and>
         (\<forall>j. k \<le> j \<longrightarrow> j < f \<longrightarrow> first_hit thr eps pic (objs ! j) = None)))"

lemma queue_result_next:
  assumes "queue_result thr eps pic objs (Suc k) rs" "first_hit thr eps pic (objs ! k) = None" "k < length objs"
  shows "queue_result thr eps pic objs k rs"
proof -
  let ?none = "replicate (length objs) MSEARCH_NO_PLACEMENT"
  have d: "drop k objs = objs ! k # drop (Suc k) objs" using assms(3) by (simp add: Cons_nth_drop_Suc)
  consider "rs = ?none" "\<forall>obj \<in> set (drop (Suc k) objs). first_hit thr eps pic obj = None"
    | f key where "Suc k \<le> f" "f < length objs" "rs = ?none[f := key]" "first_hit thr eps pic (objs ! f) = Some key"
        "\<forall>j. Suc k \<le> j \<longrightarrow> j < f \<longrightarrow> first_hit thr eps pic (objs ! j) = None"
    using assms(1) by (auto simp: queue_result_def Let_def)
  then show ?thesis
  proof cases
    case 1
    with assms(2) show ?thesis by (simp add: queue_result_def d)
  next
    case (2 f key)
    have "first_hit thr eps pic (objs ! j) = None" if "k \<le> j" "j < f" for j
      using that 2(5) assms(2) by (cases "j = k") auto
    with 2 show ?thesis unfolding queue_result_def Let_def by (intro disjI2 exI [of _ f] exI [of _ key]) auto
  qed
qed

lemma launch_kernels_result:
  assumes r: "grid_ready c pic" and k: "k \<le> length (objects (cu_problem c))"
  shows "settles (queue_result (threshold (cu_problem c)) (cu_zero_eps c) pic (objects (cu_problem c)) k)
    (launch_kernels g c w (the (p_data pic) @ a) (p_n pic) mb err (int k)
      (replicate (length (objects (cu_problem c))) MSEARCH_NO_PLACEMENT))"
  using k
proof (induction k rule: inc_induct)
  case base
  have "\<not> int (length (objects (cu_problem c))) < num_objects (cu_problem c)"
    using r problem_okD(2) by (simp add: grid_ready_def)
  then show ?case by (subst launch_kernels.simps) (simp add: queue_result_def)
next
  case (step k)
  let ?p = "cu_problem c" and ?none = "replicate (length (objects (cu_problem c))) MSEARCH_NO_PLACEMENT"
  let ?obj = "objects ?p ! k" and ?Q = "queue_result (threshold ?p) (cu_zero_eps c) pic (objects ?p)"
  from r have ok: "problem_ok ?p" "picture_ok pic" "eps_ok (cu_zero_eps c)" by (simp_all add: grid_ready_def)
  have obj: "object_ok ?obj" using problem_ok_object [OF ok(1)] step.hyps(2) by simp
  show ?case
  proof (rule launch_kernels_round [OF r step.hyps(2), where g = g and w = w and a = a and mb = mb and err = err and rs = ?none])
    assume "o_m ?obj > p_n pic" and eq: "launch_kernels g c w (the (p_data pic) @ a) (p_n pic) mb err (int k) ?none =
        launch_kernels g c w (the (p_data pic) @ a) (p_n pic) mb err (int (Suc k)) ?none"
    then have "first_hit (threshold ?p) (cu_zero_eps c) pic ?obj = None" by (simp add: first_hit_def span_of_def)
    with step queue_result_next show ?thesis unfolding eq by (blast intro: settles_mono)
  next
    fix blocks b
    let ?ka = "args_of (threshold ?p) (cu_zero_eps c) pic ?obj k (the (p_data pic) @ a) (the (o_data ?obj) @ b)"
    assume s: "0 < span_of pic ?obj" and bl: "1 \<le> blocks" "int32 blocks"
      and eq: "launch_kernels g c w (the (p_data pic) @ a) (p_n pic) mb err (int k) ?none = do {
        rs' \<leftarrow> k_search_thread_per_placement ?ka blocks (w_sched w (int k)) ?none;
        and_then (CUDA_CHECK g (w_cuda w) 294 ''cudaGetLastError()'' (int k) err ?none rs')
          (launch_kernels g c w (the (p_data pic) @ a) (p_n pic) mb err (int (Suc k)))
      }"
    have ker: "k_search_thread_per_placement ?ka blocks (w_sched w (int k)) ?none =
        Some (case first_hit (threshold ?p) (cu_zero_eps c) pic ?obj of None \<Rightarrow> ?none | Some key \<Rightarrow> ?none[k := key])"
      by (rule kernel_first_hit [OF ok(2) obj ok(3) problem_okD(3) [OF ok(1)] s _ _ bl]) (use step.hyps(2) in simp_all)
    show ?thesis
    proof (cases "first_hit (threshold ?p) (cu_zero_eps c) pic ?obj")
      case None
      with queue_result_next [OF _ None step.hyps(2)] have "settles (?Q k)
          (launch_kernels g c w (the (p_data pic) @ a) (p_n pic) mb err (int (Suc k)) ?none)"
        using step.IH by (blast intro: settles_mono)
      then show ?thesis unfolding eq ker None
        by (auto intro!: settles_and_then [OF settles_check [of "\<lambda>r. r = ?none"]])
    next
      case (Some key)
      let ?rs = "?none[k := key]"
      have "key \<noteq> MSEARCH_NO_PLACEMENT"
        using first_hit_SomeD(3) [OF Some] placements_fit [OF ok(2) obj s] by (simp add: MSEARCH_NO_PLACEMENT_def)
      then have "settles (\<lambda>r. r = ?rs) (launch_kernels g c w (the (p_data pic) @ a) (p_n pic) mb err (int (Suc k)) ?rs)"
        by (intro launch_kernels_skip [OF r lessI]) (use step.hyps(2) in simp_all)
      moreover have "?Q k ?rs" using Some step.hyps(2)
        unfolding queue_result_def Let_def by (intro disjI2 exI [of _ k] exI [of _ key]) auto
      ultimately have "settles (?Q k) (launch_kernels g c w (the (p_data pic) @ a) (p_n pic) mb err (int (Suc k)) ?rs)"
        by (blast intro: settles_mono)
      then show ?thesis unfolding eq ker Some
        by (auto intro!: settles_and_then [OF settles_check [of "\<lambda>r. r = ?rs"]])
    qed
  qed
qed

lemma canonical_among_skip:
  "\<forall>obj \<in> set pre. first_hit thr eps pic obj = None \<Longrightarrow>
    canonical_among thr eps pic (pre @ post) = canonical_among thr eps pic post"
  by (induction pre) auto

lemma first_result_none:
  assumes "problem_ok p" "k \<le> length (objects p)" "length (objects p) \<le> length rs"
    and "\<forall>j. k \<le> j \<longrightarrow> j < length (objects p) \<longrightarrow> rs ! j = MSEARCH_NO_PLACEMENT"
  shows "first_result p pic rs (int k) out = Some out"
  using assms(2,4)
proof (induction k rule: inc_induct)
  case base
  show ?case using problem_okD(2) [OF assms(1)] by (subst first_result.simps) simp
next
  case (step k)
  then show ?case using problem_okD(2) [OF assms(1)] assms(3) by (subst first_result.simps) (simp add: add.commute)
qed

lemma first_result_found:
  assumes "problem_ok p" "f < length (objects p)" "length rs = length (objects p)" "k \<le> f"
    and "\<forall>j < f. rs ! j = MSEARCH_NO_PLACEMENT" and key: "rs ! f = key" "key \<noteq> MSEARCH_NO_PLACEMENT" "0 \<le> key"
    and pic: "picture_ok pic" "0 < span_of pic (objects p ! f)"
  shows "first_result p pic rs (int k) (msearch_match_none (p_id pic)) = Some (found_at pic (objects p ! f) key)"
  using assms(4)
proof (induction k rule: inc_induct)
  case base
  have "object_ok (objects p ! f)" using problem_ok_object [OF assms(1)] assms(2) by simp
  note sz = loaded_sizes [OF pic(1) this]
  show ?case
    using problem_okD(2) [OF assms(1)] assms(2,3) key pic(2) sz
    by (subst first_result.simps) (simp add: found_at_def msearch_match_none_def span_of_def)
next
  case (step k)
  then show ?case using problem_okD(2) [OF assms(1)] assms(2,3,5)
    by (subst first_result.simps) (simp add: add.commute)
qed

lemma first_result_canonical:
  assumes p: "problem_ok p" "picture_ok pic" and q: "queue_result (threshold p) eps pic (objects p) 0 rs"
  shows "first_result p pic rs 0 (msearch_match_none (p_id pic)) = Some (canonical_match p eps pic)"
proof -
  let ?none = "replicate (length (objects p)) MSEARCH_NO_PLACEMENT" and ?fh = "first_hit (threshold p) eps pic"
  consider "rs = ?none" "\<forall>obj \<in> set (objects p). ?fh obj = None"
    | f key where "f < length (objects p)" "rs = ?none[f := key]" "?fh (objects p ! f) = Some key"
        "\<forall>j < f. ?fh (objects p ! j) = None"
    using q by (auto simp: queue_result_def Let_def)
  then show ?thesis
  proof cases
    case 1
    then have "canonical_match p eps pic = msearch_match_none (p_id pic)"
      using canonical_among_skip [of "objects p" "threshold p" eps pic "[]"] by (simp add: canonical_match_def)
    with 1 first_result_none [OF p(1), of 0 rs pic] show ?thesis by simp
  next
    case (2 f key)
    note h = first_hit_SomeD [OF 2(3)]
    have obj: "object_ok (objects p ! f)" using problem_ok_object [OF p(1)] 2(1) by simp
    have "key \<noteq> MSEARCH_NO_PLACEMENT"
      using h(3) placements_fit [OF p(2) obj h(1)] by (simp add: MSEARCH_NO_PLACEMENT_def)
    then have "first_result p pic rs (int 0) (msearch_match_none (p_id pic)) = Some (found_at pic (objects p ! f) key)"
      by (intro first_result_found [OF p(1) 2(1)]) (use 2 h(1,2) p(2) in simp_all)
    moreover have "canonical_match p eps pic = found_at pic (objects p ! f) key"
    proof -
      have "objects p = take f (objects p) @ objects p ! f # drop (Suc f) (objects p)"
        using 2(1) by (rule id_take_nth_drop)
      moreover have "\<forall>obj \<in> set (take f (objects p)). ?fh obj = None"
        using 2(4) by (auto simp: in_set_conv_nth)
      ultimately show ?thesis using 2(3) canonical_among_skip unfolding canonical_match_def
        by (metis canonical_among.simps(2) option.simps(5))
    qed
    ultimately show ?thesis by simp
  qed
qed

text \<open>A context that \<open>create\<close> hands out for a loaded problem.\<close>

definition context_ok :: "Problem \<Rightarrow> dbl \<Rightarrow> CudaContext \<Rightarrow> bool" where
  "context_ok p eps c \<longleftrightarrow>
     cu_problem c = p \<and> cu_zero_eps c = eps \<and> int32 (cu_sm_count c * MSEARCH_CUDA_BLOCKS_PER_SM) \<and>
     (objects p \<noteq> [] \<longrightarrow> uploaded c \<and> cu_d_results c = Some (length (objects p)) \<and>
        cu_h_results c = Some (length (objects p))) \<and>
     (\<forall>pic \<in> set (pictures p). \<exists>x y. cu_d_picture c = Some x \<and> cu_h_picture c = Some y \<and>
        p_n pic * p_n pic \<le> int x \<and> p_n pic * p_n pic \<le> int y)"

lemma copy_into_start:
  assumes "0 \<le> n" "n \<le> int (length src)" "n \<le> int (length dst)"
  shows "copy_into dst 0 src n = Some (take (nat n) src @ drop (nat n) dst)"
  using assms by (simp add: copy_into_def)

lemma overwrite_some:
  assumes "buf = Some len" "0 \<le> n" "n \<le> int (length src)" "n \<le> int len"
  obtains rest where "overwrite buf stale src n = Some (take (nat n) src @ rest)" "length rest = len - nat n"
  using copy_into_start [of n src "map stale [0..<len]"] assms by (simp add: overwrite_def)

lemma elems_of_loaded: "matrix_ok n d \<Longrightarrow> elems_of n = n * n"
proof -
  assume "matrix_ok n d"
  then have n: "0 < n" "n \<le> 46340" by (auto simp: matrix_ok_def MSEARCH_MAX_SIDE_def)
  then have "n * n \<le> 46340 * 46340" by (intro mult_mono) auto
  with n show ?thesis by (simp add: elems_of_def)
qed

lemma run_stream_result:
  assumes c: "context_ok p eps c" and p: "problem_ok p" "eps_ok eps" and pic: "pic \<in> set (pictures p)" and ne: "objects p \<noteq> []"
  shows "settles (queue_result (threshold p) eps pic (objects p) 0) (run_stream g c w pic mb err)"
proof -
  let ?none = "replicate (length (objects p)) MSEARCH_NO_PLACEMENT"
  have pok: "picture_ok pic" using problem_ok_picture [OF p(1) pic] .
  obtain xs where xs: "p_data pic = Some xs" "int (length xs) = p_n pic * p_n pic" "0 < p_n pic"
    using pok by (auto simp: picture_ok_def elim!: matrix_okE)
  have el: "elems_of (p_n pic) = p_n pic * p_n pic" using pok elems_of_loaded by (auto simp: picture_ok_def)
  obtain x y where b: "cu_d_picture c = Some x" "cu_h_picture c = Some y" "p_n pic * p_n pic \<le> int x" "p_n pic * p_n pic \<le> int y"
    using c pic unfolding context_ok_def by blast
  have cp: "cu_problem c = p" and rb: "cu_d_results c = Some (length (objects p))" "cu_h_results c = Some (length (objects p))"
    using c ne by (auto simp: context_ok_def)
  have K: "num_objects p = int (length (objects p))" using problem_okD(2) [OF p(1)] .
  have ready: "grid_ready c pic" using c p pok ne by (auto simp: grid_ready_def context_ok_def)
  obtain t1 where h: "overwrite (cu_h_picture c) (w_stale w ''h_picture'') xs (elems_of (p_n pic)) = Some (xs @ t1)"
    using overwrite_some [OF b(2), of "p_n pic * p_n pic" xs "w_stale w ''h_picture''"] xs(2) b(4) unfolding el xs(2) [symmetric] by auto
  obtain t2 where d: "overwrite (cu_d_picture c) (w_stale w ''d_picture'') (xs @ t1) (elems_of (p_n pic)) = Some (xs @ t2)"
    using overwrite_some [OF b(1), of "p_n pic * p_n pic" "xs @ t1" "w_stale w ''d_picture''"] xs(2) b(3) unfolding el xs(2) [symmetric] by auto
  have r: "overwrite (Some (length (objects p))) st ?none (num_objects p) = Some ?none" for st
    using overwrite_some [of "Some (length (objects p))" "length (objects p)" "num_objects p" ?none st] by (auto simp: K)
  have launch: "settles (queue_result (threshold p) eps pic (objects p) 0)
      (launch_kernels g c w (xs @ t2) (p_n pic) mb err 0 ?none)"
    using launch_kernels_result [OF ready, of 0 g w t2 mb err] c xs(1) by (simp add: context_ok_def)
  have copied: "copy_into ?none 0 rs (num_objects p) = Some rs" if "queue_result (threshold p) eps pic (objects p) 0 rs" for rs
  proof -
    have "length rs = length (objects p)" using that by (auto simp: queue_result_def Let_def)
    then show ?thesis by (subst copy_into_start) (simp_all add: K)
  qed
  let ?Q = "queue_result (threshold p) eps pic (objects p) 0"
  have tail: "settles ?Q (do {
      copied \<leftarrow> copy_into ?none 0 rs (num_objects p);
      and_then (CUDA_CHECK g (w_cuda w) l1 call1 0 err [] copied)
        (\<lambda>copied. CUDA_CHECK g (w_cuda w) l2 call2 0 err [] copied) })" if "?Q rs" for rs l1 call1 l2 call2
    unfolding copied [OF that] by (auto intro!: settles_and_then [OF settles_check [of ?Q]] settles_check that)
  show ?thesis
    unfolding run_stream_def Let_def cp
    apply (rule settles_and_then [OF settles_check [of "\<lambda>_. True"]], simp)
    apply (simp only: xs(1) h d Option.bind_lunit)
    apply (rule settles_and_then [OF settles_check [of "\<lambda>_. True"]], simp)
    apply (simp only: rb K r [unfolded K] nat_int Option.bind_lunit)
    apply (rule settles_and_then [OF settles_check [of "\<lambda>r. r = ?none"]], simp)
    apply (rule settles_and_then [of ?Q], simp only: launch)
    apply (rule tail [unfolded K])
    apply simp
    done
qed

lemma cuda_search_canonical:
  assumes c: "context_ok p eps c" and p: "problem_ok p" "eps_ok eps" "pic \<in> set (pictures p)"
  shows "\<exists>st mt e. cuda_search g (CudaCtx c) w pic err = Some (st, mt, e) \<and> (st = MSEARCH_OK \<longrightarrow> mt = canonical_match p eps pic)"
proof (cases "objects p = []")
  case True
  with c problem_okD(2) [OF p(1)] show ?thesis by (simp add: context_ok_def canonical_match_def)
next
  case False
  have pic: "picture_ok pic" using problem_ok_picture p(1,3) .
  have n: "num_objects p \<noteq> 0" using False problem_okD(2) [OF p(1)] by simp
  have cp: "cu_problem c = p" "int32 (cu_sm_count c * MSEARCH_CUDA_BLOCKS_PER_SM)" using c by (simp_all add: context_ok_def)
  let ?m = "run_stream g c w pic (cu_sm_count c * MSEARCH_CUDA_BLOCKS_PER_SM) err"
  have s: "settles (queue_result (threshold p) eps pic (objects p) 0) ?m"
    by (rule run_stream_result [OF c p False])
  consider st e rs where "?m = Some (Inl (st, e, rs))" "st \<noteq> MSEARCH_OK"
    | rs where "?m = Some (Inr rs)" "queue_result (threshold p) eps pic (objects p) 0 rs"
    using s unfolding settles_def attempts_def by (metis option.exhaust prod.exhaust sum.exhaust)
  then show ?thesis
  proof cases
    case 1
    with cp n show ?thesis by simp
  next
    case 2
    with cp n first_result_canonical [OF p(1) pic 2(2)] show ?thesis by simp
  qed
qed

section \<open>What create builds\<close>

lemma attempts_mono:
  "attempts E P m \<Longrightarrow> (\<And>s. E s \<Longrightarrow> E' s) \<Longrightarrow> (\<And>s. P s \<Longrightarrow> Q s) \<Longrightarrow> attempts E' Q m"
  by (simp add: attempts_def)

text \<open>One rule per kind of step, for \<open>intro\<close>.\<close>

lemma attempts_check_then:
  "E s \<Longrightarrow> attempts E Q (f s') \<Longrightarrow> attempts E Q (and_then (CUDA_CHECK g fault line call k err s s') f)"
  by (rule attempts_and_then [OF attempts_check [where Q = "\<lambda>x. x = s'"]]) simp_all

lemma attempts_if:
  "(b \<Longrightarrow> attempts E Q x) \<Longrightarrow> (\<not> b \<Longrightarrow> attempts E Q y) \<Longrightarrow> attempts E Q (if b then x else y)"
  by simp

lemmas attempts_rules = attempts_check_then attempts_check attempts_fail attempts_if attempts_bind attempts_Inr

text \<open>Every block \<open>create\<close> takes is in the context, where \<open>destroy\<close> finds it.\<close>

definition owned :: "CudaContext \<Rightarrow> int" where
  "owned c = (if cu_stream c then 1 else 0) + (if cu_d_objects c = None then 0 else 1) +
     (if cu_obj_offset c = None then 0 else 1) + (if cu_d_picture c = None then 0 else 1) +
     (if cu_d_results c = None then 0 else 1) + (if cu_h_results c = None then 0 else 1) +
     (if cu_h_picture c = None then 0 else 1)"

definition balanced :: "int \<Rightarrow> cuda_build \<Rightarrow> bool" where
  "balanced base s \<longleftrightarrow> (case s of (c, h, lg) \<Rightarrow> live h = base + owned c)"

lemma mem_free_live_eq: "live (mem_free x h) = live h - (if x = None then 0 else 1)"
  by (simp add: mem_free_def split: option.split)

lemma cuda_destroy_live: "live (cuda_destroy (Some (CudaCtx c)) h) = live h - 1 - owned c"
  by (simp add: mem_free_live_eq owned_def Let_def)

lemma attempts_with_objects:
  assumes "attempts (\<lambda>(offs, dst). E (c\<lparr>cu_obj_offset := Some offs, cu_d_objects := Some dst\<rparr>, h, lg))
      (\<lambda>(offs, dst). Q (c\<lparr>cu_obj_offset := Some offs, cu_d_objects := Some dst\<rparr>, h, lg)) m"
  shows "attempts E Q (with_objects (c, h, lg) m)"
  using assms by (cases m; cases "the m") (auto simp: attempts_def with_objects_def)

lemma upload_objects_attempts: "attempts (\<lambda>_. True) (\<lambda>_. True) (upload_objects g fault p err k offset offs dst)"
proof (induction g fault p err k offset offs dst rule: upload_objects.induct)
  case (1 g fault p err k offset offs dst)
  show ?case
    by (subst upload_objects.simps)
      (auto simp: Let_def intro!: attempts_bind attempts_and_then [OF attempts_check] attempts_Inr 1)
qed

text \<open>The multiprocessor counts of a device are small enough for the block count of a launch to be an \<open>int\<close>.\<close>

definition gpu_ok :: "gpu \<Rightarrow> bool" where
  "gpu_ok g \<longleftrightarrow> (\<forall>d. int32 (g_sms g d * MSEARCH_CUDA_BLOCKS_PER_SM))"

definition context_base :: "gpu \<Rightarrow> Problem \<Rightarrow> dbl \<Rightarrow> CudaContext \<Rightarrow> bool" where
  "context_base g p eps c \<longleftrightarrow> cu_problem c = p \<and> cu_zero_eps c = eps \<and> (\<exists>d. cu_sm_count c = g_sms g d)"

definition device_chosen :: "gpu \<Rightarrow> Problem \<Rightarrow> dbl \<Rightarrow> int \<Rightarrow> cuda_build \<Rightarrow> bool" where
  "device_chosen g p eps base s \<longleftrightarrow>
     (case s of (c, h, lg) \<Rightarrow> context_base g p eps c \<and> live h = base + 1 \<and> cu_stream c \<and> cu_d_objects c = None \<and>
        cu_obj_offset c = None \<and> cu_d_picture c = None \<and> cu_d_results c = None \<and> cu_h_results c = None \<and>
        cu_h_picture c = None)"

definition objects_uploaded :: "gpu \<Rightarrow> Problem \<Rightarrow> dbl \<Rightarrow> int \<Rightarrow> cuda_build \<Rightarrow> bool" where
  "objects_uploaded g p eps base s \<longleftrightarrow>
     (case s of (c, h, lg) \<Rightarrow> context_base g p eps c \<and> live h = base + owned c \<and>
        cu_d_picture c = None \<and> cu_h_picture c = None \<and>
        (problem_ok p \<longrightarrow> objects p \<noteq> [] \<longrightarrow> uploaded c \<and> cu_d_results c = Some (length (objects p)) \<and>
           cu_h_results c = Some (length (objects p))))"

definition pictures_reserved :: "gpu \<Rightarrow> Problem \<Rightarrow> dbl \<Rightarrow> int \<Rightarrow> cuda_build \<Rightarrow> bool" where
  "pictures_reserved g p eps base s \<longleftrightarrow>
     (case s of (c, h, lg) \<Rightarrow> live h = base + owned c \<and> (gpu_ok g \<longrightarrow> problem_ok p \<longrightarrow> context_ok p eps c))"

lemma create_device_attempts:
  assumes "live h = base"
  shows "attempts (balanced base) (device_chosen g p eps base) (create_device g fault cfg err (cuda_blank p eps, h, lg))"
proof -
  have b: "balanced base (c, h, lg')" if "owned c = 0" for c lg' using assms that by (simp add: balanced_def)
  have o: "owned (cuda_blank p eps) = 0" "owned (cuda_blank p eps\<lparr>cu_device := d\<rparr>) = 0"
    "owned (cuda_blank p eps\<lparr>cu_device := d, cu_sm_count := n\<rparr>) = 0" for d n by (simp_all add: owned_def cuda_blank_def)
  have ready: "device_chosen g p eps base (cuda_blank p eps\<lparr>cu_device := d, cu_sm_count := g_sms g d, cu_stream := True\<rparr>,
      taken h, lg')" for d lg'
    using assms by (auto simp: device_chosen_def context_base_def cuda_blank_def taken_def)
  show ?thesis
    unfolding create_device_def Let_def prod.case
    by (intro attempts_rules) (simp_all add: b o ready attempts_check)
qed

text \<open>The upload: the objects placed so far lie one after the other below the offset.\<close>

definition placed :: "Object list \<Rightarrow> nat \<Rightarrow> int \<Rightarrow> int list \<Rightarrow> cint list \<Rightarrow> bool" where
  "placed os k offset offs dst \<longleftrightarrow>
     (\<forall>j < k. 0 \<le> offs ! j \<and> offs ! j + int (length (the (o_data (os ! j)))) \<le> offset \<and>
        take (length (the (o_data (os ! j)))) (drop (nat (offs ! j)) dst) = the (o_data (os ! j)))"

lemma placed_below:
  assumes "placed os k offset offs dst" "take (nat offset) dst' = take (nat offset) dst" "offset \<le> offset'"
  shows "placed os k offset' offs dst'"
  unfolding placed_def
proof (intro allI impI)
  fix j assume "j < k"
  let ?d = "the (o_data (os ! j))"
  from assms(1) \<open>j < k\<close> have j: "0 \<le> offs ! j" "offs ! j + int (length ?d) \<le> offset"
    "take (length ?d) (drop (nat (offs ! j)) dst) = ?d" unfolding placed_def by blast+
  have le: "min (length ?d + nat (offs ! j)) (nat offset) = length ?d + nat (offs ! j)" using j by linarith
  have "take (length ?d + nat (offs ! j)) dst' = take (length ?d + nat (offs ! j)) (take (nat offset) dst')"
    by (simp add: le)
  also have "\<dots> = take (length ?d + nat (offs ! j)) dst" unfolding assms(2) by (simp add: le)
  finally show "0 \<le> offs ! j \<and> offs ! j + int (length ?d) \<le> offset' \<and> take (length ?d) (drop (nat (offs ! j)) dst') = ?d"
    using j assms(3) by (simp add: take_drop)
qed

lemma copy_into_SomeD:
  assumes "copy_into dst off src n = Some dst'"
  shows "length dst' = length dst" "take (nat off) dst' = take (nat off) dst"
    "take (nat n) (drop (nat off) dst') = take (nat n) src" "0 \<le> off" "off + n \<le> int (length dst)" "n \<le> int (length src)"
  using assms by (auto simp: copy_into_def nat_add_distrib split: if_splits)

lemma upload_objects_placed:
  assumes p: "problem_ok p"
  shows "k \<le> length (objects p) \<Longrightarrow> placed (objects p) k offset offs dst \<Longrightarrow>
    length offs = length (objects p) \<Longrightarrow> int (length dst) < 2 ^ 63 \<Longrightarrow> offset \<le> int (length dst) \<Longrightarrow>
    attempts (\<lambda>_. True) (\<lambda>(offs', dst'). length offs' = length (objects p) \<and> placed (objects p) (length (objects p)) (int (length dst')) offs' dst')
      (upload_objects g fault p err (int k) offset offs dst)"
proof (induction k arbitrary: offset offs dst rule: inc_induct)
  case base
  with placed_below [OF base(1) refl base(4)] problem_okD(2) [OF p] show ?case
    by (subst upload_objects.simps) (simp add: attempts_def)
next
  case (step k)
  let ?os = "objects p"
  define obj where "obj = ?os ! k"
  have K: "int k < num_objects p" "load ?os (int k) = Some obj"
    using step.hyps problem_okD(2) [OF p] by (simp_all add: obj_def)
  have mk: "matrix_ok (o_m obj) (o_data obj)"
    using problem_ok_object [OF p] step.hyps(2) by (simp add: obj_def object_ok_def)
  note el = elems_of_loaded [OF mk]
  obtain src where src: "o_data obj = Some src" "int (length src) = o_m obj * o_m obj" using mk by (elim matrix_okE)
  have offs: "store offs (int k) offset = Some (offs[k := offset])" using step.hyps(2) step.prems(2) by simp
  have "attempts (\<lambda>_. True) (\<lambda>(offs', dst'). length offs' = length ?os \<and> placed ?os (length ?os) (int (length dst')) offs' dst')
      (upload_objects g fault p err (int (Suc k)) (size_t (offset + int (length src))) (offs[k := offset]) dst')"
    if "copy_into dst offset src (int (length src)) = Some dst'" for dst'
  proof -
    note c = copy_into_SomeD [OF that]
    have off: "size_t (offset + int (length src)) = offset + int (length src)" using c(4,5) step.prems(3) by simp
    have "placed ?os k (offset + int (length src)) offs dst'"
      by (rule placed_below [OF step.prems(1) c(2)]) simp
    then have "placed ?os (Suc k) (offset + int (length src)) (offs[k := offset]) dst'"
      using c(3,4) src(1) step.hyps(2) step.prems(2) by (auto simp: placed_def less_Suc_eq obj_def)
    with step.IH [of "offset + int (length src)" "offs[k := offset]" dst'] c(1,5) step.prems(2,3) show ?thesis
      unfolding off by simp
  qed
  then show ?case
    by (subst upload_objects.simps) (simp add: K offs src el attempts_rules Let_def add.commute flip: src(2))
qed

lemma upload_objects_all:
  assumes "int (length dst) < 2 ^ 63" "length offs = nat (num_objects p)"
  shows "attempts (\<lambda>_. True) (\<lambda>(offs', dst'). problem_ok p \<longrightarrow> length offs' = length (objects p) \<and>
      placed (objects p) (length (objects p)) (int (length dst')) offs' dst') (upload_objects g fault p err 0 0 offs dst)"
proof (cases "problem_ok p")
  case True
  have "placed (objects p) 0 0 offs dst" by (simp add: placed_def)
  from upload_objects_placed [OF True _ this, of g fault err] assms problem_okD(2) [OF True] True show ?thesis by simp
next
  case False
  with upload_objects_attempts [of g fault p err 0 0 offs dst] show ?thesis by (simp add: case_prod_unfold)
qed

lemma placed_uploaded:
  assumes "placed (objects (cu_problem c)) (length (objects (cu_problem c))) (int (length dst)) offs dst"
    and "cu_d_objects c = Some dst" "cu_obj_offset c = Some offs" "length offs = length (objects (cu_problem c))"
  shows "uploaded c"
proof -
  have "\<exists>b. drop (nat (offs ! k)) dst = the (o_data (objects (cu_problem c) ! k)) @ b" if "k < length offs" for k
    using assms(1,4) that unfolding placed_def by (metis append_take_drop_id)
  moreover have "0 \<le> offs ! k \<and> offs ! k \<le> int (length dst)" if "k < length offs" for k
    using assms(1,4) that unfolding placed_def by force
  ultimately show ?thesis using assms(2-4) by (simp add: uploaded_def)
qed

lemma total_elems_fits: "total_elems p k t = Some x \<Longrightarrow> k < num_objects p \<Longrightarrow> num_objects p \<le> INT_MAX"
proof (induction p k t rule: total_elems.induct)
  case (1 p k t)
  then obtain obj where obj: "load (objects p) k = Some obj" "int32 (k + 1)"
    "total_elems p (k + 1) (size_t (t + elems_of (o_m obj))) = Some x"
    by (subst (asm) (2) total_elems.simps) (auto split: bind_splits)
  show ?case
  proof (cases "k + 1 < num_objects p")
    case True
    with 1 obj show ?thesis by simp
  next
    case False
    with obj(2) 1(3) show ?thesis by (simp add: int_ranges)
  qed
qed

text \<open>The state after the upload, before the result buffers.\<close>

definition objects_copied :: "gpu \<Rightarrow> Problem \<Rightarrow> dbl \<Rightarrow> int \<Rightarrow> cuda_build \<Rightarrow> bool" where
  "objects_copied g p eps base s \<longleftrightarrow>
     (case s of (c, h, lg) \<Rightarrow> context_base g p eps c \<and> live h = base + 3 \<and> owned c = 3 \<and> cu_d_picture c = None \<and>
        cu_h_picture c = None \<and> cu_d_results c = None \<and> cu_h_results c = None \<and> (problem_ok p \<longrightarrow> uploaded c))"

lemma create_results_attempts:
  assumes "objects_copied g p eps base s" "0 \<le> num_objects p" "num_objects p \<le> INT_MAX"
  shows "attempts (balanced base) (objects_uploaded g p eps base) (create_results g fault p err s)"
proof -
  have n: "ints_in (size_t (num_objects p)) = length (objects p)" if "problem_ok p"
    using assms(2,3) problem_okD(2) [OF that] by (subst ints_in_small) (simp_all add: INT_MAX_def)
  show ?thesis
    unfolding create_results_def
    by (intro attempts_rules) (use assms(1) n in
      \<open>auto simp: objects_copied_def objects_uploaded_def balanced_def owned_def taken_def context_base_def uploaded_def split: if_splits\<close>)
qed

lemma with_objects_attempts:
  assumes s: "device_chosen g p eps base (c, h, lg)" "live h' = base + 3" "int (length dst) < 2 ^ 63" "length offs = nat (num_objects p)"
  shows "attempts (balanced base) (objects_copied g p eps base)
    (with_objects (c\<lparr>cu_obj_offset := Some offs, cu_d_objects := Some dst\<rparr>, h', lg) (upload_objects g fault p err 0 0 offs dst))"
proof (rule attempts_with_objects, rule attempts_mono [OF upload_objects_all [OF assms(3,4)]])
  note dc = s(1) [unfolded device_chosen_def prod.case context_base_def]
  show "case x of (offs', dst') \<Rightarrow> balanced base (c\<lparr>cu_obj_offset := Some offs, cu_d_objects := Some dst,
      cu_obj_offset := Some offs', cu_d_objects := Some dst'\<rparr>, h', lg)" for x
    using dc s(2) by (cases x) (simp add: balanced_def owned_def)
  fix x assume "case x of (offs', dst') \<Rightarrow> problem_ok p \<longrightarrow> length offs' = length (objects p) \<and>
      placed (objects p) (length (objects p)) (int (length dst')) offs' dst'"
  then show "case x of (offs', dst') \<Rightarrow> objects_copied g p eps base (c\<lparr>cu_obj_offset := Some offs, cu_d_objects := Some dst,
      cu_obj_offset := Some offs', cu_d_objects := Some dst'\<rparr>, h', lg)"
    using dc s(2) by (cases x) (auto simp: objects_copied_def context_base_def owned_def intro!: placed_uploaded)
qed

lemma create_objects_attempts:
  assumes s: "device_chosen g p eps base s"
  shows "attempts (balanced base) (objects_uploaded g p eps base) (create_objects g fault env p err s)"
proof -
  obtain c h lg where sc: "s = (c, h, lg)" by (cases s)
  note dc = s [unfolded sc device_chosen_def prod.case]
  show ?thesis
  proof (cases "total_elems p 0 0 = None \<or> \<not> 0 < num_objects p")
    case True
    moreover have "objects_uploaded g p eps base s" if "\<not> 0 < num_objects p"
      using dc that problem_okD(2) by (auto simp: sc objects_uploaded_def owned_def)
    ultimately show ?thesis
      unfolding create_objects_def by (auto intro!: attempts_bind attempts_None attempts_Inr simp: sc)
  next
    case False
    then obtain total where t: "total_elems p 0 0 = Some total" "0 < num_objects p" by auto
    let ?offs = "replicate (nat (num_objects p)) 0" and ?dst = "map (junk env) [0..<ints_in total]"
    let ?h = "\<lambda>ok. h\<lparr>requests := requests h + 1, live := (if ok then live h + 1 else live h)\<rparr>"
    let ?s = "(c\<lparr>cu_obj_offset := Some ?offs, cu_d_objects := Some ?dst\<rparr>, taken (?h True), lg)"
    have b: "balanced base (c, ?h False, lg)" "balanced base (c\<lparr>cu_obj_offset := Some ?offs\<rparr>, ?h True, lg)"
      using dc by (simp_all add: balanced_def owned_def)
    have rest: "attempts (balanced base) (objects_uploaded g p eps base)
        (and_then (with_objects ?s (upload_objects g fault p err 0 0 ?offs ?dst)) (create_results g fault p err))"
    proof (rule attempts_and_then [OF with_objects_attempts])
      show "device_chosen g p eps base (c, h, lg)" using s sc by simp
      show "live (taken (?h True)) = base + 3" using dc by (simp add: taken_def)
      show "int (length ?dst) < 2 ^ 63" using ints_in_bound by simp
      show "attempts (balanced base) (objects_uploaded g p eps base) (create_results g fault p err s)"
        if "objects_copied g p eps base s" for s
        by (rule create_results_attempts [OF that]) (use t(2) total_elems_fits [OF t] in simp_all)
    qed simp
    show ?thesis
    proof (cases "grants env (requests h)")
      case False
      with t b(1) show ?thesis by (simp add: create_objects_def sc mem_alloc_def attempts_fail)
    next
      case True
      with t have "create_objects g fault env p err s =
          and_then (CUDA_CHECK g fault 215 ''cudaMalloc(&c->d_objects, total_object_elems * sizeof(int))'' 0 err
              (c\<lparr>cu_obj_offset := Some ?offs\<rparr>, ?h True, lg) ?s)
            (\<lambda>s. and_then (with_objects s (upload_objects g fault p err 0 0 ?offs ?dst)) (create_results g fault p err))"
        by (simp add: create_objects_def sc mem_alloc_def Let_def)
      then show ?thesis using attempts_check_then [of "balanced base", OF b(2)] rest by simp
    qed
  qed
qed

text \<open>The capacity is the largest picture's.\<close>

lemma max_picture_elems_loaded:
  assumes "problem_ok p"
  obtains cap where "msearch_max_picture_elems p = Some cap" "0 \<le> cap" "cap \<le> INT_MAX * INT_MAX"
    "\<And>pic. pic \<in> set (pictures p) \<Longrightarrow> 0 < p_n pic * p_n pic \<and> p_n pic * p_n pic \<le> cap"
proof -
  have n: "0 < p_n pic \<and> p_n pic \<le> 46340" if "pic \<in> set (pictures p)" for pic
    using problem_ok_picture [OF assms that] by (auto simp: picture_ok_def matrix_ok_def MSEARCH_MAX_SIDE_def)
  define cap where "cap = fold max (map (\<lambda>p. p_n p * p_n p) (pictures p)) 0"
  have m: "cap = Max (set (0 # map (\<lambda>p. p_n p * p_n p) (pictures p)))"
    by (simp only: cap_def Max.set_eq_fold)
  have "\<forall>pic \<in> set (pictures p). 0 \<le> p_n pic \<and> int32 (p_n pic)" using n by (force simp: int_ranges)
  from max_elems_from_all [OF this, of 0 0] have "msearch_max_picture_elems p = Some cap"
    using problem_okD(1) [OF assms] by (simp add: msearch_max_picture_elems_def cap_def)
  moreover have "p_n pic * p_n pic \<le> 46340 * 46340" if "pic \<in> set (pictures p)" for pic
    using n [OF that] by (intro mult_mono) auto
  then have "cap \<le> INT_MAX * INT_MAX" unfolding m by (subst Max_le_iff) (force simp: INT_MAX_def)+
  moreover have "p_n pic * p_n pic \<le> cap" "0 < p_n pic * p_n pic" if "pic \<in> set (pictures p)" for pic
    unfolding m using that n by (auto intro!: Max_ge)
  moreover have "0 \<le> cap" unfolding m by (rule Max_ge) auto
  ultimately show thesis using that by blast
qed

lemma create_pictures_attempts:
  assumes "objects_uploaded g p eps base s"
  shows "attempts (balanced base) (pictures_reserved g p eps base) (create_pictures g fault p err s)"
proof (cases "msearch_max_picture_elems p")
  case None
  then show ?thesis by (simp add: create_pictures_def attempts_None)
next
  case (Some cap)
  obtain c h lg where sc: "s = (c, h, lg)" by (cases s)
  note ou = assms [unfolded sc objects_uploaded_def prod.case context_base_def]
  have loaded: "0 \<le> cap \<and> cap \<le> INT_MAX * INT_MAX \<and>
      (\<forall>pic \<in> set (pictures p). 0 < p_n pic * p_n pic \<and> p_n pic * p_n pic \<le> cap)" if "problem_ok p"
    by (rule max_picture_elems_loaded [OF that]) (use Some in auto)
  show ?thesis
  proof (cases "cap > 0")
    case False
    have "pictures p = []" if "problem_ok p"
      using loaded [OF that] False by (cases "pictures p") auto
    then have "context_ok p eps (c\<lparr>cu_picture_capacity := cap\<rparr>)" if "problem_ok p" "gpu_ok g"
      using that ou by (auto simp: context_ok_def gpu_ok_def uploaded_def)
    with False Some ou show ?thesis
      by (simp add: create_pictures_def sc attempts_Inr pictures_reserved_def owned_def)
  next
    case True
    let ?c1 = "c\<lparr>cu_picture_capacity := cap\<rparr>" and ?c2 = "c\<lparr>cu_picture_capacity := cap, cu_d_picture := Some (ints_in cap)\<rparr>"
      and ?c3 = "c\<lparr>cu_picture_capacity := cap, cu_d_picture := Some (ints_in cap), cu_h_picture := Some (ints_in cap)\<rparr>"
    have "context_ok p eps ?c3" if "problem_ok p" "gpu_ok g"
      using loaded [OF that(1)] that ou ints_in_small [of cap] by (auto simp: context_ok_def gpu_ok_def uploaded_def)
    moreover have "owned ?c1 = owned c" "owned ?c2 = owned c + 1" "owned ?c3 = owned c + 2"
      using ou by (simp_all add: owned_def)
    ultimately show ?thesis
      using True Some ou
      by (simp add: create_pictures_def sc)
        (intro attempts_check_then attempts_check; simp add: balanced_def taken_def pictures_reserved_def attempts_check)
  qed
qed

lemma create_body_attempts:
  assumes "live h = base"
  shows "attempts (balanced base) (pictures_reserved g p eps base) (create_body g fault env p cfg err (cuda_blank p eps, h, lg))"
  unfolding create_body_def
  by (rule attempts_and_then [OF create_device_attempts [OF assms]], rule attempts_and_then [OF create_objects_attempts], assumption,
      rule create_pictures_attempts)

lemma cuda_create_cases:
  assumes "cuda_create g pf env p cfg err h = (st, ctx, err', lg, h')"
  obtains c where "st = MSEARCH_OK" "ctx = Some (CudaCtx c)" "live h' = live h + 1 + owned c"
      "gpu_ok g \<Longrightarrow> problem_ok p \<Longrightarrow> context_ok p (c_zero_eps cfg) c"
  | "st \<noteq> MSEARCH_OK" "ctx = None" "live h' = live h"
proof -
  let ?h = "h\<lparr>requests := requests h + 1, live := live h + 1\<rparr>"
  note at = create_body_attempts [where h = ?h and base = "live h + 1", of g p "c_zero_eps cfg" "g_fault g h" env cfg err "[]", simplified]
  show thesis
  proof (cases "grants env (requests h)")
    case False
    with assms that(2) show ?thesis by (auto simp: cuda_create_def mem_alloc_def)
  next
    case True
    then have cr: "cuda_create g pf env p cfg err h =
        (case create_body g (g_fault g h) env p cfg err (cuda_blank p (c_zero_eps cfg), ?h, []) of
          None \<Rightarrow> (MSEARCH_ERR_BACKEND, None, err, [], h)
        | Some (Inl (st, err', c, h', lg)) \<Rightarrow> (st, None, err', lg, cuda_destroy (Some (CudaCtx c)) h')
        | Some (Inr (c, h', lg)) \<Rightarrow> (MSEARCH_OK, Some (CudaCtx c), err, lg, h'))"
      by (simp add: cuda_create_def mem_alloc_def)
    consider "create_body g (g_fault g h) env p cfg err (cuda_blank p (c_zero_eps cfg), ?h, []) = None"
      | st1 e c h1 l where "create_body g (g_fault g h) env p cfg err (cuda_blank p (c_zero_eps cfg), ?h, []) = Some (Inl (st1, e, c, h1, l))"
      | c h1 l where "create_body g (g_fault g h) env p cfg err (cuda_blank p (c_zero_eps cfg), ?h, []) = Some (Inr (c, h1, l))"
      by (metis option.exhaust sum.exhaust prod.exhaust)
    then show ?thesis
    proof cases
      case 1
      with cr assms that(2) show ?thesis by simp
    next
      case (2 st1 e c h1 l)
      with at have "st1 \<noteq> MSEARCH_OK" "live h1 = live h + 1 + owned c" by (simp_all add: attempts_def balanced_def)
      with 2 cr assms that(2) show ?thesis using cuda_destroy_live [of c h1] by (simp del: cuda_destroy.simps)
    next
      case (3 c h1 l)
      with at have "live h1 = live h + 1 + owned c" "gpu_ok g \<Longrightarrow> problem_ok p \<Longrightarrow> context_ok p (c_zero_eps cfg) c"
        by (simp_all add: attempts_def pictures_reserved_def)
      with 3 cr assms that(1) show ?thesis by simp
    qed
  qed
qed

lemma cuda_match_backend:
  assumes "gpu_ok g"
  shows "match_backend (msearch_backend_cuda g)"
proof
  fix pf env p cfg err h st c err' lg h'
  assume "b_create (msearch_backend_cuda g) pf env p cfg err h = (st, c, err', lg, h')"
  then show "(st = MSEARCH_OK) = (c \<noteq> None)"
    by (auto simp: msearch_backend_cuda_def elim: cuda_create_cases)
next
  fix pf env p cfg err h st err' lg h'
  assume "b_create (msearch_backend_cuda g) pf env p cfg err h = (st, None, err', lg, h')"
  then show "live h' = live h"
    by (auto simp: msearch_backend_cuda_def elim: cuda_create_cases)
next
  fix pf env p cfg err h ctx err' lg h' pic w err''
  assume "b_create (msearch_backend_cuda g) pf env p cfg err h = (MSEARCH_OK, Some ctx, err', lg, h')"
    and p: "problem_ok p" "eps_ok (c_zero_eps cfg)" "pic \<in> set (pictures p)"
  then obtain c where "ctx = CudaCtx c" "context_ok p (c_zero_eps cfg) c"
    using assms by (auto simp: msearch_backend_cuda_def elim: cuda_create_cases)
  then show "\<exists>st mt e. b_search (msearch_backend_cuda g) ctx w pic err'' = Some (st, mt, e) \<and>
      (st = MSEARCH_OK \<longrightarrow> mt = canonical_match p (c_zero_eps cfg) pic)"
    using cuda_search_canonical [OF _ p] by (simp add: msearch_backend_cuda_def del: cuda_search.simps)
next
  fix pf env p cfg err h ctx err' lg h' h''
  assume "b_create (msearch_backend_cuda g) pf env p cfg err h = (MSEARCH_OK, Some ctx, err', lg, h')"
  then obtain c where "ctx = CudaCtx c" "live h' = live h + 1 + owned c"
    by (auto simp: msearch_backend_cuda_def elim: cuda_create_cases)
  then show "live (b_destroy (msearch_backend_cuda g) (Some ctx) h'') = live h'' - (live h' - live h)"
    using cuda_destroy_live [of c h''] by (simp add: msearch_backend_cuda_def del: cuda_destroy.simps)
qed

section \<open>When create succeeds\<close>

text \<open>A sequence of steps is defined, and reaches its end when nothing fails.\<close>

definition flows :: "bool \<Rightarrow> 's attempt \<Rightarrow> bool" where
  "flows calm m \<longleftrightarrow> m \<noteq> None \<and> (calm \<longrightarrow> (\<forall>e. m \<noteq> Some (Inl e)))"

lemma flows_check: "(calm \<Longrightarrow> fault call k = None) \<Longrightarrow> flows calm (CUDA_CHECK g fault line call k err s s')"
  by (auto simp: flows_def CUDA_CHECK_def goto_fail_def split: option.splits)

lemma flows_check_then:
  "(calm \<Longrightarrow> fault call k = None) \<Longrightarrow> flows calm (f s') \<Longrightarrow> flows calm (and_then (CUDA_CHECK g fault line call k err s s') f)"
  by (auto simp: flows_def CUDA_CHECK_def goto_fail_def and_then_def split: option.splits)

lemma flows_Inr: "flows calm (Some (Inr s))"
  by (simp add: flows_def)

lemma flows_fail: "\<not> calm \<Longrightarrow> flows calm (goto_fail st msg err s)"
  by (simp add: flows_def goto_fail_def)

lemma flows_and_then:
  assumes "flows calm m" "\<And>s. m = Some (Inr s) \<Longrightarrow> flows calm (f s)"
  shows "flows calm (and_then m f)"
  using assms by (cases m; cases "the m") (auto simp: flows_def and_then_def)

lemma flows_with_objects: "flows calm m \<Longrightarrow> flows calm (with_objects s m)"
  by (cases m; cases "the m") (auto simp: flows_def with_objects_def)

lemmas flows_rules = flows_check_then flows_check flows_Inr flows_fail

definition elems_from :: "Problem \<Rightarrow> nat \<Rightarrow> int" where
  "elems_from p k = (\<Sum>obj \<leftarrow> drop k (objects p). o_m obj * o_m obj)"

lemma elems_from_Suc:
  "k < length (objects p) \<Longrightarrow> elems_from p k = o_m (objects p ! k) * o_m (objects p ! k) + elems_from p (Suc k)"
  by (simp add: elems_from_def flip: Cons_nth_drop_Suc)

lemma elems_from_nonneg: "0 \<le> elems_from p k"
  unfolding elems_from_def by (rule sum_list_nonneg) auto

lemma elems_from_bound:
  assumes "problem_ok p"
  shows "elems_from p k \<le> int (length (objects p) - k) * 2147395600"
proof -
  have "o_m obj * o_m obj \<le> 2147395600" if "obj \<in> set (objects p)" for obj
  proof -
    have "0 \<le> o_m obj" "o_m obj \<le> 46340"
      using problem_ok_object [OF assms that] by (auto simp: object_ok_def matrix_ok_def MSEARCH_MAX_SIDE_def)
    then have "o_m obj * o_m obj \<le> 46340 * 46340" by (intro mult_mono) auto
    then show ?thesis by simp
  qed
  then have "sum_list (map (\<lambda>obj. o_m obj * o_m obj) (drop k (objects p))) \<le>
      sum_list (map (\<lambda>_. 2147395600) (drop k (objects p)))"
    by (intro sum_list_mono) (auto dest: in_set_dropD)
  then show ?thesis by (simp add: elems_from_def sum_list_triv)
qed

lemma total_elems_all:
  assumes p: "problem_ok p" "num_objects p \<le> INT_MAX"
  shows "k \<le> length (objects p) \<Longrightarrow> 0 \<le> t \<Longrightarrow> t + elems_from p k < 2 ^ 63 \<Longrightarrow>
    total_elems p (int k) t = Some (t + elems_from p k)"
proof (induction k arbitrary: t rule: inc_induct)
  case base
  then show ?case using problem_okD(2) [OF p(1)] by (subst total_elems.simps) (simp add: elems_from_def)
next
  case (step k)
  let ?obj = "objects p ! k"
  have el: "elems_of (o_m ?obj) = o_m ?obj * o_m ?obj"
    by (rule elems_of_loaded [of _ "o_data ?obj"]) (use problem_ok_object [OF p(1)] step.hyps(2) in \<open>simp add: object_ok_def\<close>)
  have sq: "0 \<le> o_m ?obj * o_m ?obj" by simp
  have K: "int k < num_objects p" "int32 (int k + 1)" using step.hyps(2) p problem_okD(2) [OF p(1)] by (simp_all add: int_ranges)
  have "total_elems p (int (Suc k)) (t + o_m ?obj * o_m ?obj) = Some (t + o_m ?obj * o_m ?obj + elems_from p (Suc k))"
    by (rule step.IH) (use step.prems sq elems_from_Suc [OF step.hyps(2)] in linarith)+
  moreover have "t + o_m ?obj * o_m ?obj < 2 ^ 63"
    using step.prems elems_from_Suc [OF step.hyps(2)] elems_from_nonneg [of p "Suc k"] by linarith
  ultimately show ?case
    using K step.hyps(2) step.prems sq elems_from_Suc [OF step.hyps(2)] el
    by (subst total_elems.simps) (simp add: add.commute add.left_commute del: zero_le_square)
qed

lemma upload_objects_flows:
  assumes p: "problem_ok p" and calm: "calm \<Longrightarrow> \<forall>call k. fault call k = None"
  shows "k \<le> length (objects p) \<Longrightarrow> length offs = length (objects p) \<Longrightarrow> int (length dst) < 2 ^ 63 \<Longrightarrow> 0 \<le> offset \<Longrightarrow>
    offset + elems_from p k \<le> int (length dst) \<Longrightarrow> flows calm (upload_objects g fault p err (int k) offset offs dst)"
proof (induction k arbitrary: offset offs dst rule: inc_induct)
  case base
  with problem_okD(2) [OF p] show ?case by (subst upload_objects.simps) (simp add: flows_Inr)
next
  case (step k)
  let ?obj = "objects p ! k"
  have mk: "matrix_ok (o_m ?obj) (o_data ?obj)"
    using problem_ok_object [OF p] step.hyps(2) by (simp add: object_ok_def)
  note el = elems_of_loaded [OF mk]
  obtain src where src: "o_data ?obj = Some src" "int (length src) = o_m ?obj * o_m ?obj" using mk by (elim matrix_okE)
  have K: "int k < num_objects p" using step.hyps problem_okD(2) [OF p] by simp
  have fit: "offset + int (length src) \<le> int (length dst)" "offset + int (length src) + elems_from p (Suc k) \<le> int (length dst)"
    using step.prems(4) elems_from_Suc [OF step.hyps(2)] elems_from_nonneg [of p "Suc k"] src(2) by linarith+
  then obtain dst' where d: "copy_into dst offset src (int (length src)) = Some dst'"
    using step.prems(3) by (simp add: copy_into_def)
  have "flows calm (upload_objects g fault p err (int (Suc k)) (offset + int (length src)) (offs[k := offset]) dst')"
    by (rule step.IH) (use step.prems fit copy_into_SomeD(1) [OF d] in auto)
  moreover have "size_t (offset + int (length src)) = offset + int (length src)" using fit step.prems(2,3) by simp
  ultimately show ?case
    using K d src el step.hyps(2) step.prems(1) calm
    by (subst upload_objects.simps) (auto simp: Let_def add.commute intro!: flows_check_then)
qed

lemma c_mod_below:
  assumes "0 < n"
  obtains x where "c_mod a n = Some x" "x < n"
proof -
  have "0 \<le> \<bar>a\<bar> mod n" "\<bar>a\<bar> mod n < n" using assms by simp_all
  then have "sgn a * (\<bar>a\<bar> mod n) < n" by (cases a "0 :: int" rule: linorder_cases) auto
  with assms that show thesis by (simp add: c_mod_def)
qed

lemma create_device_flows:
  assumes "calm \<Longrightarrow> (\<forall>call k. fault call k = None) \<and> 0 < g_count g \<and> c_device cfg < g_count g"
  shows "flows calm (create_device g fault cfg err s)"
proof (cases "0 < g_count g")
  case False
  then show ?thesis
    unfolding create_device_def by (intro flows_check_then) (use assms in \<open>auto intro: flows_fail\<close>)
next
  case True
  obtain x where x: "c_mod (c_node_rank cfg) (g_count g) = Some x" "x < g_count g" by (rule c_mod_below [OF True])
  obtain dev where dev: "(if c_device cfg \<ge> 0 then Some (c_device cfg) else c_mod (c_node_rank cfg) (g_count g)) = Some dev"
    "c_device cfg < g_count g \<Longrightarrow> dev < g_count g"
    using x by (cases "c_device cfg \<ge> 0") auto
  obtain c h lg where s: "s = (c, h, lg)" by (cases s)
  show ?thesis
  proof (cases "dev < g_count g")
    case False
    with dev True assms show ?thesis
      unfolding create_device_def by (intro flows_check_then) (auto simp: Let_def s intro: flows_fail)
  next
    case lt: True
    with dev True assms show ?thesis
      unfolding create_device_def by (intro flows_check_then) (auto simp: Let_def s intro!: flows_check_then flows_check)
  qed
qed

lemma create_objects_flows:
  assumes p: "problem_ok p" "num_objects p \<le> INT_MAX"
    and calm: "calm \<Longrightarrow> (\<forall>call k. fault call k = None) \<and> (\<forall>k. grants env k)"
  shows "flows calm (create_objects g fault env p err s)"
proof (cases "0 < num_objects p")
  case False
  with total_elems_all [OF p, of 0 0] p(1) problem_okD(2) [OF p(1)] show ?thesis
    by (simp add: create_objects_def flows_Inr elems_from_def)
next
  case True
  obtain c h lg where s: "s = (c, h, lg)" by (cases s)
  have N: "num_objects p = int (length (objects p))" using problem_okD(2) [OF p(1)] .
  define total where "total = elems_from p 0"
  have "int (length (objects p)) * 2147395600 \<le> INT_MAX * 2147395600" using p(2) N by (intro mult_right_mono) auto
  then have tot: "0 \<le> total" "total \<le> INT_MAX * 2147395600"
    using elems_from_bound [OF p(1), of 0] elems_from_nonneg [of p 0] by (simp_all add: total_def)
  then have "total_elems p 0 0 = Some total" "ints_in total = nat total"
    using total_elems_all [OF p, of 0 0] by (simp_all add: total_def ints_in_small INT_MAX_def)
  moreover have "flows calm (upload_objects g fault p err (int 0) 0 offs dst)"
    if "length offs = length (objects p)" "length dst = nat total" for offs dst
    by (rule upload_objects_flows [OF p(1)]) (use calm that tot in \<open>auto simp: total_def INT_MAX_def\<close>)
  moreover have "flows calm (create_results g fault p err s)" for s
    unfolding create_results_def by (intro flows_rules) (use calm in auto)
  ultimately show ?thesis
    using True calm
    by (auto simp: create_objects_def s mem_alloc_def Let_def N intro!: flows_rules flows_and_then flows_with_objects)
qed

lemma create_body_flows:
  assumes p: "problem_ok p" "num_objects p \<le> INT_MAX"
    and calm: "calm \<Longrightarrow> (\<forall>call k. fault call k = None) \<and> (\<forall>k. grants env k) \<and> 0 < g_count g \<and> c_device cfg < g_count g"
  shows "flows calm (create_body g fault env p cfg err s)"
proof -
  obtain cap where cap: "msearch_max_picture_elems p = Some cap" using max_picture_elems_loaded [OF p(1)] by blast
  have "flows calm (create_pictures g fault p err s)" for s
    using calm by (cases s) (auto simp: create_pictures_def cap Let_def intro!: flows_rules)
  moreover have "flows calm (create_device g fault cfg err s)" by (rule create_device_flows) (use calm in blast)
  moreover have "flows calm (create_objects g fault env p err s)" for s
    by (rule create_objects_flows [OF p]) (use calm in blast)
  ultimately show ?thesis unfolding create_body_def by (intro flows_and_then)
qed

text \<open>On a loaded problem the body of \<open>create\<close> is never undefined.\<close>

lemma create_body_defined:
  "problem_ok p \<Longrightarrow> num_objects p \<le> INT_MAX \<Longrightarrow> create_body g fault env p cfg err s \<noteq> None"
  using create_body_flows [of p False fault env g cfg err s] by (simp add: flows_def)

lemma cuda_create_succeeds:
  assumes p: "problem_ok p" "num_objects p \<le> INT_MAX"
    and "\<forall>h call k. g_fault g h call k = None" "\<forall>k. grants env k" "0 < g_count g" "c_device cfg < g_count g"
  shows "\<exists>c lg h'. cuda_create g pf env p cfg err h = (MSEARCH_OK, Some (CudaCtx c), err, lg, h')"
proof -
  let ?m = "create_body g (g_fault g h) env p cfg err (cuda_blank p (c_zero_eps cfg), h\<lparr>requests := requests h + 1, live := live h + 1\<rparr>, [])"
  have "flows True ?m" by (rule create_body_flows [OF p]) (use assms in blast)
  then obtain c h' lg where "?m = Some (Inr (c, h', lg))"
    unfolding flows_def by (metis option.exhaust prod.exhaust sum.exhaust)
  with assms(4) show ?thesis by (simp add: cuda_create_def mem_alloc_def)
qed

text \<open>A search in which no call fails succeeds.\<close>

lemma attempts_check_calm: "fault call k = None \<Longrightarrow> Q s' \<Longrightarrow> attempts E Q (CUDA_CHECK g fault line call k err s s')"
  by (simp add: attempts_def CUDA_CHECK_def)

lemma launch_kernels_calm:
  assumes "\<forall>call k. w_cuda w call k = None"
  shows "attempts (\<lambda>_. False) (\<lambda>_. True) (launch_kernels g c w d_picture n mb err k rs)"
proof (induction "nat (num_objects (cu_problem c) - k)" arbitrary: k rs)
  case 0
  then show ?case by (subst launch_kernels.simps) (simp add: attempts_Inr)
next
  case (Suc m)
  then have "attempts (\<lambda>_. False) (\<lambda>_. True) (launch_kernels g c w d_picture n mb err (k + 1) rs)" for rs
    by (intro Suc.hyps(1)) simp
  with Suc.hyps(2) assms show ?case
    by (subst launch_kernels.simps)
      (auto simp: Let_def intro!: attempts_bind attempts_Inr attempts_and_then [OF attempts_check_calm [where Q = "\<lambda>_. True"]])
qed

lemma run_stream_calm:
  assumes "\<forall>call k. w_cuda w call k = None"
  shows "attempts (\<lambda>_. False) (\<lambda>_. True) (run_stream g c w pic mb err)"
  using assms
  by (auto simp: run_stream_def Let_def intro!: attempts_bind attempts_and_then [OF attempts_check_calm [where Q = "\<lambda>_. True"]]
      attempts_and_then [OF launch_kernels_calm] attempts_check_calm)

lemma cuda_search_calm:
  assumes "\<forall>call k. w_cuda w call k = None" "cuda_search g (CudaCtx c) w pic err = Some (st, mt, e)"
  shows "st = MSEARCH_OK \<and> e = err"
  using assms run_stream_calm [OF assms(1), of g c pic _ err]
  by (auto simp: attempts_def Let_def split: if_splits bind_splits sum.splits)

end
