(* ===== verification/Registry.thy ===== *)
theory Registry
  imports Backend_Serial Backend_OpenMP Backend_CUDA
begin

text \<open>
  The backend registry, \<open>src/backends/registry.c\<close>. The preprocessor flags \<open>MSEARCH_HAVE_CUDA\<close> and
  \<open>MSEARCH_HAVE_OPENMP\<close> are a \<open>build\<close>; a build with CUDA names the device its runtime library drives.
\<close>

section \<open>The code\<close>

record build =
  have_cuda :: "gpu option"
  have_openmp :: bool

definition kBackends :: "build \<Rightarrow> MatchBackend list" where
  "kBackends bld =
     (case have_cuda bld of None \<Rightarrow> [] | Some g \<Rightarrow> [msearch_backend_cuda g]) @
     (if have_openmp bld then [msearch_backend_openmp] else []) @
     [msearch_backend_serial]"

definition kBackendCount :: "build \<Rightarrow> cint" where
  "kBackendCount bld = int (length (kBackends bld))"

definition msearch_backend_all :: "build \<Rightarrow> MatchBackend list \<times> cint" where
  "msearch_backend_all bld = (kBackends bld, kBackendCount bld)"

fun find_from :: "MatchBackend list \<Rightarrow> string \<Rightarrow> MatchBackend option" where
  "find_from [] nm = None"
| "find_from (bk # bks) nm = (if b_name bk = nm then Some bk else find_from bks nm)"

definition msearch_backend_find :: "build \<Rightarrow> string \<Rightarrow> MatchBackend option" where
  "msearch_backend_find bld nm = find_from (kBackends bld) nm"

text \<open>The buffer \<open>char reason[128]\<close> of the loop, whose initial contents are never read.\<close>

definition reason_buffer :: errbuf where
  "reason_buffer = Some (128, [])"

fun auto_from :: "platform \<Rightarrow> MatchBackend list \<Rightarrow> MatchBackend" where
  "auto_from pf [] = msearch_backend_serial"
| "auto_from pf (bk # bks) = (if fst (b_available bk pf reason_buffer) then bk else auto_from pf bks)"

definition msearch_backend_auto :: "build \<Rightarrow> platform \<Rightarrow> MatchBackend" where
  "msearch_backend_auto bld pf = auto_from pf (kBackends bld)"

definition list_row :: "string \<Rightarrow> string \<Rightarrow> string \<Rightarrow> string" where
  "list_row a b c = pad_right 8 a @ ''  '' @ pad_right 11 b @ ''  '' @ c @ newline"

definition list_entry :: "platform \<Rightarrow> MatchBackend \<Rightarrow> string" where
  "list_entry pf bk =
     (let (ok, reason) = b_available bk pf reason_buffer in
      list_row (b_name bk) (if ok then ''available'' else ''unavailable'') (b_description bk) @
      (if \<not> ok \<and> \<not> err_empty reason
       then list_row [] [] (''('' @ snd (the reason) @ '')'') else []))"

text \<open>What \<open>msearch_backend_print_list\<close> writes to \<open>stdout\<close>.\<close>

definition msearch_backend_print_list :: "build \<Rightarrow> platform \<Rightarrow> string" where
  "msearch_backend_print_list bld pf =
     list_row ''BACKEND'' ''STATUS'' ''DESCRIPTION'' @ concat (map (list_entry pf) (kBackends bld))"

section \<open>Selection\<close>

lemma find_from_SomeD: "find_from bks nm = Some bk \<Longrightarrow> bk \<in> set bks \<and> b_name bk = nm"
  by (induction bks) (auto split: if_splits)

lemma find_from_None_iff: "find_from bks nm = None \<longleftrightarrow> (\<forall>b \<in> set bks. b_name b \<noteq> nm)"
  by (induction bks) auto

lemma backend_names [simp]:
  "b_name msearch_backend_serial = ''serial''" "b_name msearch_backend_openmp = ''openmp''"
  "b_name (msearch_backend_cuda g) = ''cuda''"
  by (simp_all add: msearch_backend_serial_def msearch_backend_openmp_def msearch_backend_cuda_def)

lemma cpu_available [simp]:
  "b_available msearch_backend_serial pf r = (True, r)" "b_available msearch_backend_openmp pf r = (True, r)"
  by (simp_all add: msearch_backend_serial_def msearch_backend_openmp_def serial_available_def openmp_available_def)

lemma auto_from_available:
  "fst (b_available (auto_from pf bks) pf reason_buffer)"
  by (induction bks) auto

lemma auto_from_first:
  "\<exists>pre post. bks @ [msearch_backend_serial] = pre @ auto_from pf (bks @ [msearch_backend_serial]) # post \<and>
     (\<forall>b \<in> set pre. \<not> fst (b_available b pf reason_buffer))"
proof (induction bks)
  case Nil
  show ?case by (rule exI [of _ "[]"]) simp
next
  case (Cons a bks)
  then obtain pre post where IH: "bks @ [msearch_backend_serial] =
      pre @ auto_from pf (bks @ [msearch_backend_serial]) # post"
    "\<forall>b \<in> set pre. \<not> fst (b_available b pf reason_buffer)" by blast
  show ?case
  proof (cases "fst (b_available a pf reason_buffer)")
    case True
    then show ?thesis by - (rule exI [of _ "[]"], simp)
  next
    case False
    with IH show ?thesis by (intro exI [of _ "a # pre"] exI [of _ post]) simp
  qed
qed

section \<open>Builds whose device honours the library\<close>

definition devices_ok :: "build \<Rightarrow> bool" where
  "devices_ok bld \<longleftrightarrow> (case have_cuda bld of None \<Rightarrow> True | Some g \<Rightarrow> gpu_ok g)"

lemma registry_match_backend:
  assumes "bk \<in> set (kBackends bld)" "devices_ok bld"
  shows "match_backend bk"
  using assms serial.match_backend_axioms openmp.match_backend_axioms cuda_match_backend
  by (auto simp: kBackends_def devices_ok_def split: option.splits if_splits)

section \<open>Properties\<close>

text \<open>C20: The automatic choice is a compiled-in backend that is available now, and every backend listed
  before it is not: the registry's order is its preference.\<close>

theorem backend_auto_preference:
  "\<exists>pre post. kBackends bld = pre @ msearch_backend_auto bld pf # post \<and>
     fst (b_available (msearch_backend_auto bld pf) pf reason_buffer) \<and>
     (\<forall>b \<in> set pre. \<not> fst (b_available b pf reason_buffer))"
proof -
  obtain bks where "kBackends bld = bks @ [msearch_backend_serial]"
    by (simp add: kBackends_def)
  then show ?thesis
    using auto_from_first [of bks pf] auto_from_available [of pf "kBackends bld"]
    by (simp add: msearch_backend_auto_def)
qed

text \<open>A lookup by name finds a compiled-in backend of that name and fails only for a name no
  backend has; the serial backend is found in every build, the OpenMP and the CUDA backend exactly in a
  build that has them, and \<open>auto\<close> is the name of none.\<close>

theorem backend_find_by_name:
  "(case msearch_backend_find bld nm of
      None \<Rightarrow> nm \<notin> b_name ` set (kBackends bld)
    | Some bk \<Rightarrow> bk \<in> set (kBackends bld) \<and> b_name bk = nm) \<and>
    msearch_backend_find bld ''serial'' = Some msearch_backend_serial \<and>
    msearch_backend_find bld ''openmp'' = (if have_openmp bld then Some msearch_backend_openmp else None) \<and>
    msearch_backend_find bld ''cuda'' = map_option msearch_backend_cuda (have_cuda bld) \<and>
    msearch_backend_find bld ''auto'' = None"
proof -
  have "case msearch_backend_find bld nm of
      None \<Rightarrow> nm \<notin> b_name ` set (kBackends bld)
    | Some bk \<Rightarrow> bk \<in> set (kBackends bld) \<and> b_name bk = nm"
    by (auto simp: msearch_backend_find_def find_from_None_iff split: option.split
      dest: find_from_SomeD)
  then show ?thesis
    by (auto simp: msearch_backend_find_def kBackends_def split: option.splits)
qed

theorem backend_find_by_name_witness:
  "msearch_backend_find \<lparr>have_cuda = None, have_openmp = True\<rparr> ''serial'' = Some msearch_backend_serial \<and>
   msearch_backend_find \<lparr>have_cuda = None, have_openmp = True\<rparr> ''openmp'' = Some msearch_backend_openmp \<and>
   msearch_backend_find \<lparr>have_cuda = None, have_openmp = False\<rparr> ''openmp'' = None"
  using backend_find_by_name [where bld = "\<lparr>have_cuda = None, have_openmp = True\<rparr>"]
    backend_find_by_name [where bld = "\<lparr>have_cuda = None, have_openmp = False\<rparr>"]
  by simp

text \<open>C1: The OpenMP backend returns the serial backend's answer, in value and in status, on every
  picture of the problem, for every configuration, thread team and schedule.\<close>

theorem openmp_equals_serial:
  assumes "problem_ok p" "eps_ok (c_zero_eps cfg)" "pic \<in> set (pictures p)"
    and "serial_create pf env p cfg err h = (MSEARCH_OK, Some sctx, err1, lg1, h1)"
    and "openmp_create pf env p cfg err h = (MSEARCH_OK, Some octx, err2, lg2, h2)"
  shows "\<exists>mt. serial_search sctx w pic err = Some (MSEARCH_OK, mt, err) \<and>
    openmp_search octx w' pic err = Some (MSEARCH_OK, mt, err) \<and> contract p (c_zero_eps cfg) pic mt"
proof -
  have "contract p (c_zero_eps cfg) pic (canonical_match p (c_zero_eps cfg) pic)"
    by (rule canonical_match_contract) (use problem_okD [OF assms(1)] in auto)
  with serial_create_cases [OF assms(4)] openmp_create_cases [OF assms(5)]
    serial_search_canonical openmp_search_canonical problem_ok_picture assms(1-3)
  show ?thesis by auto
qed

definition tiny_problem :: Problem where
  "tiny_problem = \<lparr>threshold = dof_int 1, num_pictures = 1, pictures = [two_hits],
     num_objects = 1, objects = [one_cell]\<rparr>"

definition granting :: env where
  "granting = \<lparr>grants = (\<lambda>_. True), junk = (\<lambda>_. 0)\<rparr>"

lemma tiny_problem_ok: "problem_ok tiny_problem"
  by code_simp

theorem openmp_equals_serial_witness:
  "\<forall>w w'. \<exists>mt. serial_search (SerialCtx tiny_problem MSEARCH_DEFAULT_ZERO_EPS) w two_hits None = Some (MSEARCH_OK, mt, None) \<and>
    openmp_search (OpenMpCtx tiny_problem MSEARCH_DEFAULT_ZERO_EPS 4) w' two_hits None = Some (MSEARCH_OK, mt, None)"
proof -
  let ?pf = "\<lparr>omp_num_threads_set = True, omp_max_threads = 4\<rparr>" and ?h = "\<lparr>requests = 0, live = 0\<rparr>"
  obtain h1 where c1: "serial_create ?pf granting tiny_problem msearch_config_defaults None ?h =
      (MSEARCH_OK, Some (SerialCtx tiny_problem MSEARCH_DEFAULT_ZERO_EPS), None, [], h1)"
    by (simp add: serial_create_def mem_alloc_def granting_def msearch_config_defaults_def)
  obtain lg h2 where c2: "openmp_create ?pf granting tiny_problem msearch_config_defaults None ?h =
      (MSEARCH_OK, Some (OpenMpCtx tiny_problem MSEARCH_DEFAULT_ZERO_EPS 4), None, lg, h2)"
    by (simp add: openmp_create_def mem_alloc_def granting_def msearch_config_defaults_def resolve_thread_count_def)
  have "two_hits \<in> set (pictures tiny_problem)" "eps_ok (c_zero_eps msearch_config_defaults)"
    by (simp_all add: tiny_problem_def msearch_config_defaults_def eps_ok_default)
  from openmp_equals_serial [OF tiny_problem_ok this(2,1) c1 c2] show ?thesis by blast
qed

theorem backend_auto_preference_witness:
  "msearch_backend_auto \<lparr>have_cuda = None, have_openmp = True\<rparr> \<lparr>omp_num_threads_set = False, omp_max_threads = 8\<rparr> =
    msearch_backend_openmp"
proof -
  let ?bld = "\<lparr>have_cuda = None, have_openmp = True\<rparr>" and ?pf = "\<lparr>omp_num_threads_set = False, omp_max_threads = 8\<rparr>"
  obtain pre post where p: "kBackends ?bld = pre @ msearch_backend_auto ?bld ?pf # post"
    "\<forall>b \<in> set pre. \<not> fst (b_available b ?pf reason_buffer)"
    using backend_auto_preference [of ?bld ?pf] by blast
  have k: "kBackends ?bld = [msearch_backend_openmp, msearch_backend_serial]" by (simp add: kBackends_def)
  have "pre = []" using p k by (cases pre) auto
  with p(1) k show ?thesis by simp
qed

text \<open>C7: A kernel launch with any number of blocks, under any interleaving of its threads, ends without
  undefined behaviour; if no lower object has matched it leaves the lowest matching key in the cell of
  its object, or the sentinel when no placement matches, and touches no other cell; if a lower object has
  matched it changes nothing. What follows the picture and the object in their buffers is never looked at.\<close>

theorem cuda_kernel_any_schedule:
  assumes "picture_ok pic" "object_ok obj" "eps_ok eps" "thr \<noteq> NaN" "0 < span_of pic obj"
    and "p_data pic = Some pd" "o_data obj = Some od" "1 \<le> blocks" "int32 blocks"
    and "k < length rs" "rs ! k = MSEARCH_NO_PLACEMENT"
  shows "k_search_thread_per_placement
      \<lparr>ka_picture = pd @ stale, ka_n = p_n pic, ka_object = od @ others, ka_m = o_m obj, ka_span = span_of pic obj,
        ka_placements = span_of pic obj * span_of pic obj, ka_thr = thr, ka_eps = eps, ka_index = int k\<rparr> blocks sched rs =
    Some (if \<exists>j < k. rs ! j \<noteq> MSEARCH_NO_PLACEMENT then rs
          else case first_hit thr eps pic obj of None \<Rightarrow> rs | Some key \<Rightarrow> rs[k := key])"
proof (cases "\<exists>j < k. rs ! j \<noteq> MSEARCH_NO_PLACEMENT")
  case True
  then obtain j where "j < k" "rs ! j \<noteq> MSEARCH_NO_PLACEMENT" by blast
  with True assms(10) kernel_skips show ?thesis by simp
next
  case False
  then have "\<forall>j \<le> k. rs ! j = MSEARCH_NO_PLACEMENT" using assms(11) by (auto simp: le_less)
  from kernel_first_hit [OF assms(1-5,10) this assms(8,9), of stale others sched] show ?thesis
    unfolding if_not_P [OF False] by (simp add: args_of_def assms(6,7))
qed

theorem cuda_kernel_any_schedule_witness:
  "k_search_thread_per_placement
      \<lparr>ka_picture = [1, 3, 3, 1] @ [7, 7], ka_n = 2, ka_object = [3] @ [], ka_m = 1, ka_span = 2, ka_placements = 4,
        ka_thr = dof_int 1, ka_eps = MSEARCH_DEFAULT_ZERO_EPS, ka_index = 1\<rparr> 1 (\<lambda>t. 5 * t)
      [MSEARCH_NO_PLACEMENT, MSEARCH_NO_PLACEMENT] = Some [MSEARCH_NO_PLACEMENT, 1]"
proof -
  have sp: "span_of two_hits one_cell = 2" by code_simp
  have first: "first_hit (dof_int 1) MSEARCH_DEFAULT_ZERO_EPS two_hits one_cell = Some 1" by code_simp
  have ok: "picture_ok two_hits" "object_ok one_cell" "dof_int 1 \<noteq> NaN" by code_simp+
  have d: "p_data two_hits = Some [1, 3, 3, 1]" "o_data one_cell = Some [3]" "p_n two_hits = 2" "o_m one_cell = 1"
    by (simp_all add: two_hits_def one_cell_def)
  show ?thesis
    using cuda_kernel_any_schedule [OF ok(1,2) eps_ok_default ok(3) _ d(1,2), of 1 1
        "[MSEARCH_NO_PLACEMENT, MSEARCH_NO_PLACEMENT]" "[7, 7]" "[]" "\<lambda>t. 5 * t"]
    by (simp add: sp first d(3,4) int_ranges)
qed

text \<open>C34: Whichever call of the CUDA runtime fails and whichever allocation, \<open>create\<close> keeps everything or
  nothing: on failure every block it took is given back, on success \<open>destroy\<close> gives back exactly what
  \<open>create\<close> took; on a loaded problem it reaches no undefined behaviour, and it succeeds when no call fails
  and the device asked for exists.\<close>

theorem cuda_create_all_or_nothing:
  assumes "problem_ok p" "num_objects p \<le> INT_MAX"
  shows "\<exists>st ctx err' lg h'. cuda_create g pf env p cfg err h = (st, ctx, err', lg, h') \<and>
    (case ctx of None \<Rightarrow> st \<noteq> MSEARCH_OK \<and> live h' = live h
     | Some c \<Rightarrow> st = MSEARCH_OK \<and> live (cuda_destroy (Some c) h') = live h) \<and>
    create_body g (g_fault g h) env p cfg err (cuda_blank p (c_zero_eps cfg), h'', []) \<noteq> None \<and>
    ((\<forall>h call k. g_fault g h call k = None) \<longrightarrow> (\<forall>k. grants env k) \<longrightarrow> 0 < g_count g \<longrightarrow>
      c_device cfg < g_count g \<longrightarrow> st = MSEARCH_OK)"
proof -
  obtain st ctx err' lg h' where c: "cuda_create g pf env p cfg err h = (st, ctx, err', lg, h')"
    by (cases "cuda_create g pf env p cfg err h") auto
  moreover have "case ctx of None \<Rightarrow> st \<noteq> MSEARCH_OK \<and> live h' = live h
     | Some c \<Rightarrow> st = MSEARCH_OK \<and> live (cuda_destroy (Some c) h') = live h"
    by (rule cuda_create_cases [OF c]) (auto simp: cuda_destroy_live simp del: cuda_destroy.simps)
  moreover have "st = MSEARCH_OK" if "\<forall>h call k. g_fault g h call k = None" "\<forall>k. grants env k" "0 < g_count g" "c_device cfg < g_count g"
    using cuda_create_succeeds [OF assms that, of pf err h] c by auto
  moreover note create_body_defined [OF assms]
  ultimately show ?thesis by (intro exI conjI) auto
qed

definition one_gpu :: "string option \<Rightarrow> gpu" where
  "one_gpu failure =
     \<lparr>g_count_error = None, g_count = 1, g_name = (\<lambda>_. ''GPU''), g_sms = (\<lambda>_. 80), g_where = (\<lambda>l. ''backend_cuda.cu:'' @ show_int l),
      g_fault = (\<lambda>h call k. if call = ''cudaStreamCreate(&c->stream)'' then failure else None)\<rparr>"

lemma one_gpu_ok: "gpu_ok (one_gpu failure)"
  by (simp add: gpu_ok_def one_gpu_def MSEARCH_CUDA_BLOCKS_PER_SM_def int_ranges)

theorem cuda_create_all_or_nothing_witness:
  "\<exists>ctx err' lg h'. cuda_create (one_gpu None) \<lparr>omp_num_threads_set = False, omp_max_threads = 8\<rparr> granting tiny_problem
      msearch_config_defaults None \<lparr>requests = 0, live = 0\<rparr> = (MSEARCH_OK, Some ctx, err', lg, h') \<and>
    live (cuda_destroy (Some ctx) h') = 0"
proof -
  have n: "num_objects tiny_problem \<le> INT_MAX" by (simp add: tiny_problem_def INT_MAX_def)
  have g: "0 < g_count (one_gpu None)" "c_device msearch_config_defaults < g_count (one_gpu None)"
    "\<forall>h call k. g_fault (one_gpu None) h call k = None" "\<forall>k. grants granting k"
    by (simp_all add: one_gpu_def granting_def msearch_config_defaults_def)
  from cuda_create_all_or_nothing [OF tiny_problem_ok n, of "one_gpu None" "\<lparr>omp_num_threads_set = False, omp_max_threads = 8\<rparr>" granting
      msearch_config_defaults None "\<lparr>requests = 0, live = 0\<rparr>"] g
  show ?thesis by (fastforce split: option.splits simp del: cuda_destroy.simps)
qed

text \<open>C6: A search on the GPU reaches no undefined behaviour, and when it reports success its match is the
  serial backend's: for every problem, picture of it, configuration and schedule of the kernels, whatever
  earlier searches left in the buffers. It reports success when no call of the CUDA runtime fails.\<close>

theorem cuda_equals_serial:
  assumes "gpu_ok g" "problem_ok p" "eps_ok (c_zero_eps cfg)" "pic \<in> set (pictures p)"
    and "serial_create pf env p cfg err h = (MSEARCH_OK, Some sctx, err1, lg1, h1)"
    and "cuda_create g pf env' p cfg err h = (MSEARCH_OK, Some cctx, err2, lg2, h2)"
  shows "\<exists>mt st mt' err'. serial_search sctx w pic err = Some (MSEARCH_OK, mt, err) \<and>
    cuda_search g cctx w' pic err = Some (st, mt', err') \<and> (st = MSEARCH_OK \<longrightarrow> mt' = mt) \<and>
    ((\<forall>call k. w_cuda w' call k = None) \<longrightarrow> st = MSEARCH_OK)"
proof -
  obtain c where c: "cctx = CudaCtx c" "context_ok p (c_zero_eps cfg) c"
    using assms(1,2) by (auto intro: cuda_create_cases [OF assms(6)])
  obtain st mt' e where s: "cuda_search g cctx w' pic err = Some (st, mt', e)"
    "st = MSEARCH_OK \<longrightarrow> mt' = canonical_match p (c_zero_eps cfg) pic"
    using cuda_search_canonical [OF c(2) assms(2-4), of g w' err] c(1) by blast
  have "serial_search sctx w pic err = Some (MSEARCH_OK, canonical_match p (c_zero_eps cfg) pic, err)"
    using serial_create_cases [OF assms(5)] serial_search_canonical [OF assms(2,3) problem_ok_picture [OF assms(2,4)]] by auto
  with s cuda_search_calm [of w' g c pic err st mt' e] c(1) show ?thesis by blast
qed

theorem cuda_equals_serial_witness:
  "\<exists>ctx err' lg h' mt. cuda_create (one_gpu None) \<lparr>omp_num_threads_set = False, omp_max_threads = 8\<rparr> granting tiny_problem
      msearch_config_defaults None \<lparr>requests = 0, live = 0\<rparr> = (MSEARCH_OK, Some ctx, err', lg, h') \<and>
    (\<forall>sched stale w. \<exists>e. cuda_search (one_gpu None) ctx
        \<lparr>w_team = (\<lambda>_. 1), w_sched = sched, w_stale = stale, w_cuda = (\<lambda>_ _. None)\<rparr> two_hits None = Some (MSEARCH_OK, mt, e) \<and>
      serial_search (SerialCtx tiny_problem MSEARCH_DEFAULT_ZERO_EPS) w two_hits None = Some (MSEARCH_OK, mt, None))"
proof -
  let ?pf = "\<lparr>omp_num_threads_set = False, omp_max_threads = 8\<rparr>" and ?h = "\<lparr>requests = 0, live = 0\<rparr>"
  have n: "num_objects tiny_problem \<le> INT_MAX" by (simp add: tiny_problem_def INT_MAX_def)
  obtain c lg h' where cr: "cuda_create (one_gpu None) ?pf granting tiny_problem msearch_config_defaults None ?h =
      (MSEARCH_OK, Some (CudaCtx c), None, lg, h')"
    using cuda_create_succeeds [OF tiny_problem_ok n, of "one_gpu None" granting msearch_config_defaults ?pf None ?h]
    by (auto simp: one_gpu_def granting_def msearch_config_defaults_def)
  obtain h1 where sc: "serial_create ?pf granting tiny_problem msearch_config_defaults None ?h =
      (MSEARCH_OK, Some (SerialCtx tiny_problem MSEARCH_DEFAULT_ZERO_EPS), None, [], h1)"
    by (simp add: serial_create_def mem_alloc_def granting_def msearch_config_defaults_def)
  have pic: "eps_ok (c_zero_eps msearch_config_defaults)" "two_hits \<in> set (pictures tiny_problem)"
    by (simp_all add: tiny_problem_def msearch_config_defaults_def eps_ok_default)
  note eq = cuda_equals_serial [OF one_gpu_ok tiny_problem_ok pic sc cr]
  let ?mt = "canonical_match tiny_problem MSEARCH_DEFAULT_ZERO_EPS two_hits"
  have ser: "serial_search (SerialCtx tiny_problem MSEARCH_DEFAULT_ZERO_EPS) w two_hits None = Some (MSEARCH_OK, ?mt, None)" for w
    using serial_search_canonical [OF tiny_problem_ok eps_ok_default] problem_ok_picture [OF tiny_problem_ok pic(2)] by blast
  have "\<exists>e. cuda_search (one_gpu None) (CudaCtx c)
        \<lparr>w_team = (\<lambda>_. 1), w_sched = sched, w_stale = stale, w_cuda = (\<lambda>_ _. None)\<rparr> two_hits None = Some (MSEARCH_OK, ?mt, e)" for sched stale
    using eq [of undefined "\<lparr>w_team = (\<lambda>_. 1), w_sched = sched, w_stale = stale, w_cuda = (\<lambda>_ _. None)\<rparr>"] ser [of undefined]
    by (auto simp del: cuda_search.simps serial_search.simps)
  with cr ser show ?thesis by blast
qed

end
