(* ===== verification/Parser.thy ===== *)
theory Parser
  imports Problem
begin

text \<open>
  The reader of the problem format, \<open>src/core/parser.c\<close> and \<open>include/msearch/io.h\<close>: the lexer over a
  byte stream, the typed token readers, and \<open>msearch_read_problem_stream\<close> with its single cleanup
  path. A stream is the string of bytes \<open>fgetc\<close> still delivers; \<open>EOF\<close> is \<open>None\<close>. An out-parameter that
  is only meaningful on success is the right side of a sum whose left side is the failing status.

  The lexer is characterised by the token list of its remaining input, which is what the theorems on
  the reader are about: the layout of a file does not matter, a printed problem reads back, a
  successful read establishes \<open>problem_ok\<close>, and a failed one gives every allocation back.
\<close>

section \<open>The lexer\<close>

definition TOKEN_MAX :: nat where
  "TOKEN_MAX = 64"

record Lexer =
  lx_input :: string
  lx_path :: string
  lx_line :: int
  lx_token :: string

definition lexer_init :: "string \<Rightarrow> string \<Rightarrow> Lexer" where
  "lexer_init input path = \<lparr>lx_input = input, lx_path = path, lx_line = 1, lx_token = []\<rparr>"

definition lexer_getc :: "Lexer \<Rightarrow> char option \<times> Lexer" where
  "lexer_getc lx =
     (case lx_input lx of
        [] \<Rightarrow> (None, lx)
      | c # rest \<Rightarrow>
          (Some c, if c = CHR 0x0A then lx\<lparr>lx_input := rest, lx_line := lx_line lx + 1\<rparr>
                   else lx\<lparr>lx_input := rest\<rparr>))"

lemma lexer_getc_shorter:
  "lexer_getc lx = (Some c, lx') \<Longrightarrow> length (lx_input lx') < length (lx_input lx)"
  by (auto simp: lexer_getc_def split: list.splits if_splits)

text \<open>The inner loops: over white space, to the end of a comment, and both until a token starts.\<close>

function skip_space :: "Lexer \<Rightarrow> char option \<times> Lexer" where
  "skip_space lx =
     (case lexer_getc lx of
        (None, lx') \<Rightarrow> (None, lx')
      | (Some c, lx') \<Rightarrow> if isspace c then skip_space lx' else (Some c, lx'))"
  by pat_completeness auto
termination
  by (relation "measure (\<lambda>lx. length (lx_input lx))") (auto dest: lexer_getc_shorter [OF sym])

function skip_comment :: "char option \<Rightarrow> Lexer \<Rightarrow> char option \<times> Lexer" where
  "skip_comment c lx =
     (if c \<noteq> None \<and> c \<noteq> Some (CHR 0x0A)
      then (case lexer_getc lx of
              (None, lx') \<Rightarrow> (None, lx')
            | (Some d, lx') \<Rightarrow> skip_comment (Some d) lx')
      else (c, lx))"
  by pat_completeness auto
termination
  by (relation "measure (\<lambda>(c, lx). length (lx_input lx))")
    (auto dest: lexer_getc_shorter split: prod.splits)

declare skip_space.simps [simp del] skip_comment.simps [simp del]

lemma skip_space_shorter:
  "skip_space lx = (Some c, lx') \<Longrightarrow> length (lx_input lx') < length (lx_input lx)"
proof (induction lx arbitrary: c lx' rule: skip_space.induct)
  case (1 lx)
  then show ?case
    by (subst (asm) (2) skip_space.simps)
      (auto split: prod.splits option.splits if_splits dest!: lexer_getc_shorter intro: less_trans)
qed

lemma skip_comment_shorter:
  "skip_comment c lx = (d, lx') \<Longrightarrow> length (lx_input lx') \<le> length (lx_input lx)"
proof (induction c lx arbitrary: d lx' rule: skip_comment.induct)
  case (1 c lx)
  show ?case
  proof (cases "c \<noteq> None \<and> c \<noteq> Some (CHR 0x0A)")
    case False
    with "1.prems" show ?thesis by (subst (asm) skip_comment.simps) auto
  next
    case True
    show ?thesis
    proof (cases "fst (lexer_getc lx)")
      case None
      with True "1.prems" show ?thesis
        by (subst (asm) skip_comment.simps) (auto simp: lexer_getc_def split: list.splits)
    next
      case (Some e)
      then obtain lx1 where g: "lexer_getc lx = (Some e, lx1)" by (cases "lexer_getc lx") auto
      with True "1.prems" have "skip_comment (Some e) lx1 = (d, lx')"
        by (subst (asm) skip_comment.simps) simp
      with "1.IH" [OF True g [symmetric]] lexer_getc_shorter [OF g] show ?thesis by force
    qed
  qed
qed

function skip_blank :: "Lexer \<Rightarrow> char option \<times> Lexer" where
  "skip_blank lx =
     (case skip_space lx of
        (None, lx1) \<Rightarrow> (None, lx1)
      | (Some c, lx1) \<Rightarrow>
          if c \<noteq> CHR ''#'' then (Some c, lx1)
          else (case skip_comment (Some c) lx1 of
                  (None, lx2) \<Rightarrow> (None, lx2)
                | (Some d, lx2) \<Rightarrow> skip_blank lx2))"
  by pat_completeness auto
termination
  by (relation "measure (\<lambda>lx. length (lx_input lx))")
    (auto dest!: skip_space_shorter [OF sym] skip_comment_shorter [OF sym])

text \<open>The loop that collects a token; \<open>None\<close> as its text means the token is too long.\<close>

function collect :: "char option \<Rightarrow> string \<Rightarrow> Lexer \<Rightarrow> string option \<times> char option \<times> Lexer" where
  "collect c tok lx =
     (case c of
        None \<Rightarrow> (Some tok, None, lx)
      | Some ch \<Rightarrow>
          if isspace ch then (Some tok, c, lx)
          else if length tok + 1 \<ge> TOKEN_MAX then (None, c, lx)
          else (case lexer_getc lx of (d, lx') \<Rightarrow> collect d (tok @ [ch]) lx'))"
  by pat_completeness auto
termination
  by (relation "measure (\<lambda>(c, tok, lx). TOKEN_MAX - length tok)") (auto simp: TOKEN_MAX_def)

declare skip_blank.simps [simp del] collect.simps [simp del]

definition lexer_next :: "Lexer \<Rightarrow> errbuf \<Rightarrow> bool \<times> Lexer \<times> errbuf" where
  "lexer_next lx err =
     (case skip_blank lx of
        (None, lx1) \<Rightarrow> (False, lx1, err)
      | (Some c, lx1) \<Rightarrow>
          (case collect (Some c) [] lx1 of
             (None, _, lx2) \<Rightarrow>
               (False, lx2, msearch_set_err err (lx_path lx2 @ '':'' @ show_int (lx_line lx2) @
                  '': token longer than '' @ show_int (int TOKEN_MAX - 1) @ '' characters''))
           | (Some tok, d, lx2) \<Rightarrow>
               let lx3 = (if d = Some (CHR 0x0A) then lx2\<lparr>lx_line := lx_line lx2 - 1\<rparr> else lx2)
               in (tok \<noteq> [], lx3\<lparr>lx_token := tok\<rparr>, err)))"

section \<open>Typed tokens\<close>

definition unexpected_end :: "Lexer \<Rightarrow> string \<Rightarrow> errbuf \<Rightarrow> errbuf" where
  "unexpected_end lx what err =
     (if err_empty err
      then msearch_set_err err (lx_path lx @ '':'' @ show_int (lx_line lx) @
             '': unexpected end of input, expected '' @ what)
      else err)"

definition bad_token :: "Lexer \<Rightarrow> string \<Rightarrow> errbuf \<Rightarrow> errbuf" where
  "bad_token lx what err =
     msearch_set_err err (lx_path lx @ '':'' @ show_int (lx_line lx) @ '': expected '' @ what @
       '', got '' @ [CHR 0x27] @ c_str (lx_token lx) @ [CHR 0x27])"

definition expect_int :: "Lexer \<Rightarrow> string \<Rightarrow> errbuf \<Rightarrow> (Status + cint) \<times> Lexer \<times> errbuf" where
  "expect_int lx what err =
     (case lexer_next lx err of
        (False, lx1, err1) \<Rightarrow> (Inl MSEARCH_ERR_PARSE, lx1, unexpected_end lx1 what err1)
      | (True, lx1, err1) \<Rightarrow>
          let tok = c_str (lx_token lx1); (v, used, erange) = strtol tok in
          if used = 0 \<or> used \<noteq> length tok \<or> erange \<or> v < INT_MIN \<or> v > INT_MAX
          then (Inl MSEARCH_ERR_PARSE, lx1, bad_token lx1 what err1)
          else (Inr v, lx1, err1))"

definition expect_double :: "Lexer \<Rightarrow> string \<Rightarrow> errbuf \<Rightarrow> (Status + dbl) \<times> Lexer \<times> errbuf" where
  "expect_double lx what err =
     (case lexer_next lx err of
        (False, lx1, err1) \<Rightarrow> (Inl MSEARCH_ERR_PARSE, lx1, unexpected_end lx1 what err1)
      | (True, lx1, err1) \<Rightarrow>
          let tok = c_str (lx_token lx1); (v, used, erange) = strtod tok in
          if used = 0 \<or> used \<noteq> length tok \<or> erange
          then (Inl MSEARCH_ERR_PARSE, lx1, bad_token lx1 what err1)
          else (Inr v, lx1, err1))"

text \<open>The element loop of \<open>read_matrix\<close>; the matrix is filled in place.\<close>

definition element_label :: "int \<Rightarrow> int \<Rightarrow> string \<Rightarrow> cint \<Rightarrow> string" where
  "element_label i elems what pid =
     take 95 (''element '' @ show_int (i + 1) @ '' of '' @ show_int elems @ '' for '' @ what @ '' '' @ show_int pid)"

function read_elements ::
  "Lexer \<Rightarrow> cint list \<Rightarrow> int \<Rightarrow> int \<Rightarrow> string \<Rightarrow> cint \<Rightarrow> errbuf \<Rightarrow>
    (Status \<times> cint list \<times> Lexer \<times> errbuf) option" where
  "read_elements lx data i elems what pid err =
     (if i < elems then
        (case expect_int lx (element_label i elems what pid) err of
           (Inl st, lx1, err1) \<Rightarrow> Some (st, data, lx1, err1)
         | (Inr v, lx1, err1) \<Rightarrow> do {
             data' \<leftarrow> store data i v;
             read_elements lx1 data' (i + 1) elems what pid err1
           })
      else Some (MSEARCH_OK, data, lx, err))"
  by pat_completeness auto
termination
  by (relation "measure (\<lambda>(lx, data, i, elems, what, pid, err). nat (elems - i))") auto

declare read_elements.simps [simp del]

definition read_matrix ::
  "Lexer \<Rightarrow> cint list \<Rightarrow> cint \<Rightarrow> string \<Rightarrow> cint \<Rightarrow> errbuf \<Rightarrow>
    (Status \<times> cint list \<times> Lexer \<times> errbuf) option" where
  "read_matrix lx data side what pid err =
     read_elements lx data 0 (size_t (size_t side * size_t side)) what pid err"

definition MSEARCH_MAX_COUNT :: cint where
  "MSEARCH_MAX_COUNT = 1000000"

definition read_count :: "Lexer \<Rightarrow> string \<Rightarrow> errbuf \<Rightarrow> (Status + cint) \<times> Lexer \<times> errbuf" where
  "read_count lx what err =
     (case expect_int lx what err of
        (Inl st, lx1, err1) \<Rightarrow> (Inl st, lx1, err1)
      | (Inr v, lx1, err1) \<Rightarrow>
          if v < 0 \<or> v > MSEARCH_MAX_COUNT
          then (Inl MSEARCH_ERR_INVALID, lx1,
                msearch_set_err err1 (lx_path lx1 @ '':'' @ show_int (lx_line lx1) @ '': '' @ what @
                  '' must be in [0, '' @ show_int MSEARCH_MAX_COUNT @ ''], got '' @ show_int v))
          else (Inr v, lx1, err1))"

section \<open>The reader\<close>

text \<open>One picture: its id, its size, its matrix.\<close>

function read_pictures ::
  "env \<Rightarrow> Lexer \<Rightarrow> Problem \<Rightarrow> cint \<Rightarrow> cint \<Rightarrow> errbuf \<Rightarrow> heap \<Rightarrow>
    (Status \<times> Problem \<times> Lexer \<times> errbuf \<times> heap) option" where
  "read_pictures env lx out i n err h =
     (if i < n then
        (case expect_int lx ''picture id'' err of
           (Inl st, lx1, err1) \<Rightarrow> Some (st, out, lx1, err1, h)
         | (Inr pid, lx1, err1) \<Rightarrow>
        (case expect_int lx1 ''picture size'' err1 of
           (Inl st, lx2, err2) \<Rightarrow> Some (st, out, lx2, err2, h)
         | (Inr side, lx2, err2) \<Rightarrow> do {
             p0 \<leftarrow> load (pictures out) i;
             let (st, p1, err3, h1) = msearch_picture_alloc env p0 pid side err2 h;
             ps1 \<leftarrow> store (pictures out) i p1;
             if st \<noteq> MSEARCH_OK then Some (st, out\<lparr>pictures := ps1\<rparr>, lx2, err3, h1)
             else do {
               data \<leftarrow> p_data p1;
               (st, data', lx3, err4) \<leftarrow> read_matrix lx2 data side ''picture'' pid err3;
               ps2 \<leftarrow> store ps1 i (p1\<lparr>p_data := Some data'\<rparr>);
               if st \<noteq> MSEARCH_OK then Some (st, out\<lparr>pictures := ps2\<rparr>, lx3, err4, h1)
               else read_pictures env lx3 (out\<lparr>pictures := ps2\<rparr>) (i + 1) n err4 h1
             }
           }))
      else Some (MSEARCH_OK, out, lx, err, h))"
  by pat_completeness auto
termination
  by (relation "measure (\<lambda>(env, lx, out, i, n, err, h). nat (n - i))") auto

function read_objects ::
  "env \<Rightarrow> Lexer \<Rightarrow> Problem \<Rightarrow> cint \<Rightarrow> cint \<Rightarrow> errbuf \<Rightarrow> heap \<Rightarrow>
    (Status \<times> Problem \<times> Lexer \<times> errbuf \<times> heap) option" where
  "read_objects env lx out k n err h =
     (if k < n then
        (case expect_int lx ''object id'' err of
           (Inl st, lx1, err1) \<Rightarrow> Some (st, out, lx1, err1, h)
         | (Inr oid, lx1, err1) \<Rightarrow>
        (case expect_int lx1 ''object size'' err1 of
           (Inl st, lx2, err2) \<Rightarrow> Some (st, out, lx2, err2, h)
         | (Inr side, lx2, err2) \<Rightarrow> do {
             p0 \<leftarrow> load (objects out) k;
             let (st, p1, err3, h1) = msearch_object_alloc env p0 oid side err2 h;
             os1 \<leftarrow> store (objects out) k p1;
             if st \<noteq> MSEARCH_OK then Some (st, out\<lparr>objects := os1\<rparr>, lx2, err3, h1)
             else do {
               data \<leftarrow> o_data p1;
               (st, data', lx3, err4) \<leftarrow> read_matrix lx2 data side ''object'' oid err3;
               os2 \<leftarrow> store os1 k (p1\<lparr>o_data := Some data'\<rparr>);
               if st \<noteq> MSEARCH_OK then Some (st, out\<lparr>objects := os2\<rparr>, lx3, err4, h1)
               else read_objects env lx3 (out\<lparr>objects := os2\<rparr>) (k + 1) n err4 h1
             }
           }))
      else Some (MSEARCH_OK, out, lx, err, h))"
  by pat_completeness auto
termination
  by (relation "measure (\<lambda>(env, lx, out, k, n, err, h). nat (n - k))") auto

declare read_pictures.simps [simp del] read_objects.simps [simp del]

type_synonym read_result = "Status \<times> Problem \<times> errbuf \<times> log_event list \<times> heap"

text \<open>The label \<open>fail\<close>.\<close>

definition read_fail :: "Status \<Rightarrow> Problem \<Rightarrow> errbuf \<Rightarrow> log_event list \<Rightarrow> heap \<Rightarrow> read_result option" where
  "read_fail st out err lg h = do {
     (p, h') \<leftarrow> msearch_problem_free (Some out) h;
     Some (st, the p, err, lg, h')
   }"

text \<open>From the object count on.\<close>

definition read_tail :: "env \<Rightarrow> string \<Rightarrow> Lexer \<Rightarrow> Problem \<Rightarrow> errbuf \<Rightarrow> heap \<Rightarrow> read_result option" where
  "read_tail env path lx out err h =
     (case read_count lx ''object count'' err of
        (Inl st, lx1, err1) \<Rightarrow> read_fail st out err1 [] h
      | (Inr no, lx1, err1) \<Rightarrow>
          let (ok, h1) = (if no > 0 then mem_alloc env h else (True, h)) in
          if \<not> ok then
            read_fail MSEARCH_ERR_NOMEM out
              (msearch_set_err err1 (''cannot allocate '' @ show_int no @ '' objects'')) [] h1
          else do {
            (st, out2, lx2, err2, h2) \<leftarrow>
              read_objects env lx1 (out\<lparr>objects := replicate (nat no) object_zero, num_objects := no\<rparr>) 0 no err1 h1;
            if st \<noteq> MSEARCH_OK then read_fail st out2 err2 [] h2
            else do {
              let (more, lx3, err3) = lexer_next lx2 err2;
              let lg = (if more then [(LOG_WARN, path @ '':'' @ show_int (lx_line lx3) @
                          '': ignoring trailing token '' @ [CHR 0x27] @ c_str (lx_token lx3) @ [CHR 0x27])]
                        else []);
              (st, out3, err4, warns) \<leftarrow> msearch_problem_validate out2 err3;
              if st \<noteq> MSEARCH_OK then read_fail st out3 err4 (lg @ warns) h2
              else Some (MSEARCH_OK, out3, err4, lg @ warns, h2)
            }
          })"

definition msearch_read_problem_stream ::
  "env \<Rightarrow> string \<Rightarrow> string \<Rightarrow> errbuf \<Rightarrow> heap \<Rightarrow> read_result option" where
  "msearch_read_problem_stream env input path err h =
     (let out = msearch_problem_init;
          err0 = (case err of None \<Rightarrow> None | Some (cap, s) \<Rightarrow> if cap > 0 then Some (cap, []) else err)
      in case expect_double (lexer_init input path) ''matching threshold'' err0 of
           (Inl st, lx1, err1) \<Rightarrow> read_fail st out err1 [] h
         | (Inr thr, lx1, err1) \<Rightarrow>
             let out1 = out\<lparr>threshold := thr\<rparr> in
             (case read_count lx1 ''picture count'' err1 of
                (Inl st, lx2, err2) \<Rightarrow> read_fail st out1 err2 [] h
              | (Inr np, lx2, err2) \<Rightarrow>
                  let (st, out2, err3, h1) = msearch_problem_alloc env out1 np 0 err2 h in
                  if st \<noteq> MSEARCH_OK then read_fail st out2 err3 [] h1
                  else do {
                    (st, out3, lx3, err4, h2) \<leftarrow> read_pictures env lx2 out2 0 np err3 h1;
                    if st \<noteq> MSEARCH_OK then read_fail st out3 err4 [] h2
                    else read_tail env path lx3 out3 err4 h2
                  }))"

text \<open>
  Opening a file gives its content and, when the medium is faulty, the offset from which reading it
  fails, or the message of \<open>strerror(errno)\<close>. \<open>fgetc\<close> returns \<open>EOF\<close> at the end of the content and on a read
  error alike and the lexer does not ask \<open>ferror\<close>: to the reader the file ends at the error.
\<close>

type_synonym in_file = "string \<times> nat option"

definition fgetc_bytes :: "in_file \<Rightarrow> string" where
  "fgetc_bytes f = (case f of (content, fault) \<Rightarrow> (case fault of None \<Rightarrow> content | Some n \<Rightarrow> take n content))"

definition msearch_read_problem ::
  "(string \<Rightarrow> string + in_file) \<Rightarrow> env \<Rightarrow> string \<Rightarrow> errbuf \<Rightarrow> heap \<Rightarrow> read_result option" where
  "msearch_read_problem fopen env path err h =
     (case fopen path of
        Inl msg \<Rightarrow> Some (MSEARCH_ERR_IO, msearch_problem_init,
          msearch_set_err err (''cannot open '' @ [CHR 0x27] @ path @ [CHR 0x27] @ '': '' @ msg), [], h)
      | Inr f \<Rightarrow> msearch_read_problem_stream env (fgetc_bytes f) path err h)"

section \<open>What the lexer computes\<close>

text \<open>Blanks and comments removed from the front of the input, and the tokens that remain in it.\<close>

function blank :: "string \<Rightarrow> string" where
  "blank s =
     (case dropWhile isspace s of
        [] \<Rightarrow> []
      | c # t \<Rightarrow> if c = CHR ''#'' then blank (tl (dropWhile (\<lambda>d. d \<noteq> CHR 0x0A) t)) else c # t)"
  by pat_completeness auto
termination
proof (relation "measure length", simp)
  fix s t :: string and c
  assume "dropWhile isspace s = c # t"
  then have "length (c # t) \<le> length s" by (metis length_dropWhile_le)
  moreover have "length (tl (dropWhile (\<lambda>d. d \<noteq> CHR 0x0A) t)) \<le> length t"
    by (metis diff_le_self le_trans length_dropWhile_le length_tl)
  ultimately show "(tl (dropWhile (\<lambda>d. d \<noteq> CHR 0x0A) t), s) \<in> measure length" by simp
qed

declare blank.simps [simp del]

lemma blank_Nil: "dropWhile isspace s = [] \<Longrightarrow> blank s = []"
  by (subst blank.simps) (simp del: dropWhile_eq_Nil_conv)

lemma blank_Cons: "dropWhile isspace s = c # t \<Longrightarrow>
    blank s = (if c = CHR ''#'' then blank (tl (dropWhile (\<lambda>d. d \<noteq> CHR 0x0A) t)) else c # t)"
  by (subst blank.simps) simp

lemma blank_start: "blank s = c # t \<Longrightarrow> \<not> isspace c \<and> c \<noteq> CHR ''#''"
proof (induction s arbitrary: c t rule: blank.induct)
  case (1 s)
  show ?case
  proof (cases "dropWhile isspace s")
    case Nil
    with "1.prems" show ?thesis by (simp add: blank_Nil del: dropWhile_eq_Nil_conv)
  next
    case (Cons d u)
    moreover have "\<not> isspace d" using Cons by (metis hd_dropWhile list.sel(1) list.distinct(1))
    ultimately show ?thesis using "1.prems" "1.IH" [OF Cons]
      by (auto simp: blank_Cons split: if_splits)
  qed
qed

lemma blank_shorter: "length (blank s) \<le> length s"
proof (induction s rule: blank.induct)
  case (1 s)
  show ?case
  proof (cases "dropWhile isspace s")
    case Nil
    then show ?thesis by (simp add: blank_Nil del: dropWhile_eq_Nil_conv)
  next
    case (Cons d u)
    then have le: "length (d # u) \<le> length s" by (metis length_dropWhile_le)
    moreover have "length (tl (dropWhile (\<lambda>d. d \<noteq> CHR 0x0A) u)) \<le> length u"
      by (metis diff_le_self le_trans length_dropWhile_le length_tl)
    ultimately show ?thesis using "1.IH" [OF Cons] Cons by (auto simp: blank_Cons)
  qed
qed

definition graph :: "char \<Rightarrow> bool" where
  "graph c \<longleftrightarrow> \<not> isspace c"

function tokens :: "string \<Rightarrow> string list" where
  "tokens s =
     (case blank s of
        [] \<Rightarrow> []
      | c # t \<Rightarrow> (c # takeWhile graph t) # tokens (tl (dropWhile graph t)))"
  by pat_completeness auto
termination
proof (relation "measure length", simp)
  fix s t :: string and c
  assume "blank s = c # t"
  then have "length (c # t) \<le> length s" using blank_shorter [of s] by simp
  moreover have "length (tl (dropWhile graph t)) \<le> length t"
    by (metis diff_le_self le_trans length_dropWhile_le length_tl)
  ultimately show "(tl (dropWhile graph t), s) \<in> measure length" by simp
qed

declare tokens.simps [simp del]

text \<open>
  One reading step of the lexer: it delivers the first byte of \<open>r\<close>, a suffix of the input, and is left
  behind that byte; every newline it passes is counted.
\<close>

definition nls :: "string \<Rightarrow> int" where
  "nls s = int (length (filter (\<lambda>c. c = CHR 0x0A) s))"

lemma nls_simps [simp]: "nls [] = 0" "nls (c # s) = (if c = CHR 0x0A then 1 else 0) + nls s"
  "nls (s @ t) = nls s + nls t"
  by (auto simp: nls_def)

definition delivers :: "Lexer \<Rightarrow> string \<Rightarrow> char option \<times> Lexer \<Rightarrow> bool" where
  "delivers lx r res \<longleftrightarrow>
     fst res = (case r of [] \<Rightarrow> None | c # _ \<Rightarrow> Some c) \<and> lx_input (snd res) = tl r \<and>
     lx_path (snd res) = lx_path lx \<and>
     lx_line (snd res) + nls (tl r) = lx_line lx + nls (lx_input lx)"

lemma getc_delivers: "delivers lx (lx_input lx) (lexer_getc lx)"
  by (cases "lx_input lx") (auto simp: delivers_def lexer_getc_def)

lemma delivers_trans:
  "delivers lx r (c, lx1) \<Longrightarrow> delivers lx1 r' res \<Longrightarrow> delivers lx r' res"
  by (auto simp: delivers_def)

lemma skip_space_delivers: "delivers lx (dropWhile isspace (lx_input lx)) (skip_space lx)"
proof (induction lx rule: skip_space.induct)
  case (1 lx)
  obtain c lx1 where g: "lexer_getc lx = (c, lx1)" by fastforce
  have d: "delivers lx (lx_input lx) (c, lx1)" using getc_delivers [of lx] g by simp
  show ?case
  proof (cases "lx_input lx")
    case Nil
    with d have "c = None" by (simp add: delivers_def)
    with d g Nil show ?thesis by (subst skip_space.simps) (simp add: delivers_def)
  next
    case (Cons a s)
    with d have c: "c = Some a" and i: "lx_input lx1 = s" by (auto simp: delivers_def)
    show ?thesis
    proof (cases "isspace a")
      case True
      with "1.IH" [OF g [symmetric] c] i have "delivers lx1 (dropWhile isspace s) (skip_space lx1)" by simp
      from delivers_trans [OF d this] g c True Cons show ?thesis
        by (subst skip_space.simps) simp
    next
      case False
      with d g c Cons show ?thesis by (subst skip_space.simps) simp
    qed
  qed
qed

lemma skip_comment_delivers:
  "c \<noteq> CHR 0x0A \<Longrightarrow> delivers lx (dropWhile (\<lambda>d. d \<noteq> CHR 0x0A) (lx_input lx)) (skip_comment (Some c) lx)"
proof (induction "length (lx_input lx)" arbitrary: c lx)
  case 0
  then show ?case
    by (subst skip_comment.simps) (simp add: lexer_getc_def delivers_def)
next
  case (Suc n)
  obtain d lx1 where g: "lexer_getc lx = (d, lx1)" by fastforce
  have dv: "delivers lx (lx_input lx) (d, lx1)" using getc_delivers [of lx] g by simp
  from Suc.hyps(2) obtain a s where as: "lx_input lx = a # s" by (cases "lx_input lx") auto
  with dv have d: "d = Some a" and i: "lx_input lx1 = s" by (auto simp: delivers_def)
  show ?case
  proof (cases "a = CHR 0x0A")
    case True
    with dv g d as Suc.prems show ?thesis
      by (subst skip_comment.simps, simp) (subst skip_comment.simps, simp)
  next
    case False
    with Suc.hyps(1) [of lx1 a] i as Suc.hyps(2)
    have "delivers lx1 (dropWhile (\<lambda>d. d \<noteq> CHR 0x0A) s) (skip_comment (Some a) lx1)" by simp
    from delivers_trans [OF dv this] g d as False Suc.prems show ?thesis
      by (subst skip_comment.simps) simp
  qed
qed

lemma skip_blank_delivers: "delivers lx (blank (lx_input lx)) (skip_blank lx)"
proof (induction lx rule: skip_blank.induct)
  case (1 lx)
  obtain c lx1 where g: "skip_space lx = (c, lx1)" by fastforce
  have d: "delivers lx (dropWhile isspace (lx_input lx)) (c, lx1)" using skip_space_delivers [of lx] g by simp
  show ?case
  proof (cases "dropWhile isspace (lx_input lx)")
    case Nil
    with d have "c = None" by (simp add: delivers_def)
    with d g Nil show ?thesis
      by (subst skip_blank.simps) (simp add: blank_Nil del: dropWhile_eq_Nil_conv)
  next
    case (Cons a s)
    with d have c: "c = Some a" and i: "lx_input lx1 = s" by (auto simp: delivers_def)
    show ?thesis
    proof (cases "a = CHR ''#''")
      case False
      with d g c Cons show ?thesis by (subst skip_blank.simps) (simp add: blank_Cons)
    next
      case True
      obtain e lx2 where sc: "skip_comment (Some a) lx1 = (e, lx2)" by fastforce
      have d2: "delivers lx1 (dropWhile (\<lambda>d. d \<noteq> CHR 0x0A) s) (e, lx2)"
        using skip_comment_delivers [of a lx1] True i sc by simp
      show ?thesis
      proof (cases e)
        case None
        with d2 have "dropWhile (\<lambda>d. d \<noteq> CHR 0x0A) s = []" by (auto simp: delivers_def split: list.splits)
        moreover have "blank [] = []" by (simp add: blank_Nil)
        ultimately show ?thesis
          using delivers_trans [OF d d2] g c sc None True Cons
          by (subst skip_blank.simps) (simp add: blank_Cons delivers_def del: dropWhile_eq_Nil_conv)
      next
        case (Some b)
        have "lx_input lx2 = tl (dropWhile (\<lambda>d. d \<noteq> CHR 0x0A) s)" using d2 by (simp add: delivers_def)
        with "1.IH" [OF g [symmetric] c _ sc [symmetric] Some] True
        have "delivers lx2 (blank (tl (dropWhile (\<lambda>d. d \<noteq> CHR 0x0A) s))) (skip_blank lx2)" by simp
        from delivers_trans [OF delivers_trans [OF d d2] this] g c sc Some True Cons show ?thesis
          by (subst skip_blank.simps) (simp add: blank_Cons)
      qed
    qed
  qed
qed

text \<open>The loop that collects a token, on the text \<open>w\<close> that starts with the byte in hand.\<close>

definition in_hand :: "char option \<Rightarrow> Lexer \<Rightarrow> string" where
  "in_hand c lx = (case c of None \<Rightarrow> [] | Some ch \<Rightarrow> ch # lx_input lx)"

lemma collect_spec:
  "c \<noteq> None \<or> lx_input lx = [] \<Longrightarrow> length tok < TOKEN_MAX \<Longrightarrow>
    (let w = in_hand c lx; t = takeWhile graph w; r = dropWhile graph w in
     \<exists>d lx'. collect c tok lx = (if length (tok @ t) < TOKEN_MAX then Some (tok @ t) else None, d, lx') \<and>
       lx_path lx' = lx_path lx \<and>
       (length (tok @ t) < TOKEN_MAX \<longrightarrow>
          d = (case r of [] \<Rightarrow> None | ch # _ \<Rightarrow> Some ch) \<and> lx_input lx' = tl r \<and>
          lx_line lx' + nls (lx_input lx') = lx_line lx + nls (lx_input lx)))"
proof (induction c tok lx rule: collect.induct)
  case (1 c tok lx)
  show ?case
  proof (cases c)
    case None
    with "1.prems" show ?thesis by (subst collect.simps) (simp add: in_hand_def)
  next
    case (Some ch)
    show ?thesis
    proof (cases "isspace ch \<or> length tok + 1 \<ge> TOKEN_MAX")
      case True
      with Some "1.prems" show ?thesis
        by (subst collect.simps) (auto simp: in_hand_def graph_def Let_def)
    next
      case False
      obtain d lx1 where g: "lexer_getc lx = (d, lx1)" by fastforce
      have dv: "delivers lx (lx_input lx) (d, lx1)" using getc_delivers [of lx] g by simp
      then have d: "d \<noteq> None \<or> lx_input lx1 = []" and w: "in_hand d lx1 = lx_input lx"
        and p: "lx_path lx1 = lx_path lx"
        and n: "lx_line lx1 + nls (lx_input lx1) = lx_line lx + nls (lx_input lx)"
        by (cases "lx_input lx"; simp add: delivers_def in_hand_def)+
      have len: "length (tok @ [ch]) < TOKEN_MAX" using False by simp
      have "\<not> isspace ch" "\<not> TOKEN_MAX \<le> length tok + 1" using False by auto
      note IH = "1.IH" [OF Some this(1) this(2) g [symmetric] d len]
      have "collect c tok lx = collect d (tok @ [ch]) lx1"
        using False Some g by (subst collect.simps) simp
      with IH Some False show ?thesis
        by (auto simp: Let_def w p n in_hand_def [of "Some ch"] graph_def)
    qed
  qed
qed

text \<open>\<open>lexer_next\<close> takes the first token of the input, if there is one and it fits the buffer.\<close>

definition too_long :: "string \<Rightarrow> bool" where
  "too_long t \<longleftrightarrow> TOKEN_MAX \<le> length t"

lemma tokens_Nil: "blank s = [] \<Longrightarrow> tokens s = []"
  by (subst tokens.simps) simp

lemma tokens_Cons: "blank s = c # t \<Longrightarrow>
    tokens s = (c # takeWhile graph t) # tokens (tl (dropWhile graph t))"
  by (subst tokens.simps) simp

lemma lexer_next_spec:
  "\<exists>lx' err'. lexer_next lx err =
      ((case tokens (lx_input lx) of [] \<Rightarrow> False | t # _ \<Rightarrow> \<not> too_long t), lx', err') \<and>
     lx_path lx' = lx_path lx \<and>
     (tokens (lx_input lx) = [] \<longrightarrow> err' = err) \<and>
     (\<forall>t ts. tokens (lx_input lx) = t # ts \<longrightarrow> \<not> too_long t \<longrightarrow>
        err' = err \<and> lx_token lx' = t \<and> tokens (lx_input lx') = ts)"
proof -
  obtain c lx1 where g: "skip_blank lx = (c, lx1)" by fastforce
  have dv: "delivers lx (blank (lx_input lx)) (c, lx1)" using skip_blank_delivers [of lx] g by simp
  show ?thesis
  proof (cases "blank (lx_input lx)")
    case Nil
    with dv have "c = None" "lx_path lx1 = lx_path lx" by (simp_all add: delivers_def)
    with g Nil show ?thesis by (simp add: lexer_next_def tokens_Nil)
  next
    case (Cons a s)
    with dv have c: "c = Some a" and i: "lx_input lx1 = s" and p: "lx_path lx1 = lx_path lx"
      by (simp_all add: delivers_def)
    have a: "graph a" using blank_start [OF Cons] by (simp add: graph_def)
    let ?t = "a # takeWhile graph s"
    obtain d lx2 where col: "collect (Some a) [] lx1 = (if too_long ?t then None else Some ?t, d, lx2)"
      "lx_path lx2 = lx_path lx1" "\<not> too_long ?t \<longrightarrow> lx_input lx2 = tl (dropWhile graph s)"
      using collect_spec [of "Some a" lx1 "[]"] a i
      by (auto simp: Let_def in_hand_def too_long_def TOKEN_MAX_def not_less split: if_splits)
    show ?thesis
    proof (cases "too_long ?t")
      case True
      with col g c show ?thesis by (simp add: lexer_next_def tokens_Cons [OF Cons] p)
    next
      case False
      with col g c show ?thesis by (auto simp: lexer_next_def tokens_Cons [OF Cons] p Let_def)
    qed
  qed
qed

section \<open>The format, as a function of the tokens\<close>

text \<open>
  The specification of the reader: what a token list denotes. It knows neither lines nor layout nor
  memory.
\<close>

definition int_of_token :: "string \<Rightarrow> Status + cint" where
  "int_of_token t =
     (let tok = c_str t; (v, used, erange) = strtol tok in
      if too_long t \<or> used = 0 \<or> used \<noteq> length tok \<or> erange \<or> v < INT_MIN \<or> v > INT_MAX
      then Inl MSEARCH_ERR_PARSE else Inr v)"

definition double_of_token :: "string \<Rightarrow> Status + dbl" where
  "double_of_token t =
     (let tok = c_str t; (v, used, erange) = strtod tok in
      if too_long t \<or> used = 0 \<or> used \<noteq> length tok \<or> erange then Inl MSEARCH_ERR_PARSE else Inr v)"

text \<open>A parser takes something off a token list, or fails with a status.\<close>

type_synonym 'a tparser = "string list \<Rightarrow> Status + 'a \<times> string list"

definition tbind :: "'a tparser \<Rightarrow> ('a \<Rightarrow> 'b tparser) \<Rightarrow> 'b tparser" where
  "tbind p f ts = (case p ts of Inl st \<Rightarrow> Inl st | Inr (v, ts') \<Rightarrow> f v ts')"

fun t_int :: "cint tparser" where
  "t_int [] = Inl MSEARCH_ERR_PARSE"
| "t_int (t # ts) = (case int_of_token t of Inl st \<Rightarrow> Inl st | Inr v \<Rightarrow> Inr (v, ts))"

fun t_double :: "dbl tparser" where
  "t_double [] = Inl MSEARCH_ERR_PARSE"
| "t_double (t # ts) = (case double_of_token t of Inl st \<Rightarrow> Inl st | Inr v \<Rightarrow> Inr (v, ts))"

definition t_count :: "cint tparser" where
  "t_count = tbind t_int (\<lambda>v ts. if v < 0 \<or> v > MSEARCH_MAX_COUNT then Inl MSEARCH_ERR_INVALID else Inr (v, ts))"

fun t_ints :: "nat \<Rightarrow> cint list tparser" where
  "t_ints 0 ts = Inr ([], ts)"
| "t_ints (Suc k) ts = tbind t_int (\<lambda>v. tbind (t_ints k) (\<lambda>vs ts'. Inr (v # vs, ts'))) ts"

definition t_matrix :: "(cint \<times> cint \<times> cint list) tparser" where
  "t_matrix =
     tbind t_int (\<lambda>pid. tbind t_int (\<lambda>side.
       if side \<le> 0 \<or> side > MSEARCH_MAX_SIDE then (\<lambda>ts. Inl MSEARCH_ERR_INVALID)
       else tbind (t_ints (nat (side * side))) (\<lambda>vs ts. Inr ((pid, side, vs), ts))))"

fun t_matrices :: "nat \<Rightarrow> (cint \<times> cint \<times> cint list) list tparser" where
  "t_matrices 0 ts = Inr ([], ts)"
| "t_matrices (Suc k) ts = tbind t_matrix (\<lambda>v. tbind (t_matrices k) (\<lambda>vs ts'. Inr (v # vs, ts'))) ts"

definition picture_of :: "cint \<times> cint \<times> cint list \<Rightarrow> Picture" where
  "picture_of = (\<lambda>(pid, side, vs). \<lparr>p_id = pid, p_n = side, p_data = Some vs\<rparr>)"

definition object_of :: "cint \<times> cint \<times> cint list \<Rightarrow> Object" where
  "object_of = (\<lambda>(oid, side, vs). \<lparr>o_id = oid, o_m = side, o_data = Some vs\<rparr>)"

text \<open>The part from the object count on, after the threshold and the pictures.\<close>

definition t_tail :: "dbl \<Rightarrow> Picture list \<Rightarrow> Problem tparser" where
  "t_tail thr ps =
     tbind t_count (\<lambda>no. tbind (t_matrices (nat no)) (\<lambda>os ts.
       if dlt dzero thr
       then Inr (\<lparr>threshold = thr, num_pictures = int (length ps), pictures = ps,
                  num_objects = no, objects = sort_key o_id (map object_of os)\<rparr>, ts)
       else Inl MSEARCH_ERR_INVALID))"

definition t_problem :: "Problem tparser" where
  "t_problem =
     tbind t_double (\<lambda>thr. tbind t_count (\<lambda>np. tbind (t_matrices (nat np)) (\<lambda>ps.
       t_tail thr (map picture_of ps))))"

lemma tbind_Inr [simp]: "p ts = Inr (v, ts') \<Longrightarrow> tbind p f ts = f v ts'"
  by (simp add: tbind_def)

lemma tbind_Inl [simp]: "p ts = Inl st \<Longrightarrow> tbind p f ts = Inl st"
  by (simp add: tbind_def)

lemma tbind_InrE:
  assumes "tbind p f ts = Inr r"
  obtains v ts' where "p ts = Inr (v, ts')" "f v ts' = Inr r"
  using assms by (auto simp: tbind_def split: sum.splits prod.splits)

lemma t_int_range: "t_int ts = Inr (v, ts') \<Longrightarrow> int32 v"
  by (cases ts) (auto simp: int_of_token_def Let_def int32_def split: sum.splits if_splits prod.splits)

lemma t_ints_ok: "t_ints k ts = Inr (vs, ts') \<Longrightarrow> length vs = k \<and> list_all int32 vs"
  by (induction k arbitrary: ts vs ts') (auto elim!: tbind_InrE dest: t_int_range)

lemma t_matrix_ok:
  "t_matrix ts = Inr (e, ts') \<Longrightarrow> picture_ok (picture_of e) \<and> object_ok (object_of e)"
  unfolding t_matrix_def
  by (elim tbind_InrE)
    (use t_int_range t_ints_ok in \<open>fastforce simp: picture_ok_def object_ok_def picture_of_def object_of_def
      matrix_ok_def split: if_splits elim!: tbind_InrE\<close>)

lemma t_matrices_ok:
  "t_matrices k ts = Inr (es, ts') \<Longrightarrow>
    length es = k \<and> list_all picture_ok (map picture_of es) \<and> list_all object_ok (map object_of es)"
  by (induction k arbitrary: ts es ts') (auto elim!: tbind_InrE dest: t_matrix_ok)

lemma t_count_range: "t_count ts = Inr (v, ts') \<Longrightarrow> 0 \<le> v \<and> v \<le> MSEARCH_MAX_COUNT"
  by (auto simp: t_count_def elim!: tbind_InrE split: if_splits)

lemma t_problem_ok: "t_problem ts = Inr (p, ts') \<Longrightarrow> problem_ok p"
  by (auto simp: t_problem_def t_tail_def problem_ok_def arrays_ok_def list_all_iff
      elim!: tbind_InrE split: if_splits dest!: t_matrices_ok t_count_range)

section \<open>The reader implements the format\<close>

text \<open>
  A reading step agrees with a parser of the specification: same status, same value, and the lexer
  left in front of the tokens the parser leaves.
\<close>

definition agrees :: "'a tparser \<Rightarrow> Lexer \<Rightarrow> errbuf \<Rightarrow> (Status + 'a) \<times> Lexer \<times> errbuf \<Rightarrow> bool" where
  "agrees p lx err res \<longleftrightarrow>
     (case p (tokens (lx_input lx)) of
        Inl st \<Rightarrow> st \<noteq> MSEARCH_OK \<and> fst res = Inl st
      | Inr (v, ts) \<Rightarrow> fst res = Inr v \<and> tokens (lx_input (fst (snd res))) = ts \<and> snd (snd res) = err)"

lemma expect_int_agrees: "agrees t_int lx err (expect_int lx what err)"
proof -
  obtain lx' err' where n: "lexer_next lx err =
      ((case tokens (lx_input lx) of [] \<Rightarrow> False | t # _ \<Rightarrow> \<not> too_long t), lx', err')"
    "\<forall>t ts. tokens (lx_input lx) = t # ts \<longrightarrow> \<not> too_long t \<longrightarrow>
        err' = err \<and> lx_token lx' = t \<and> tokens (lx_input lx') = ts"
    using lexer_next_spec [of lx err] by blast
  show ?thesis
  proof (cases "tokens (lx_input lx)")
    case Nil
    with n show ?thesis by (simp add: agrees_def expect_int_def)
  next
    case (Cons t ts)
    with n show ?thesis
      by (cases "too_long t")
        (auto simp: agrees_def expect_int_def int_of_token_def Let_def split: prod.splits)
  qed
qed

lemma expect_double_agrees: "agrees t_double lx err (expect_double lx what err)"
proof -
  obtain lx' err' where n: "lexer_next lx err =
      ((case tokens (lx_input lx) of [] \<Rightarrow> False | t # _ \<Rightarrow> \<not> too_long t), lx', err')"
    "\<forall>t ts. tokens (lx_input lx) = t # ts \<longrightarrow> \<not> too_long t \<longrightarrow>
        err' = err \<and> lx_token lx' = t \<and> tokens (lx_input lx') = ts"
    using lexer_next_spec [of lx err] by blast
  show ?thesis
  proof (cases "tokens (lx_input lx)")
    case Nil
    with n show ?thesis by (simp add: agrees_def expect_double_def)
  next
    case (Cons t ts)
    with n show ?thesis
      by (cases "too_long t")
        (auto simp: agrees_def expect_double_def double_of_token_def Let_def split: prod.splits)
  qed
qed

lemma agrees_cases:
  assumes "agrees p lx err res"
  obtains st lx' err' where "res = (Inl st, lx', err')" "st \<noteq> MSEARCH_OK" "p (tokens (lx_input lx)) = Inl st"
  | v lx' where "res = (Inr v, lx', err)" "p (tokens (lx_input lx)) = Inr (v, tokens (lx_input lx'))"
  using assms by (cases res) (auto simp: agrees_def split: sum.splits prod.splits)

lemma read_count_agrees: "agrees t_count lx err (read_count lx what err)"
  using expect_int_agrees [of lx err what]
  by (rule agrees_cases) (auto simp: agrees_def read_count_def t_count_def tbind_def)

lemma read_elements_spec:
  "i + k = length data \<Longrightarrow>
    \<exists>st data' lx' err'. read_elements lx data (int i) (int (length data)) what pid err = Some (st, data', lx', err') \<and>
      (case t_ints k (tokens (lx_input lx)) of
         Inl st' \<Rightarrow> st = st' \<and> st \<noteq> MSEARCH_OK
       | Inr (vs, ts) \<Rightarrow> st = MSEARCH_OK \<and> data' = take i data @ vs \<and> tokens (lx_input lx') = ts \<and> err' = err)"
proof (induction k arbitrary: i data lx)
  case 0
  then show ?case by (subst read_elements.simps) simp
next
  case (Suc k)
  let ?n = "int (length data)"
  from expect_int_agrees [of lx err "element_label (int i) ?n what pid"] show ?case
  proof (cases rule: agrees_cases)
    case (1 st lx' err')
    with Suc.prems show ?thesis by (subst read_elements.simps) simp
  next
    case (2 v lx1)
    have i: "i < length data" using Suc.prems by simp
    have "read_elements lx data (int i) ?n what pid err =
        read_elements lx1 (data[i := v]) (int (Suc i)) (int (length (data[i := v]))) what pid err"
      using 2 i by (subst read_elements.simps) (simp add: add.commute)
    moreover have "take (Suc i) (data[i := v]) = take i data @ [v]"
      using i by (simp add: take_Suc_conv_app_nth)
    ultimately show ?thesis
      using Suc.IH [of "Suc i" "data[i := v]" lx1] Suc.prems 2
      by (auto simp: tbind_def split: sum.splits)
  qed
qed

lemma read_matrix_spec:
  assumes "int (length data) = side * side" "0 < side" "side \<le> MSEARCH_MAX_SIDE"
  shows "\<exists>st data' lx' err'. read_matrix lx data side what pid err = Some (st, data', lx', err') \<and>
    (case t_ints (nat (side * side)) (tokens (lx_input lx)) of
       Inl st' \<Rightarrow> st = st' \<and> st \<noteq> MSEARCH_OK
     | Inr (vs, ts) \<Rightarrow> st = MSEARCH_OK \<and> data' = vs \<and> tokens (lx_input lx') = ts \<and> err' = err)"
proof -
  have "side * side \<le> INT_MAX" using assms max_side_square by simp
  moreover have "0 < side * side" using assms(2) by simp
  ultimately have sz: "size_t (size_t side * size_t side) = int (length data)" "nat (side * side) = length data"
    using assms by (simp_all add: int_ranges MSEARCH_MAX_SIDE_def)
  show ?thesis
    using read_elements_spec [of 0 "length data" data lx what pid err]
    unfolding read_matrix_def sz by (cases "t_ints (length data) (tokens (lx_input lx))") auto
qed

lemma alloc_matrix_cases:
  obtains "side \<le> 0 \<or> side > MSEARCH_MAX_SIDE"
      "\<exists>err'. alloc_matrix env d side what pid err h = (MSEARCH_ERR_INVALID, d, err', h)"
  | "0 < side" "side \<le> MSEARCH_MAX_SIDE" "\<exists>r. \<not> grants env r"
      "\<exists>err' h'. alloc_matrix env d side what pid err h = (MSEARCH_ERR_NOMEM, None, err', h') \<and> live h' = live h"
  | xs h' where "0 < side" "side \<le> MSEARCH_MAX_SIDE" "int (length xs) = side * side" "live h' = live h + 1"
      "alloc_matrix env d side what pid err h = (MSEARCH_OK, Some xs, err, h')"
proof (cases "side \<le> 0 \<or> side > MSEARCH_MAX_SIDE")
  case True
  then have "\<exists>err'. alloc_matrix env d side what pid err h = (MSEARCH_ERR_INVALID, d, err', h)"
    by (auto simp: alloc_matrix_def)
  with True that(1) show thesis by blast
next
  case False
  then have side: "0 < side" "side \<le> MSEARCH_MAX_SIDE" by auto
  show thesis
  proof (cases "grants env (requests h)")
    case True
    have "side * side \<le> INT_MAX" "0 < side * side" using side max_side_square by auto
    then have "size_t (size_t side * size_t side) = side * side"
      using side by (simp add: int_ranges MSEARCH_MAX_SIDE_def)
    with True side \<open>0 < side * side\<close> show thesis
      by (intro that(3)) (auto simp: alloc_matrix_def mem_alloc_def Let_def)
  next
    case refused: False
    then have "\<exists>err' h'. alloc_matrix env d side what pid err h = (MSEARCH_ERR_NOMEM, None, err', h') \<and> live h' = live h"
      using side by (auto simp: alloc_matrix_def mem_alloc_def Let_def)
    with refused side that(2) show thesis by blast
  qed
qed

definition held_pictures :: "Picture list \<Rightarrow> int" where
  "held_pictures ps = int (length (filter (\<lambda>q. p_data q \<noteq> None) ps))"

definition held_objects :: "Object list \<Rightarrow> int" where
  "held_objects qs = int (length (filter (\<lambda>q. o_data q \<noteq> None) qs))"

lemma filter_length_replace:
  "i < length xs \<Longrightarrow> length (filter P (xs[i := x])) + (if P (xs ! i) then 1 else 0) =
    length (filter P xs) + (if P x then 1 else 0)"
proof (induction xs arbitrary: i)
  case (Cons a xs)
  then show ?case by (cases i) auto
qed simp

lemma filter_length_update:
  "i < length xs \<Longrightarrow> int (length (filter P (xs[i := x]))) =
    int (length (filter P xs)) - (if P (xs ! i) then 1 else 0) + (if P x then 1 else 0)"
  using filter_length_replace [of i xs P x] by (simp split: if_splits)

lemma held_pictures_update: "i < length ps \<Longrightarrow> held_pictures (ps[i := q]) =
    held_pictures ps - (if p_data (ps ! i) = None then 0 else 1) + (if p_data q = None then 0 else 1)"
  by (simp add: held_pictures_def filter_length_update)

lemma held_objects_update: "i < length qs \<Longrightarrow> held_objects (qs[i := q]) =
    held_objects qs - (if o_data (qs ! i) = None then 0 else 1) + (if o_data q = None then 0 else 1)"
  by (simp add: held_objects_def filter_length_update)

text \<open>What a reading loop leaves behind, relative to the parser of the specification.\<close>

definition outcome :: "env \<Rightarrow> Status \<Rightarrow> Status + 'a \<times> string list \<Rightarrow> ('a \<Rightarrow> bool) \<Rightarrow> Lexer \<Rightarrow> bool" where
  "outcome env st spec good lx \<longleftrightarrow>
     (case spec of
        Inl st' \<Rightarrow> st \<noteq> MSEARCH_OK \<and> (st = st' \<or> st = MSEARCH_ERR_NOMEM \<and> (\<exists>r. \<not> grants env r))
      | Inr (v, ts) \<Rightarrow>
          (st = MSEARCH_OK \<and> good v \<and> tokens (lx_input lx) = ts) \<or>
          (st = MSEARCH_ERR_NOMEM \<and> (\<exists>r. \<not> grants env r)))"

lemma read_pictures_spec:
  "i + k = length (pictures out) \<Longrightarrow> \<forall>j. i \<le> j \<longrightarrow> j < length (pictures out) \<longrightarrow> p_data (pictures out ! j) = None \<Longrightarrow>
    \<exists>st ps lx' err' h'.
      read_pictures env lx out (int i) (int (length (pictures out))) err h =
        Some (st, out\<lparr>pictures := ps\<rparr>, lx', err', h') \<and>
      length ps = length (pictures out) \<and>
      live h' - held_pictures ps = live h - held_pictures (pictures out) \<and>
      outcome env st (t_matrices k (tokens (lx_input lx)))
        (\<lambda>es. ps = take i (pictures out) @ map picture_of es \<and> err' = err) lx'"
proof (induction k arbitrary: i out lx h)
  case 0
  then show ?case
    by (subst read_pictures.simps) (auto simp: outcome_def intro!: exI [of _ "pictures out"])
next
  case (Suc k)
  let ?n = "int (length (pictures out))"
  define p where "p = pictures out ! i"
  have i: "i < length (pictures out)" and p: "p_data p = None" using Suc.prems by (auto simp: p_def)
  have ld: "load (pictures out) (int i) = Some p" using i by (simp add: p_def)
  show ?case
  proof (cases rule: agrees_cases [OF expect_int_agrees [of lx err "''picture id''"]])
    case (1 st lx1 err1)
    with i show ?thesis
      by (subst read_pictures.simps)
        (auto simp: outcome_def t_matrix_def intro!: exI [of _ "pictures out"])
  next
    case id: (2 pid lx1)
    show ?thesis
    proof (cases rule: agrees_cases [OF expect_int_agrees [of lx1 err "''picture size''"]])
      case (1 st lx2 err1)
      with id i show ?thesis
        by (subst read_pictures.simps)
          (auto simp: outcome_def t_matrix_def intro!: exI [of _ "pictures out"])
    next
      case sz: (2 side lx2)
      show ?thesis
      proof (cases rule: alloc_matrix_cases [of side env "p_data p" "''picture''" pid err h])
        case 1
        then obtain err1 where "msearch_picture_alloc env p pid side err h =
            (MSEARCH_ERR_INVALID, p\<lparr>p_id := pid, p_n := side, p_data := p_data p\<rparr>, err1, h)"
          by (auto simp: msearch_picture_alloc_def)
        with id sz i 1(1) p ld show ?thesis
          by (subst read_pictures.simps)
            (auto simp: outcome_def t_matrix_def held_pictures_update p_def [symmetric])
      next
        case 2
        then obtain err1 h1 where "msearch_picture_alloc env p pid side err h =
            (MSEARCH_ERR_NOMEM, p\<lparr>p_id := pid, p_n := side, p_data := None\<rparr>, err1, h1)" "live h1 = live h"
          by (auto simp: msearch_picture_alloc_def)
        with id sz i 2(1-3) p ld show ?thesis
          by (subst read_pictures.simps)
            (auto simp: outcome_def held_pictures_update p_def [symmetric] split: sum.splits)
      next
        case (3 xs h1)
        then have al: "msearch_picture_alloc env p pid side err h =
            (MSEARCH_OK, \<lparr>p_id = pid, p_n = side, p_data = Some xs\<rparr>, err, h1)"
          by (auto simp: msearch_picture_alloc_def)
        obtain st vs lx3 err3 where rm: "read_matrix lx2 xs side ''picture'' pid err = Some (st, vs, lx3, err3)"
          and spec: "case t_ints (nat (side * side)) (tokens (lx_input lx2)) of
             Inl st' \<Rightarrow> st = st' \<and> st \<noteq> MSEARCH_OK
           | Inr (ws, ts) \<Rightarrow> st = MSEARCH_OK \<and> vs = ws \<and> tokens (lx_input lx3) = ts \<and> err3 = err"
          using read_matrix_spec [OF 3(3,1,2)] by blast
        let ?out = "out\<lparr>pictures := (pictures out)[i := \<lparr>p_id = pid, p_n = side, p_data = Some vs\<rparr>]\<rparr>"
        show ?thesis
        proof (cases "t_ints (nat (side * side)) (tokens (lx_input lx2))")
          case (Inl st')
          with spec have st: "st = st'" "st \<noteq> MSEARCH_OK" by auto
          with Inl id sz 3(1,2,4) have "t_matrices (Suc k) (tokens (lx_input lx)) = Inl st"
            by (simp add: t_matrix_def)
          with al rm id sz i ld st p 3(4) show ?thesis
            by (subst read_pictures.simps) (auto simp: outcome_def held_pictures_update p_def [symmetric])
        next
          case (Inr r)
          then obtain ts where r: "t_ints (nat (side * side)) (tokens (lx_input lx2)) = Inr (vs, ts)"
            and st: "st = MSEARCH_OK" "err3 = err" and ts: "tokens (lx_input lx3) = ts"
            using spec by (cases r) auto
          have "read_pictures env lx out (int i) ?n err h =
              read_pictures env lx3 ?out (int (Suc i)) (int (length (pictures ?out))) err h1"
            using al rm id sz i ld st by (subst read_pictures.simps) (simp add: add.commute)
          moreover have "t_matrices (Suc k) (tokens (lx_input lx)) =
              tbind (t_matrices k) (\<lambda>es ts'. Inr ((pid, side, vs) # es, ts')) ts"
            using id sz 3(1,2) r by (simp add: t_matrix_def)
          moreover have "take (Suc i) (pictures ?out) = take i (pictures out) @ [picture_of (pid, side, vs)]"
            using i by (simp add: take_Suc_conv_app_nth picture_of_def)
          moreover have "live h1 - held_pictures (pictures ?out) = live h - held_pictures (pictures out)"
            using i p 3(4) by (simp add: held_pictures_update p_def [symmetric])
          moreover have "\<forall>j. Suc i \<le> j \<longrightarrow> j < length (pictures ?out) \<longrightarrow> p_data (pictures ?out ! j) = None"
            using Suc.prems by simp
          ultimately show ?thesis
            using Suc.IH [of "Suc i" ?out lx3 h1] Suc.prems(1) ts
            by (auto simp: outcome_def tbind_def split: sum.splits)
        qed
      qed
    qed
  qed
qed

lemma read_objects_spec:
  "i + k = length (objects out) \<Longrightarrow> \<forall>j. i \<le> j \<longrightarrow> j < length (objects out) \<longrightarrow> o_data (objects out ! j) = None \<Longrightarrow>
    \<exists>st qs lx' err' h'.
      read_objects env lx out (int i) (int (length (objects out))) err h =
        Some (st, out\<lparr>objects := qs\<rparr>, lx', err', h') \<and>
      length qs = length (objects out) \<and>
      live h' - held_objects qs = live h - held_objects (objects out) \<and>
      outcome env st (t_matrices k (tokens (lx_input lx)))
        (\<lambda>es. qs = take i (objects out) @ map object_of es \<and> err' = err) lx'"
proof (induction k arbitrary: i out lx h)
  case 0
  then show ?case
    by (subst read_objects.simps) (auto simp: outcome_def intro!: exI [of _ "objects out"])
next
  case (Suc k)
  let ?n = "int (length (objects out))"
  define p where "p = objects out ! i"
  have i: "i < length (objects out)" and p: "o_data p = None" using Suc.prems by (auto simp: p_def)
  have ld: "load (objects out) (int i) = Some p" using i by (simp add: p_def)
  show ?case
  proof (cases rule: agrees_cases [OF expect_int_agrees [of lx err "''object id''"]])
    case (1 st lx1 err1)
    with i show ?thesis
      by (subst read_objects.simps)
        (auto simp: outcome_def t_matrix_def intro!: exI [of _ "objects out"])
  next
    case id: (2 pid lx1)
    show ?thesis
    proof (cases rule: agrees_cases [OF expect_int_agrees [of lx1 err "''object size''"]])
      case (1 st lx2 err1)
      with id i show ?thesis
        by (subst read_objects.simps)
          (auto simp: outcome_def t_matrix_def intro!: exI [of _ "objects out"])
    next
      case sz: (2 side lx2)
      show ?thesis
      proof (cases rule: alloc_matrix_cases [of side env "o_data p" "''object''" pid err h])
        case 1
        then obtain err1 where "msearch_object_alloc env p pid side err h =
            (MSEARCH_ERR_INVALID, p\<lparr>o_id := pid, o_m := side, o_data := o_data p\<rparr>, err1, h)"
          by (auto simp: msearch_object_alloc_def)
        with id sz i 1(1) p ld show ?thesis
          by (subst read_objects.simps)
            (auto simp: outcome_def t_matrix_def held_objects_update p_def [symmetric])
      next
        case 2
        then obtain err1 h1 where "msearch_object_alloc env p pid side err h =
            (MSEARCH_ERR_NOMEM, p\<lparr>o_id := pid, o_m := side, o_data := None\<rparr>, err1, h1)" "live h1 = live h"
          by (auto simp: msearch_object_alloc_def)
        with id sz i 2(1-3) p ld show ?thesis
          by (subst read_objects.simps)
            (auto simp: outcome_def held_objects_update p_def [symmetric] split: sum.splits)
      next
        case (3 xs h1)
        then have al: "msearch_object_alloc env p pid side err h =
            (MSEARCH_OK, \<lparr>o_id = pid, o_m = side, o_data = Some xs\<rparr>, err, h1)"
          by (auto simp: msearch_object_alloc_def)
        obtain st vs lx3 err3 where rm: "read_matrix lx2 xs side ''object'' pid err = Some (st, vs, lx3, err3)"
          and spec: "case t_ints (nat (side * side)) (tokens (lx_input lx2)) of
             Inl st' \<Rightarrow> st = st' \<and> st \<noteq> MSEARCH_OK
           | Inr (ws, ts) \<Rightarrow> st = MSEARCH_OK \<and> vs = ws \<and> tokens (lx_input lx3) = ts \<and> err3 = err"
          using read_matrix_spec [OF 3(3,1,2)] by blast
        let ?out = "out\<lparr>objects := (objects out)[i := \<lparr>o_id = pid, o_m = side, o_data = Some vs\<rparr>]\<rparr>"
        show ?thesis
        proof (cases "t_ints (nat (side * side)) (tokens (lx_input lx2))")
          case (Inl st')
          with spec have st: "st = st'" "st \<noteq> MSEARCH_OK" by auto
          with Inl id sz 3(1,2,4) have "t_matrices (Suc k) (tokens (lx_input lx)) = Inl st"
            by (simp add: t_matrix_def)
          with al rm id sz i ld st p 3(4) show ?thesis
            by (subst read_objects.simps) (auto simp: outcome_def held_objects_update p_def [symmetric])
        next
          case (Inr r)
          then obtain ts where r: "t_ints (nat (side * side)) (tokens (lx_input lx2)) = Inr (vs, ts)"
            and st: "st = MSEARCH_OK" "err3 = err" and ts: "tokens (lx_input lx3) = ts"
            using spec by (cases r) auto
          have "read_objects env lx out (int i) ?n err h =
              read_objects env lx3 ?out (int (Suc i)) (int (length (objects ?out))) err h1"
            using al rm id sz i ld st by (subst read_objects.simps) (simp add: add.commute)
          moreover have "t_matrices (Suc k) (tokens (lx_input lx)) =
              tbind (t_matrices k) (\<lambda>es ts'. Inr ((pid, side, vs) # es, ts')) ts"
            using id sz 3(1,2) r by (simp add: t_matrix_def)
          moreover have "take (Suc i) (objects ?out) = take i (objects out) @ [object_of (pid, side, vs)]"
            using i by (simp add: take_Suc_conv_app_nth object_of_def)
          moreover have "live h1 - held_objects (objects ?out) = live h - held_objects (objects out)"
            using i p 3(4) by (simp add: held_objects_update p_def [symmetric])
          moreover have "\<forall>j. Suc i \<le> j \<longrightarrow> j < length (objects ?out) \<longrightarrow> o_data (objects ?out ! j) = None"
            using Suc.prems by simp
          ultimately show ?thesis
            using Suc.IH [of "Suc i" ?out lx3 h1] Suc.prems(1) ts
            by (auto simp: outcome_def tbind_def split: sum.splits)
        qed
      qed
    qed
  qed
qed

section \<open>The whole reader\<close>

definition held :: "Problem \<Rightarrow> int" where
  "held p = held_pictures (pictures p) + (if pictures p = [] then 0 else 1) +
     held_objects (objects p) + (if objects p = [] then 0 else 1)"

lemma live_mem_free [simp]: "live (mem_free d h) = live h - (if d = None then 0 else 1)"
  by (cases d) (simp_all add: mem_free_def)

lemma live_free_pictures: "live (fold (\<lambda>q. mem_free (p_data q)) ps h) = live h - held_pictures ps"
  by (induction ps arbitrary: h) (auto simp: held_pictures_def)

lemma live_free_objects: "live (fold (\<lambda>q. mem_free (o_data q)) qs h) = live h - held_objects qs"
  by (induction qs arbitrary: h) (auto simp: held_objects_def)

lemma problem_free_spec:
  assumes "arrays_ok p"
  shows "\<exists>h'. msearch_problem_free (Some p) h = Some (Some msearch_problem_init, h') \<and>
    live h' = live h - held p"
  using assms free_pictures_all [of 0 "pictures p" h]
    free_objects_all [of 0 "objects p" "mem_free (array_ptr (pictures p))
      (fold (\<lambda>q. mem_free (p_data q)) (pictures p) h)"]
  by (auto simp: msearch_problem_free_def arrays_ok_def live_free_pictures live_free_objects array_ptr_def held_def)

lemma read_fail_spec:
  assumes "arrays_ok out"
  shows "\<exists>h'. read_fail st out err lg h = Some (st, msearch_problem_init, err, lg, h') \<and> live h' = live h - held out"
  using problem_free_spec [OF assms, of h] by (auto simp: read_fail_def)

lemma held_init [simp]: "held msearch_problem_init = 0"
  by (simp add: held_def msearch_problem_init_def held_pictures_def held_objects_def)

lemma held_objects_sort [simp]: "held_objects (sort_key f qs) = held_objects qs"
proof -
  have "length (filter P (sort_key f qs)) = length (filter P qs)" for P
    by (metis mset_filter mset_sort size_mset)
  then show ?thesis by (simp add: held_objects_def)
qed

definition read_outcome :: "env \<Rightarrow> Status + Problem \<times> string list \<Rightarrow> int \<Rightarrow> read_result option \<Rightarrow> bool" where
  "read_outcome env spec base res \<longleftrightarrow>
     (\<exists>st out err lg h. res = Some (st, out, err, lg, h) \<and> live h - held out = base \<and>
        (st = MSEARCH_OK \<longrightarrow> (\<exists>ts. spec = Inr (out, ts))) \<and>
        (st \<noteq> MSEARCH_OK \<longrightarrow> out = msearch_problem_init \<and>
           (spec = Inl st \<or> st = MSEARCH_ERR_NOMEM \<and> (\<exists>r. \<not> grants env r))))"

lemma read_fail_outcome:
  assumes "arrays_ok out" "st \<noteq> MSEARCH_OK" "live h - held out = base"
    and "spec = Inl st \<or> st = MSEARCH_ERR_NOMEM \<and> (\<exists>r. \<not> grants env r)"
  shows "read_outcome env spec base (read_fail st out err lg h)"
  using read_fail_spec [OF assms(1), of st err lg h] assms(2-4) by (auto simp: read_outcome_def)

lemma picture_ok_facts:
  assumes "picture_ok q"
  shows "int32 (p_n q)" "0 < p_n q" "p_data q \<noteq> None" "p_n q * p_n q \<le> INT_MAX"
  using assms max_side_square [of "p_n q"]
  by (auto simp: picture_ok_def int_ranges MSEARCH_MAX_SIDE_def matrix_ok_def split: option.splits)

lemma validate_loaded:
  assumes "arrays_ok p" "list_all picture_ok (pictures p)" "list_all object_ok (objects p)"
  shows "\<exists>st err' warns. msearch_problem_validate p err =
      Some (st, if dlt dzero (threshold p) then p\<lparr>objects := sort_key o_id (objects p)\<rparr> else p, err', warns) \<and>
    st = (if dlt dzero (threshold p) then MSEARCH_OK else MSEARCH_ERR_INVALID)"
proof -
  have pics: "\<forall>q \<in> set (pictures p). int32 (p_n q) \<and> 0 < p_n q \<and> p_data q \<noteq> None \<and> p_n q * p_n q \<le> INT_MAX"
    using assms(2) picture_ok_facts by (auto simp: list_all_iff)
  then have "first_fault picture_fault (pictures p) = None" by (simp add: first_fault_picture_None)
  moreover have "first_fault object_fault (objects p) = None"
    using assms(3) by (auto simp: first_fault_object_None list_all_iff object_ok_def matrix_ok_def split: option.splits)
  ultimately have "validation_fault p = (if dlt dzero (threshold p) then None else
      Some (''threshold must be > 0, got '' @ show_g (threshold p)))"
    by (simp add: validation_fault_def)
  then show ?thesis using validate_cases [OF assms(1), of err] pics by auto
qed

lemma outcome_OK:
  assumes "outcome env MSEARCH_OK spec good lx"
  obtains v where "spec = Inr (v, tokens (lx_input lx))" "good v"
  using assms by (auto simp: outcome_def split: sum.splits)

lemma outcome_not_OK:
  "outcome env st spec good lx \<Longrightarrow> st \<noteq> MSEARCH_OK \<Longrightarrow>
    spec = Inl st \<or> st = MSEARCH_ERR_NOMEM \<and> (\<exists>r. \<not> grants env r)"
  by (auto simp: outcome_def split: sum.splits)

lemma held_objects_zero [simp]: "held_objects (replicate k object_zero) = 0"
  by (simp add: held_objects_def object_zero_def)

lemma held_pictures_zero [simp]: "held_pictures (replicate k picture_zero) = 0"
  by (simp add: held_pictures_def picture_zero_def)

lemma read_tail_outcome:
  assumes out: "out = \<lparr>threshold = thr, num_pictures = int (length ps), pictures = ps, num_objects = 0, objects = []\<rparr>"
    and ps: "list_all picture_ok ps"
  shows "read_outcome env (t_tail thr ps (tokens (lx_input lx))) (live h - held out) (read_tail env path lx out err h)"
proof (cases rule: agrees_cases [OF read_count_agrees [of lx err "''object count''"]])
  case (1 st lx1 err1)
  then show ?thesis
    using read_fail_outcome [of out st h] by (simp add: read_tail_def t_tail_def out arrays_ok_def)
next
  case cnt: (2 no lx1)
  have no: "0 \<le> no" using t_count_range [OF cnt(2)] by simp
  define out1 where "out1 = out\<lparr>objects := replicate (nat no) object_zero, num_objects := no\<rparr>"
  obtain ok h1 where al: "(if no > 0 then mem_alloc env h else (True, h)) = (ok, h1)"
    by fastforce
  show ?thesis
  proof (cases ok)
    case False
    with al have "\<exists>r. \<not> grants env r" "live h1 = live h" by (auto simp: mem_alloc_def split: if_splits)
    with cnt al False show ?thesis
      using read_fail_outcome [of out MSEARCH_ERR_NOMEM h1]
      by (simp add: read_tail_def out arrays_ok_def)
  next
    case True
    with al have live1: "live h1 - held out1 = live h - held out"
      by (auto simp: mem_alloc_def out out1_def held_def held_objects_def [of "[]"] split: if_splits)
    obtain st qs lx2 err2 h2 where ro: "read_objects env lx1 out1 0 no err h1 = Some (st, out1\<lparr>objects := qs\<rparr>, lx2, err2, h2)"
      and len: "length qs = nat no" and live2: "live h2 - held_objects qs = live h1"
      and oc: "outcome env st (t_matrices (nat no) (tokens (lx_input lx1))) (\<lambda>es. qs = map object_of es \<and> err2 = err) lx2"
      using read_objects_spec [of 0 "nat no" out1 env lx1 err h1] no by (auto simp: out1_def object_zero_def held_objects_def)
    let ?out2 = "out1\<lparr>objects := qs\<rparr>"
    have arr: "arrays_ok ?out2" using len no by (simp add: arrays_ok_def out1_def out)
    have held2: "live h2 - held ?out2 = live h - held out"
      using live1 live2 len no by (auto simp: held_def out1_def out held_objects_def [of "[]"] split: if_splits)
    show ?thesis
    proof (cases "st = MSEARCH_OK")
      case False
      from outcome_not_OK [OF oc False] cnt
      have "t_tail thr ps (tokens (lx_input lx)) = Inl st \<or> st = MSEARCH_ERR_NOMEM \<and> (\<exists>r. \<not> grants env r)"
        by (auto simp: t_tail_def)
      from read_fail_outcome [OF arr False held2 this] cnt al True ro False show ?thesis
        by (simp add: read_tail_def out1_def [symmetric])
    next
      case st: True
      with oc obtain es where es: "t_matrices (nat no) (tokens (lx_input lx1)) = Inr (es, tokens (lx_input lx2))"
        "qs = map object_of es" by (auto elim: outcome_OK)
      with t_matrices_ok have "list_all object_ok qs" by blast
      moreover obtain more lx3 err3 where nx: "lexer_next lx2 err2 = (more, lx3, err3)"
        by (cases "lexer_next lx2 err2") auto
      ultimately obtain err4 warns where va: "msearch_problem_validate ?out2 err3 =
          Some (if dlt dzero thr then MSEARCH_OK else MSEARCH_ERR_INVALID,
            if dlt dzero thr then ?out2\<lparr>objects := sort_key o_id qs\<rparr> else ?out2, err4, warns)"
        using validate_loaded [OF arr, of err3] ps by (auto simp: out1_def out)
      have spec: "t_tail thr ps (tokens (lx_input lx)) =
          (if dlt dzero thr then Inr (?out2\<lparr>objects := sort_key o_id qs\<rparr>, tokens (lx_input lx2))
           else Inl MSEARCH_ERR_INVALID)"
        using cnt es by (simp add: t_tail_def out1_def out)
      have sorted_held: "held (?out2\<lparr>objects := sort_key o_id qs\<rparr>) = held ?out2"
        by (simp add: held_def) (metis length_0_conv length_sort)
      show ?thesis
      proof (cases "dlt dzero thr")
        case True
        with cnt al \<open>ok\<close> ro st nx va spec held2 sorted_held show ?thesis
          by (simp add: read_tail_def out1_def [symmetric] read_outcome_def)
      next
        case False
        with cnt al \<open>ok\<close> ro st nx va spec held2 arr show ?thesis
          using read_fail_outcome [of ?out2 MSEARCH_ERR_INVALID h2]
          by (simp add: read_tail_def out1_def [symmetric])
      qed
    qed
  qed
qed

lemma problem_alloc_granted:
  "np > 0 \<longrightarrow> grants env (requests h) \<Longrightarrow> 0 \<le> np \<Longrightarrow> msearch_problem_alloc env p np 0 err h =
    (MSEARCH_OK, p\<lparr>pictures := replicate (nat np) picture_zero, objects := [], num_pictures := np, num_objects := 0\<rparr>,
     err, if np > 0 then h\<lparr>requests := requests h + 1, live := live h + 1\<rparr> else h)"
  by (cases "np > 0") (auto simp: msearch_problem_alloc_def mem_alloc_def Let_def)

lemma free_missing_pictures:
  "pictures p = [] \<Longrightarrow> num_pictures p > 0 \<Longrightarrow> msearch_problem_free (Some p) h = None"
  by (subst msearch_problem_free_def, subst free_pictures.simps) (simp add: load_def)

text \<open>Reading stops the process only by releasing the array whose allocation was just refused.\<close>

lemma read_stream_cases:
  "read_outcome env (t_problem (tokens input)) (live h) (msearch_read_problem_stream env input path err h) \<or>
    \<not> grants env (requests h) \<and> msearch_read_problem_stream env input path err h = None"
  (is "?outcome \<or> _")
proof -
  define err0 where "err0 = (case err of None \<Rightarrow> None | Some (cap, s) \<Rightarrow> if cap > 0 then Some (cap, []) else err)"
  define lx where "lx = lexer_init input path"
  have tok: "tokens (lx_input lx) = tokens input" by (simp add: lx_def lexer_init_def)
  note defs = msearch_read_problem_stream_def err0_def [symmetric] lx_def [symmetric]
  have arr0: "arrays_ok (msearch_problem_init\<lparr>threshold := t\<rparr>)" "held (msearch_problem_init\<lparr>threshold := t\<rparr>) = 0" for t
    by (simp_all add: arrays_ok_def msearch_problem_init_def held_def held_pictures_def held_objects_def)
  have arr1: "arrays_ok msearch_problem_init" by (simp add: arrays_ok_def msearch_problem_init_def)
  show ?thesis
  proof (cases "\<exists>thr lx1 np lx2. expect_double lx ''matching threshold'' err0 = (Inr thr, lx1, err0) \<and>
      read_count lx1 ''picture count'' err0 = (Inr np, lx2, err0) \<and> np > 0 \<and> \<not> grants env (requests h)")
    case True
    then show ?thesis by (auto simp: defs msearch_problem_alloc_def mem_alloc_def read_fail_def free_missing_pictures)
  next
    case False
    then have granted: "np > 0 \<longrightarrow> grants env (requests h)" if "expect_double lx ''matching threshold'' err0 = (Inr thr, lx1, err0)"
      "read_count lx1 ''picture count'' err0 = (Inr np, lx2, err0)" for thr lx1 np lx2 using that by blast
    have ?outcome
  proof (cases rule: agrees_cases [OF expect_double_agrees [of lx err0 "''matching threshold''"]])
    case (1 st lx1 err1)
    then show ?thesis
      using read_fail_outcome [OF arr1, of st h] tok by (simp add: defs t_problem_def)
  next
    case thr: (2 thr lx1)
    define out1 where "out1 = msearch_problem_init\<lparr>threshold := thr\<rparr>"
    show ?thesis
    proof (cases rule: agrees_cases [OF read_count_agrees [of lx1 err0 "''picture count''"]])
      case (1 st lx2 err1)
      with thr show ?thesis
        using read_fail_outcome [OF arr0(1) 1(2), of h thr "live h"] tok by (simp add: defs t_problem_def arr0)
    next
      case cnt: (2 np lx2)
      have np: "0 \<le> np" using t_count_range [OF cnt(2)] by simp
      define out2 where "out2 = out1\<lparr>pictures := replicate (nat np) picture_zero, num_pictures := np\<rparr>"
      obtain h1 where al: "msearch_problem_alloc env out1 np 0 err0 h = (MSEARCH_OK, out2, err0, h1)"
        and live1: "live h1 - held out2 = live h"
        using problem_alloc_granted [OF granted [OF thr(1) cnt(1)] np, of out1 err0] np
        by (auto simp: out1_def out2_def msearch_problem_init_def held_def held_objects_def [of "[]"])
      obtain st ps lx3 err2 h2 where rp: "read_pictures env lx2 out2 0 np err0 h1 = Some (st, out2\<lparr>pictures := ps\<rparr>, lx3, err2, h2)"
        and len: "length ps = nat np" and live2: "live h2 - held_pictures ps = live h1"
        and oc: "outcome env st (t_matrices (nat np) (tokens (lx_input lx2))) (\<lambda>es. ps = map picture_of es \<and> err2 = err0) lx3"
        using read_pictures_spec [of 0 "nat np" out2 env lx2 err0 h1] np by (auto simp: out2_def picture_zero_def held_pictures_def)
      let ?out3 = "out2\<lparr>pictures := ps\<rparr>"
      have arr: "arrays_ok ?out3" using len np by (simp add: arrays_ok_def out2_def out1_def msearch_problem_init_def)
      have held2: "live h2 - held ?out3 = live h"
        using live1 live2 len np
        by (auto simp: held_def out2_def out1_def msearch_problem_init_def held_pictures_def [of "[]"] split: if_splits)
      show ?thesis
      proof (cases "st = MSEARCH_OK")
        case False
        from outcome_not_OK [OF oc False] cnt thr tok
        have "t_problem (tokens input) = Inl st \<or> st = MSEARCH_ERR_NOMEM \<and> (\<exists>r. \<not> grants env r)"
          by (auto simp: t_problem_def)
        from read_fail_outcome [OF arr False held2 this] cnt thr al rp False show ?thesis
          by (simp add: defs out1_def [symmetric])
      next
        case st: True
        with oc obtain es where es: "t_matrices (nat np) (tokens (lx_input lx2)) = Inr (es, tokens (lx_input lx3))"
          "ps = map picture_of es" by (auto elim: outcome_OK)
        with t_matrices_ok have pok: "list_all picture_ok ps" by blast
        have "t_problem (tokens input) = t_tail thr ps (tokens (lx_input lx3))"
          using thr cnt es tok by (simp add: t_problem_def)
        moreover have "?out3 = \<lparr>threshold = thr, num_pictures = int (length ps), pictures = ps, num_objects = 0, objects = []\<rparr>"
          using len np by (simp add: out2_def out1_def msearch_problem_init_def)
        ultimately show ?thesis
          using read_tail_outcome [OF _ pok, of ?out3 thr env lx3 h2 path err2] held2 cnt thr al rp st
          by (simp add: defs out1_def [symmetric])
      qed
    qed
  qed
    then show ?thesis ..
  qed
qed

lemma read_stream_outcome:
  "grants env (requests h) \<Longrightarrow>
    read_outcome env (t_problem (tokens input)) (live h) (msearch_read_problem_stream env input path err h)"
  using read_stream_cases by blast

section \<open>Printing\<close>

text \<open>A token that survives any layout, and the text of a token list under a choice of separators.\<close>

definition plain :: "string \<Rightarrow> bool" where
  "plain t \<longleftrightarrow> t \<noteq> [] \<and> list_all graph t \<and> hd t \<noteq> CHR ''#''"

definition separator :: "string \<Rightarrow> bool" where
  "separator s \<longleftrightarrow> s \<noteq> [] \<and> list_all isspace s"

definition layout :: "string \<Rightarrow> (string \<times> string) list \<Rightarrow> string" where
  "layout lead tss = lead @ concat (map (\<lambda>(t, s). t @ s) tss)"

lemma blank_skip: "list_all isspace s \<Longrightarrow> blank (s @ r) = blank r"
  by (subst (1 2) blank.simps) (simp add: dropWhile_append1 list_all_iff dropWhile_append2)

lemma blank_plain: "plain t \<Longrightarrow> blank (t @ r) = t @ r"
  by (cases t) (auto simp: plain_def graph_def blank_Cons)

lemma tokens_layout:
  "list_all isspace lead \<Longrightarrow> \<forall>(t, s) \<in> set tss. plain t \<and> separator s \<Longrightarrow> tokens (layout lead tss) = map fst tss"
proof (induction tss arbitrary: lead)
  case Nil
  then show ?case using blank_skip [of lead "[]"] by (simp add: layout_def tokens_Nil blank_Nil)
next
  case (Cons a tss)
  obtain t s where a: "a = (t, s)" by fastforce
  with Cons.prems have ts: "plain t" "separator s" by auto
  then obtain c u where t: "t = c # u" by (auto simp: plain_def neq_Nil_conv)
  obtain d v where s: "s = d # v" "isspace d" "list_all isspace v" using ts(2) by (auto simp: separator_def neq_Nil_conv)
  let ?rest = "concat (map (\<lambda>(t, s). t @ s) tss)"
  have b: "blank (layout lead (a # tss)) = c # (u @ s @ ?rest)"
    using blank_skip [OF Cons.prems(1), of "t @ s @ ?rest"] blank_plain [OF ts(1), of "s @ ?rest"]
    by (simp add: layout_def a t)
  have u: "list_all graph u" using ts(1) t by (simp add: plain_def)
  then have "takeWhile graph (u @ s @ ?rest) = u" "dropWhile graph (u @ s @ ?rest) = s @ ?rest"
    using s by (auto simp: takeWhile_append2 dropWhile_append2 list_all_iff graph_def)
  moreover have "tokens (layout v tss) = map fst tss"
    using Cons.IH [OF s(3)] Cons.prems by simp
  moreover have "tl (s @ ?rest) = layout v tss" by (simp add: s layout_def)
  ultimately show ?case unfolding tokens_Cons [OF b] by (simp add: a t)
qed

text \<open>A printed integer reads back.\<close>

lemma of_char_digit: "0 \<le> d \<Longrightarrow> d \<le> 9 \<Longrightarrow> of_char (digit_char d) = (48 + d :: int)"
  by (simp add: digit_char_def)

lemma digit_char_props:
  assumes "0 \<le> d" "d \<le> 9"
  shows "isdigit (digit_char d)" "xdigit_val (digit_char d) = d" "graph (digit_char d)" "digit_char d \<noteq> CHR ''-''"
    "digit_char d \<noteq> CHR ''+''" "digit_char d \<noteq> CHR ''#''" "digit_char d \<noteq> CHR 0x00" "\<not> isspace (digit_char d)"
proof -
  note oc = of_char_digit [OF assms]
  show i: "isdigit (digit_char d)" using assms oc by (simp add: isdigit_def)
  show "xdigit_val (digit_char d) = d" using i oc by (simp add: xdigit_val_def)
  have ne: "digit_char d \<noteq> c" if "of_char c < (48::int)" for c
  proof
    assume "digit_char d = c"
    with oc that assms show False by simp
  qed
  show "digit_char d \<noteq> CHR ''-''" "digit_char d \<noteq> CHR ''+''" "digit_char d \<noteq> CHR ''#''" "digit_char d \<noteq> CHR 0x00"
    by (rule ne, simp)+
  show "\<not> isspace (digit_char d)" unfolding isspace_def using ne by auto
  then show "graph (digit_char d)" by (simp add: graph_def)
qed

lemma show_digits_all:
  assumes "0 \<le> i"
  shows "list_all (\<lambda>c. isdigit c \<and> graph c \<and> \<not> isspace c \<and> c \<noteq> CHR ''-'' \<and> c \<noteq> CHR ''+'' \<and> c \<noteq> CHR ''#'' \<and> c \<noteq> CHR 0x00)
    (show_digits i)"
  using show_digits_chars [OF assms] digit_char_props by (fastforce simp: list_all_iff)

lemma digits_val_snoc: "digits_val b (ds @ [c]) = b * digits_val b ds + xdigit_val c"
  by (simp add: digits_val_def)

lemma digits_val_show: "0 \<le> i \<Longrightarrow> digits_val 10 (show_digits i) = i"
proof (induction i rule: show_digits.induct)
  case (1 i)
  show ?case
  proof (cases "i < 10")
    case True
    with "1.prems" show ?thesis
      by (subst show_digits.simps) (simp add: digits_val_def digit_char_props)
  next
    case False
    have "0 \<le> i mod 10" "i mod 10 \<le> 9" by simp_all
    with "1.IH" [OF False] "1.prems" False show ?thesis
      by (subst show_digits.simps) (simp add: digits_val_snoc digit_char_props)
  qed
qed

lemma show_digits_length: "0 \<le> i \<Longrightarrow> i < 10 ^ Suc k \<Longrightarrow> length (show_digits i) \<le> Suc k"
proof (induction k arbitrary: i)
  case 0
  then show ?case by (subst show_digits.simps) simp
next
  case (Suc k)
  then have "i div 10 < 10 ^ Suc k" by simp
  with Suc.IH [of "i div 10"] Suc.prems show ?case by (subst show_digits.simps) simp
qed

lemma show_int_token:
  assumes "int32 v"
  shows "plain (show_int v)" "int_of_token (show_int v) = Inr v"
proof -
  define ds where "ds = show_digits \<bar>v\<bar>"
  have all: "list_all (\<lambda>c. isdigit c \<and> graph c \<and> \<not> isspace c \<and> c \<noteq> CHR ''-'' \<and> c \<noteq> CHR ''+'' \<and> c \<noteq> CHR ''#'' \<and> c \<noteq> CHR 0x00) ds"
    unfolding ds_def by (rule show_digits_all) simp
  have ne: "ds \<noteq> []" by (simp add: ds_def)
  have si: "show_int v = (if v < 0 then CHR ''-'' # ds else ds)" by (auto simp: show_int_def ds_def)
  have minus: "graph (CHR ''-'')" "\<not> isspace (CHR ''-'')" by (simp_all add: graph_def isspace_def)
  show "plain (show_int v)"
    using all ne minus by (cases ds) (auto simp: si plain_def list_all_iff)
  have "length ds \<le> Suc 9" unfolding ds_def using assms by (intro show_digits_length) (auto simp: int_ranges)
  then have short: "\<not> too_long (show_int v)" by (simp add: si too_long_def TOKEN_MAX_def)
  have nul: "CHR 0x00 \<notin> set (show_int v)" using all by (auto simp: si list_all_iff)
  have drop: "dropWhile isspace (show_int v) = show_int v"
    using all ne minus by (cases ds) (auto simp: si)
  have sign: "take_sign (show_int v) = (v < 0, ds)"
    using all ne by (cases ds) (auto simp: si take_sign_def)
  have dig: "takeWhile isdigit ds = ds" "dropWhile isdigit ds = []" using all by (auto simp: list_all_iff)
  have val: "digits_val 10 ds = \<bar>v\<bar>" by (simp add: ds_def digits_val_show)
  have "strtol (show_int v) = (v, length (show_int v), False)"
    using ne assms unfolding strtol_def drop sign by (auto simp: dig val Let_def int_ranges)
  moreover have "length (show_int v) \<noteq> 0" by simp
  ultimately show "int_of_token (show_int v) = Inr v"
    using assms short nul by (simp add: int_of_token_def Let_def int32_def del: length_0_conv)
qed

definition matrix_tokens :: "cint \<Rightarrow> cint \<Rightarrow> cint list option \<Rightarrow> string list" where
  "matrix_tokens mid side d = map show_int (mid # side # the d)"

text \<open>The tokens of a problem whose threshold is written \<open>thr\<close>.\<close>

definition problem_tokens :: "string \<Rightarrow> Problem \<Rightarrow> string list" where
  "problem_tokens thr p =
     [thr, show_int (num_pictures p)] @
     concat (map (\<lambda>q. matrix_tokens (p_id q) (p_n q) (p_data q)) (pictures p)) @
     [show_int (num_objects p)] @
     concat (map (\<lambda>q. matrix_tokens (o_id q) (o_m q) (o_data q)) (objects p))"

lemma t_int_show: "int32 v \<Longrightarrow> t_int (show_int v # ts) = Inr (v, ts)"
  by (simp add: show_int_token)

lemma t_ints_show: "list_all int32 vs \<Longrightarrow> t_ints (length vs) (map show_int vs @ ts) = Inr (vs, ts)"
  by (induction vs) (simp_all add: t_int_show del: t_int.simps)

lemma t_matrix_show:
  assumes "int32 mid" "matrix_ok side d"
  shows "t_matrix (matrix_tokens mid side d @ ts) = Inr ((mid, side, the d), ts)"
proof -
  obtain vs where vs: "d = Some vs" "int (length vs) = side * side" "list_all int32 vs" "0 < side" "side \<le> 46340"
    using assms(2) by (rule matrix_okE)
  then have "int32 side" "nat (side * side) = length vs" by (auto simp: int_ranges nat_eq_iff2)
  with vs assms(1) show ?thesis
    by (simp add: t_matrix_def matrix_tokens_def t_int_show t_ints_show MSEARCH_MAX_SIDE_def del: t_int.simps)
qed

lemma t_matrices_pictures:
  "list_all picture_ok ps \<Longrightarrow>
    t_matrices (length ps) (concat (map (\<lambda>q. matrix_tokens (p_id q) (p_n q) (p_data q)) ps) @ ts) =
      Inr (map (\<lambda>q. (p_id q, p_n q, the (p_data q))) ps, ts)"
  by (induction ps) (simp_all add: t_matrix_show picture_ok_def)

lemma t_matrices_objects:
  "list_all object_ok qs \<Longrightarrow>
    t_matrices (length qs) (concat (map (\<lambda>q. matrix_tokens (o_id q) (o_m q) (o_data q)) qs) @ ts) =
      Inr (map (\<lambda>q. (o_id q, o_m q, the (o_data q))) qs, ts)"
  by (induction qs) (simp_all add: t_matrix_show object_ok_def)

lemma t_count_show: "0 \<le> v \<Longrightarrow> v \<le> MSEARCH_MAX_COUNT \<Longrightarrow> t_count (show_int v # ts) = Inr (v, ts)"
  by (simp add: t_count_def t_int_show int_ranges MSEARCH_MAX_COUNT_def del: t_int.simps)

lemma picture_of_fields: "picture_ok q \<Longrightarrow> picture_of (p_id q, p_n q, the (p_data q)) = q"
  by (auto simp: picture_of_def picture_ok_def elim: matrix_okE)

lemma object_of_fields: "object_ok q \<Longrightarrow> object_of (o_id q, o_m q, the (o_data q)) = q"
  by (auto simp: object_of_def object_ok_def elim: matrix_okE)

lemma map_ident_on: "list_all P xs \<Longrightarrow> (\<And>x. P x \<Longrightarrow> f x = x) \<Longrightarrow> map f xs = xs"
  by (induction xs) auto

lemma t_problem_show:
  assumes p: "problem_ok p" "num_pictures p \<le> MSEARCH_MAX_COUNT" "num_objects p \<le> MSEARCH_MAX_COUNT"
    and thr: "double_of_token thr = Inr (threshold p)"
  shows "t_problem (problem_tokens thr p @ rest) = Inr (p, rest)"
proof -
  have ok: "num_pictures p = int (length (pictures p))" "num_objects p = int (length (objects p))"
    "list_all picture_ok (pictures p)" "list_all object_ok (objects p)" "dlt dzero (threshold p)"
    "sort_key o_id (objects p) = objects p"
    using p(1) by (auto simp: problem_ok_def arrays_ok_def sort_key_id_if_sorted sorted_map)
  have "map (picture_of \<circ> (\<lambda>q. (p_id q, p_n q, the (p_data q)))) (pictures p) = pictures p"
    using ok(3) by (rule map_ident_on) (simp add: picture_of_fields)
  moreover have "map (object_of \<circ> (\<lambda>q. (o_id q, o_m q, the (o_data q)))) (objects p) = objects p"
    using ok(4) by (rule map_ident_on) (simp add: object_of_fields)
  ultimately show ?thesis
    using p(2,3) thr ok t_matrices_pictures [OF ok(3)] t_matrices_objects [OF ok(4)]
    by (simp add: problem_tokens_def t_problem_def t_tail_def t_count_show)
qed

section \<open>Line numbers\<close>

text \<open>
  \<open>lexer_next\<close> takes back the count of a newline that ends a token, and no later call counts it
  again: a line that holds just one token never advances \<open>line\<close>.
\<close>

lemma collect_line:
  assumes "list_all graph t" "length t < TOKEN_MAX" "isspace d" "t \<noteq> []" "hd t \<noteq> CHR ''#''"
  shows "\<exists>lx1 lx2. skip_blank (lx\<lparr>lx_input := t @ d # r\<rparr>) = (Some (hd t), lx1) \<and>
    collect (Some (hd t)) [] lx1 = (Some t, Some d, lx2) \<and> lx_input lx2 = r \<and>
    lx_line lx2 + nls r = lx_line lx + nls (t @ d # r)"
proof -
  obtain c u where t: "t = c # u" using assms(4) by (cases t) auto
  obtain c' lx1 where g: "skip_blank (lx\<lparr>lx_input := t @ d # r\<rparr>) = (c', lx1)" by fastforce
  have "blank (t @ d # r) = t @ d # r" using assms by (intro blank_plain) (simp add: plain_def)
  then have dv: "delivers (lx\<lparr>lx_input := t @ d # r\<rparr>) (t @ d # r) (c', lx1)"
    using skip_blank_delivers [of "lx\<lparr>lx_input := t @ d # r\<rparr>"] g by simp
  then have c': "c' = Some c" and i: "lx_input lx1 = u @ d # r"
    and n: "lx_line lx1 + nls (u @ d # r) = lx_line lx + nls (t @ d # r)"
    by (simp_all add: delivers_def t)
  have "takeWhile graph (c # u @ d # r) = t" "dropWhile graph (c # u @ d # r) = d # r"
    using assms by (auto simp: t takeWhile_append2 dropWhile_append2 list_all_iff graph_def)
  then obtain lx2 where "collect (Some c) [] lx1 = (Some t, Some d, lx2)" "lx_input lx2 = r"
    "lx_line lx2 + nls r = lx_line lx1 + nls (u @ d # r)"
    using collect_spec [of "Some c" lx1 "[]"] assms i by (auto simp: in_hand_def Let_def TOKEN_MAX_def)
  with g c' n show ?thesis by (auto simp: t)
qed

definition line_token :: "string \<Rightarrow> bool" where
  "line_token t \<longleftrightarrow> plain t \<and> \<not> too_long t"

definition lines_of :: "string list \<Rightarrow> string" where
  "lines_of ts = concat (map (\<lambda>t. t @ newline) ts)"

lemma lexer_next_line:
  assumes "line_token t"
  shows "\<exists>lx'. lexer_next (lx\<lparr>lx_input := t @ newline @ r\<rparr>) err = (True, lx', err) \<and>
    lx_token lx' = t \<and> lx_input lx' = r \<and> lx_line lx' = lx_line lx"
proof -
  have t: "t \<noteq> []" "list_all graph t" "hd t \<noteq> CHR ''#''" "length t < TOKEN_MAX"
    using assms by (auto simp: line_token_def plain_def too_long_def)
  have "isspace (CHR 0x0A)" by (simp add: isspace_def)
  from collect_line [OF t(2,4) this t(1,3), where lx = lx and r = r] obtain lx1 lx2 where
    l: "skip_blank (lx\<lparr>lx_input := t @ CHR 0x0A # r\<rparr>) = (Some (hd t), lx1)"
    "collect (Some (hd t)) [] lx1 = (Some t, Some (CHR 0x0A), lx2)" "lx_input lx2 = r"
    "lx_line lx2 + nls r = lx_line lx + nls (t @ CHR 0x0A # r)" by blast
  have "nls t = 0"
  proof -
    have "CHR 0x0A \<notin> set t" using t(2) \<open>isspace (CHR 0x0A)\<close> by (auto simp: list_all_iff graph_def)
    then show ?thesis by (induction t) (auto simp: nls_def)
  qed
  with l t show ?thesis by (simp add: lexer_next_def newline_def)
qed

text \<open>The lexer after \<open>k\<close> calls.\<close>

fun after_tokens :: "nat \<Rightarrow> Lexer \<Rightarrow> errbuf \<Rightarrow> Lexer" where
  "after_tokens 0 lx err = lx"
| "after_tokens (Suc k) lx err = (let (ok, lx', err') = lexer_next lx err in after_tokens k lx' err')"

lemma after_tokens_line:
  "\<forall>t \<in> set ts. line_token t \<Longrightarrow> k \<le> length ts \<Longrightarrow> lx_input lx = lines_of ts \<Longrightarrow>
    lx_line (after_tokens k lx err) = lx_line lx"
proof (induction k arbitrary: ts lx)
  case (Suc k)
  then obtain t us where ts: "ts = t # us" by (cases ts) auto
  have "lx = lx\<lparr>lx_input := t @ newline @ lines_of us\<rparr>" using Suc.prems(3) by (simp add: ts lines_of_def)
  with lexer_next_line [where t = t and lx = lx and r = "lines_of us" and err = err] Suc.prems(1) obtain lx' where
    n: "lexer_next lx err = (True, lx', err)" "lx_input lx' = lines_of us" "lx_line lx' = lx_line lx"
    by (auto simp: ts)
  with Suc.IH [of us lx'] Suc.prems show ?case by (simp add: ts)
qed simp

lemma matrix_tokens_plain:
  assumes "int32 mid" "matrix_ok side d"
  shows "list_all plain (matrix_tokens mid side d)"
proof -
  obtain vs where "d = Some vs" "list_all int32 vs" "0 < side" "side \<le> 46340"
    using assms(2) by (rule matrix_okE)
  moreover from this have "int32 side" by (simp add: int_ranges)
  ultimately show ?thesis
    using assms(1) by (simp add: matrix_tokens_def list_all_iff show_int_token)
qed

lemma problem_tokens_plain:
  assumes "problem_ok p" "num_pictures p \<le> MSEARCH_MAX_COUNT" "num_objects p \<le> MSEARCH_MAX_COUNT" "plain thr"
  shows "list_all plain (problem_tokens thr p)"
proof -
  have "int32 (num_pictures p)" "int32 (num_objects p)"
    using assms by (auto simp: problem_ok_def arrays_ok_def int_ranges MSEARCH_MAX_COUNT_def)
  with assms(1,4) show ?thesis
    using matrix_tokens_plain
    by (fastforce simp: problem_tokens_def show_int_token problem_ok_def list_all_iff picture_ok_def object_ok_def)
qed

section \<open>Properties\<close>

text \<open>C11: Reading any input terminates without undefined behaviour, provided the picture array can be
  allocated. Success yields exactly the problem the format assigns to the file's tokens, and it is
  well formed. Failure yields an empty problem and gives back every block that was allocated, with the
  status the format prescribes or out-of-memory.\<close>

theorem read_problem_implements_format:
  assumes "grants env (requests h)"
  shows "\<exists>st out err' lg h'. msearch_read_problem_stream env input path err h = Some (st, out, err', lg, h') \<and>
    (st = MSEARCH_OK \<longrightarrow> (\<exists>rest. t_problem (tokens input) = Inr (out, rest)) \<and> problem_ok out) \<and>
    (st \<noteq> MSEARCH_OK \<longrightarrow> out = msearch_problem_init \<and> live h' = live h \<and>
       (t_problem (tokens input) = Inl st \<or> st = MSEARCH_ERR_NOMEM \<and> (\<exists>r. \<not> grants env r)))"
  using read_stream_outcome [OF assms, of input path err]
  by (auto simp: read_outcome_def dest: t_problem_ok)

definition plenty :: env where
  "plenty = \<lparr>grants = (\<lambda>_. True), junk = (\<lambda>_. 0)\<rparr>"

lemma plenty_grants [simp]: "grants plenty r"
  by (simp add: plenty_def)

definition no_heap :: heap where
  "no_heap = \<lparr>requests = 0, live = 0\<rparr>"

definition small_file :: string where
  "small_file = ''1 1 7 2 1 2 3 4 1 9 1 5''"

lemma small_file_tokens:
  "t_problem (tokens small_file) =
    Inr (\<lparr>threshold = dof_int 1, num_pictures = 1, pictures = [\<lparr>p_id = 7, p_n = 2, p_data = Some [1, 2, 3, 4]\<rparr>],
      num_objects = 1, objects = [\<lparr>o_id = 9, o_m = 1, o_data = Some [5]\<rparr>]\<rparr>, [])"
  by code_simp

theorem read_problem_implements_format_witness:
  "\<exists>out err' lg h'. msearch_read_problem_stream plenty small_file ''in'' None no_heap =
      Some (MSEARCH_OK, out, err', lg, h') \<and> problem_ok out \<and> num_pictures out = 1"
proof -
  have g: "grants plenty (requests no_heap)" by (simp add: plenty_def)
  from read_problem_implements_format [OF this, of small_file "''in''" None]
  obtain st out err' lg h' where r: "msearch_read_problem_stream plenty small_file ''in'' None no_heap = Some (st, out, err', lg, h')"
    "st = MSEARCH_OK \<longrightarrow> (\<exists>rest. t_problem (tokens small_file) = Inr (out, rest)) \<and> problem_ok out"
    "st \<noteq> MSEARCH_OK \<longrightarrow> t_problem (tokens small_file) = Inl st \<or> st = MSEARCH_ERR_NOMEM \<and> (\<exists>r. \<not> grants plenty r)"
    by blast
  from r(3) have "st = MSEARCH_OK" by (auto simp: small_file_tokens plenty_def)
  with r show ?thesis by (auto simp: small_file_tokens)
qed

text \<open>C16: A problem that was read is released completely: reading and then freeing leaves the number of
  live blocks as it was, and an empty problem.\<close>

theorem read_then_free_balanced:
  assumes "grants env (requests h)"
    and "msearch_read_problem_stream env input path err h = Some (MSEARCH_OK, p, err', lg, h')"
  shows "\<exists>h''. msearch_problem_free (Some p) h' = Some (Some msearch_problem_init, h'') \<and> live h'' = live h"
proof -
  from read_stream_outcome [OF assms(1), of input path err] assms(2) obtain ts where
    p: "live h' - held p = live h" "t_problem (tokens input) = Inr (p, ts)"
    by (auto simp: read_outcome_def)
  then have "arrays_ok p" using t_problem_ok [OF p(2)] by (simp add: problem_ok_def)
  from problem_free_spec [OF this, of h'] p(1) show ?thesis by auto
qed

theorem read_then_free_balanced_witness:
  "\<exists>p err' lg h' h''. msearch_read_problem_stream plenty small_file ''in'' None no_heap =
      Some (MSEARCH_OK, p, err', lg, h') \<and>
    msearch_problem_free (Some p) h' = Some (Some msearch_problem_init, h'') \<and> live h'' = 0"
proof -
  have g: "grants plenty (requests no_heap)" by (simp add: plenty_def)
  have out: "read_outcome plenty (t_problem (tokens small_file)) (live no_heap)
      (msearch_read_problem_stream plenty small_file ''in'' None no_heap)"
    by (rule read_stream_outcome [OF g])
  then obtain st p err' lg h' where r: "msearch_read_problem_stream plenty small_file ''in'' None no_heap =
      Some (st, p, err', lg, h')" "st \<noteq> MSEARCH_OK \<longrightarrow> t_problem (tokens small_file) = Inl st \<or> (\<exists>r. \<not> grants plenty r)"
    by (auto simp: read_outcome_def)
  then have "st = MSEARCH_OK" by (auto simp: small_file_tokens plenty_def)
  with r read_then_free_balanced [OF g] show ?thesis by (fastforce simp: no_heap_def)
qed

text \<open>C15: The layout of a file does not matter: when memory is granted, two inputs with the same tokens give
  the same status and the same problem, wherever they break their lines and whatever their comments
  say.\<close>

theorem read_problem_layout_free:
  assumes "\<forall>r. grants env r" "tokens input = tokens input'"
  shows "map_option (\<lambda>(st, out, _). (st, out)) (msearch_read_problem_stream env input path err h) =
    map_option (\<lambda>(st, out, _). (st, out)) (msearch_read_problem_stream env input' path' err' h')"
  using read_stream_outcome [of env h input path err] read_stream_outcome [of env h' input' path' err'] assms
  by (auto simp: read_outcome_def)

definition small_file_lines :: string where
  "small_file_lines = concat (map (\<lambda>c. if c = CHR '' '' then ''  # note'' @ newline else [c]) small_file)"

theorem read_problem_layout_free_witness:
  "small_file_lines \<noteq> small_file \<and>
   map_option (\<lambda>(st, out, _). (st, out)) (msearch_read_problem_stream plenty small_file_lines ''a'' None no_heap) =
   map_option (\<lambda>(st, out, _). (st, out)) (msearch_read_problem_stream plenty small_file ''b'' None no_heap)"
proof
  show "small_file_lines \<noteq> small_file" by code_simp
  have "tokens small_file_lines = tokens small_file" by code_simp
  then show "map_option (\<lambda>(st, out, _). (st, out)) (msearch_read_problem_stream plenty small_file_lines ''a'' None no_heap) =
   map_option (\<lambda>(st, out, _). (st, out)) (msearch_read_problem_stream plenty small_file ''b'' None no_heap)"
    by (intro read_problem_layout_free) (simp add: plenty_def)
qed

text \<open>C12: A well-formed problem with at most \<open>MSEARCH_MAX_COUNT\<close> (a million, what the reader accepts) pictures
  and as many objects, printed in any layout, one integer per line or whole rows, is read back
  unchanged when every allocation is granted and its threshold is written as a token that denotes it.\<close>

theorem read_problem_roundtrip:
  assumes p: "problem_ok p" "num_pictures p \<le> MSEARCH_MAX_COUNT" "num_objects p \<le> MSEARCH_MAX_COUNT"
    and thr: "plain thr" "double_of_token thr = Inr (threshold p)"
    and lay: "map fst tss = problem_tokens thr p" "\<forall>(t, s) \<in> set tss. separator s" "list_all isspace lead"
    and env: "\<forall>r. grants env r"
  shows "\<exists>err' lg h'. msearch_read_problem_stream env (layout lead tss) path err h =
    Some (MSEARCH_OK, p, err', lg, h')"
proof -
  have "list_all plain (problem_tokens thr p)"
    by (rule problem_tokens_plain [OF p thr(1)])
  then have "\<forall>(t, s) \<in> set tss. plain t \<and> separator s"
    using lay(1,2) by (metis (no_types, lifting) case_prodD case_prodI2 fst_conv image_eqI list.set_map list_all_iff)
  then have "tokens (layout lead tss) = problem_tokens thr p"
    using tokens_layout lay by metis
  then have "t_problem (tokens (layout lead tss)) = Inr (p, [])"
    using t_problem_show [OF p thr(2), of "[]"] by simp
  moreover have "read_outcome env (t_problem (tokens (layout lead tss))) (live h)
      (msearch_read_problem_stream env (layout lead tss) path err h)"
    using env by (intro read_stream_outcome) simp
  ultimately show ?thesis using env by (auto simp: read_outcome_def)
qed

text \<open>C40: The line number of diagnostics: in a file with one token on every line, the layout the
  original inputs use, the lexer's line stays 1 however many tokens it has read.\<close>

theorem line_number_stuck:
  assumes "\<forall>t \<in> set ts. line_token t" "k \<le> length ts"
  shows "lx_line (after_tokens k (lexer_init (lines_of ts) path) err) = 1"
  using after_tokens_line [OF assms, of "lexer_init (lines_of ts) path" err] by (simp add: lexer_init_def)

theorem line_number_stuck_witness:
  "lx_line (after_tokens 3 (lexer_init (lines_of [''1.0'', ''2'', ''banana'']) ''in.txt'') None) = 1"
proof (rule line_number_stuck)
  show "\<forall>t \<in> set [''1.0'', ''2'', ''banana'']. line_token t" by code_simp
qed simp

definition small_problem :: Problem where
  "small_problem = \<lparr>threshold = dof_int 1, num_pictures = 1, pictures = [\<lparr>p_id = 7, p_n = 2, p_data = Some [1, 2, 3, 4]\<rparr>],
     num_objects = 1, objects = [\<lparr>o_id = 9, o_m = 1, o_data = Some [5]\<rparr>]\<rparr>"

theorem read_problem_roundtrip_witness:
  "\<exists>err' lg h'. msearch_read_problem_stream plenty
      (layout [] (map (\<lambda>t. (t, newline)) (problem_tokens ''1'' small_problem))) ''in'' None no_heap =
    Some (MSEARCH_OK, small_problem, err', lg, h')"
proof (rule read_problem_roundtrip)
  show "problem_ok small_problem" by code_simp
  show "num_pictures small_problem \<le> MSEARCH_MAX_COUNT" "num_objects small_problem \<le> MSEARCH_MAX_COUNT" by code_simp+
  show "plain ''1''" by code_simp
  show "double_of_token ''1'' = Inr (threshold small_problem)" by code_simp
  show "map fst (map (\<lambda>t. (t, newline)) (problem_tokens ''1'' small_problem)) = problem_tokens ''1'' small_problem"
    by (simp add: comp_def)
  show "\<forall>(t, s) \<in> set (map (\<lambda>t. (t, newline)) (problem_tokens ''1'' small_problem)). separator s"
    by (auto simp: separator_def newline_def isspace_def)
  show "list_all isspace []" by simp
  show "\<forall>r. grants plenty r" by simp
qed

end
