(* ===== verification/Writer.thy ===== *)
theory Writer
  imports Parser Backend
begin

text \<open>
  The result writer, \<open>src/core/writer.c\<close>. What the operating system decides (whether a file opens, a
  call of \<open>fprintf\<close> reports an error, a close succeeds, each with the text of \<open>strerror\<close>) is a parameter.
  Streams are buffered: that \<open>fprintf\<close> succeeds does not mean that its bytes are out, and a call that
  reports an error may have put out part of its line. Only a successful \<open>fclose\<close> says that everything
  handed to the stream is in the file; otherwise the file holds some prefix of it, and \<open>taken\<close> is its
  length. Standard output is never closed here: its bytes are handed to the stream, and what becomes of
  them is decided when the process exits (\<open>at_exit\<close> in \<open>Program\<close>).
\<close>

section \<open>The code\<close>

text \<open>\<open>snprintf\<close> into a buffer of \<open>buf_len\<close> bytes.\<close>

definition snprintf :: "nat \<Rightarrow> string \<Rightarrow> string" where
  "snprintf buf_len s = take (buf_len - 1) s"

definition msearch_format_match :: "Match \<Rightarrow> nat \<Rightarrow> string" where
  "msearch_format_match mt buf_len =
     (if msearch_match_found mt
      then snprintf buf_len (''Picture '' @ show_int (m_picture_id mt) @ '' found Object '' @
             show_int (m_object_id mt) @ '' in Position('' @ show_int (m_row mt) @ '','' @
             show_int (m_col mt) @ '')'')
      else snprintf buf_len (''Picture '' @ show_int (m_picture_id mt) @ '' No Objects were found''))"

record out_files =
  open_error :: "string \<Rightarrow> string option"
  write_error :: "string \<Rightarrow> int \<Rightarrow> string option"
  close_error :: "string \<Rightarrow> string option"
  taken :: "string \<Rightarrow> nat"

text \<open>The loop; with the status, the bytes handed to the stream, the line that failed included.\<close>

function write_lines ::
  "out_files \<Rightarrow> string \<Rightarrow> Match list \<Rightarrow> cint \<Rightarrow> cint \<Rightarrow> string \<Rightarrow> errbuf \<Rightarrow> (Status \<times> string \<times> errbuf) option" where
  "write_lines os path ms i n out err =
     (if i < n then do {
        mt \<leftarrow> load ms i;
        let line = msearch_format_match mt 128;
        case write_error os path i of
          Some msg \<Rightarrow> Some (MSEARCH_ERR_IO, out @ line @ newline,
            msearch_set_err err (''write to '' @ [CHR 0x27] @ path @ [CHR 0x27] @ '' failed: '' @ msg))
        | None \<Rightarrow> write_lines os path ms (i + 1) n (out @ line @ newline) err
      } else Some (MSEARCH_OK, out, err))"
  by pat_completeness auto
termination
  by (relation "measure (\<lambda>(os, path, ms, i, n, out, err). nat (n - i))") auto

declare write_lines.simps [simp del]

text \<open>With the status, the bytes in the file, or those handed to standard output.\<close>

definition msearch_write_results ::
  "out_files \<Rightarrow> string \<Rightarrow> Match list \<Rightarrow> cint \<Rightarrow> errbuf \<Rightarrow> (Status \<times> string \<times> errbuf) option" where
  "msearch_write_results os path ms n err =
     (let to_stdout = (path = ''-'') in
      case (if to_stdout then None else open_error os path) of
        Some msg \<Rightarrow> Some (MSEARCH_ERR_IO, [],
          msearch_set_err err (''cannot open '' @ [CHR 0x27] @ path @ [CHR 0x27] @ '' for writing: '' @ msg))
      | None \<Rightarrow> do {
          (st, out, err1) \<leftarrow> write_lines os path ms 0 n [] err;
          let partial = (if to_stdout then out else take (taken os path) out);
          if st \<noteq> MSEARCH_OK then Some (st, partial, err1)
          else case (if to_stdout then None else close_error os path) of
              Some msg \<Rightarrow> Some (MSEARCH_ERR_IO, partial,
                msearch_set_err err1 (''closing '' @ [CHR 0x27] @ path @ [CHR 0x27] @ '' failed: '' @ msg))
            | None \<Rightarrow> Some (MSEARCH_OK, out, err1)
        })"

section \<open>Lines\<close>

definition match_ok :: "Match \<Rightarrow> bool" where
  "match_ok mt \<longleftrightarrow> int32 (m_picture_id mt) \<and> int32 (m_object_id mt) \<and> int32 (m_row mt) \<and> int32 (m_col mt)"

text \<open>The line without any bound on its length.\<close>

definition match_line :: "Match \<Rightarrow> string" where
  "match_line mt =
     (if msearch_match_found mt
      then ''Picture '' @ show_int (m_picture_id mt) @ '' found Object '' @
             show_int (m_object_id mt) @ '' in Position('' @ show_int (m_row mt) @ '','' @
             show_int (m_col mt) @ '')''
      else ''Picture '' @ show_int (m_picture_id mt) @ '' No Objects were found'')"

lemma show_int_short: "int32 v \<Longrightarrow> length (show_int v) \<le> 11"
  using show_digits_length [of v 9] show_digits_length [of "- v" 9]
  by (auto simp: show_int_def int_ranges)

lemma format_match_line: "match_ok mt \<Longrightarrow> msearch_format_match mt 128 = match_line mt"
  using show_int_short [of "m_picture_id mt"] show_int_short [of "m_object_id mt"]
    show_int_short [of "m_row mt"] show_int_short [of "m_col mt"]
  by (simp add: msearch_format_match_def match_line_def snprintf_def match_ok_def)

text \<open>A printed integer ends where the digits end.\<close>

definition no_digit_next :: "string \<Rightarrow> bool" where
  "no_digit_next s \<longleftrightarrow> (case s of [] \<Rightarrow> True | c # _ \<Rightarrow> \<not> isdigit c)"

lemma show_digits_prefix:
  assumes "0 \<le> i" "no_digit_next s"
  shows "takeWhile isdigit (show_digits i @ s) = show_digits i" "dropWhile isdigit (show_digits i @ s) = s"
  using show_digits_all [OF assms(1)] assms(2)
  by (auto simp: list_all_iff takeWhile_append2 dropWhile_append2 no_digit_next_def split: list.splits)

lemma show_int_head:
  obtains c u where "show_digits \<bar>i\<bar> = c # u" "c \<noteq> CHR ''-''"
    "show_int i = (if i < 0 then CHR ''-'' # c # u else c # u)"
proof -
  obtain c u where d: "show_digits \<bar>i\<bar> = c # u" by (cases "show_digits \<bar>i\<bar>") auto
  moreover have "c \<noteq> CHR ''-''" using show_digits_all [of "\<bar>i\<bar>"] d by simp
  moreover have "show_int i = (if i < 0 then CHR ''-'' # c # u else c # u)" using d by (cases "i < 0") (simp_all add: show_int_def)
  ultimately show thesis by (rule that)
qed

lemma show_int_cancel:
  assumes "show_int i @ s = show_int j @ t" "no_digit_next s" "no_digit_next t"
  shows "i = j \<and> s = t"
proof -
  obtain c u where i: "show_digits \<bar>i\<bar> = c # u" "c \<noteq> CHR ''-''"
    "show_int i = (if i < 0 then CHR ''-'' # c # u else c # u)" by (rule show_int_head)
  obtain d v where j: "show_digits \<bar>j\<bar> = d # v" "d \<noteq> CHR ''-''"
    "show_int j = (if j < 0 then CHR ''-'' # d # v else d # v)" by (rule show_int_head)
  have sgn: "i < 0 \<longleftrightarrow> j < 0" and eq: "show_digits \<bar>i\<bar> @ s = show_digits \<bar>j\<bar> @ t"
    using assms(1) i j by (simp_all split: if_splits)
  have "show_digits \<bar>i\<bar> = show_digits \<bar>j\<bar>" "s = t"
    using show_digits_prefix [of "\<bar>i\<bar>" s] show_digits_prefix [of "\<bar>j\<bar>" t] eq assms(2,3) by simp_all
  then have "\<bar>i\<bar> = \<bar>j\<bar>" by (metis abs_ge_zero digits_val_show)
  with sgn \<open>s = t\<close> show ?thesis by arith
qed

lemma match_line_inj:
  assumes "match_line a = match_line b" "msearch_match_found a"
  shows "a = b"
proof -
  note nd = no_digit_next_def isdigit_def
  show ?thesis
  proof (cases "msearch_match_found b")
    case True
    with assms have "show_int (m_picture_id a) @ '' found Object '' @ show_int (m_object_id a) @
          '' in Position('' @ show_int (m_row a) @ '','' @ show_int (m_col a) @ '')'' =
        show_int (m_picture_id b) @ '' found Object '' @ show_int (m_object_id b) @
          '' in Position('' @ show_int (m_row b) @ '','' @ show_int (m_col b) @ '')''"
      by (simp add: match_line_def)
    from show_int_cancel [OF this] have pic: "m_picture_id a = m_picture_id b" and
      e: "show_int (m_object_id a) @ '' in Position('' @ show_int (m_row a) @ '','' @ show_int (m_col a) @ '')'' =
        show_int (m_object_id b) @ '' in Position('' @ show_int (m_row b) @ '','' @ show_int (m_col b) @ '')''"
      by (simp_all add: nd)
    from show_int_cancel [OF e] have obj: "m_object_id a = m_object_id b" and
      e: "show_int (m_row a) @ '','' @ show_int (m_col a) @ '')'' = show_int (m_row b) @ '','' @ show_int (m_col b) @ '')''"
      by (simp_all add: nd)
    from show_int_cancel [OF e] have row: "m_row a = m_row b" and
      e: "show_int (m_col a) @ '')'' = show_int (m_col b) @ '')''"
      by (simp_all add: nd)
    from show_int_cancel [OF e] have "m_col a = m_col b" by (simp add: nd)
    with pic obj row show ?thesis by simp
  next
    case False
    with assms have "show_int (m_picture_id a) @ '' found Object '' @ show_int (m_object_id a) @
          '' in Position('' @ show_int (m_row a) @ '','' @ show_int (m_col a) @ '')'' =
        show_int (m_picture_id b) @ '' No Objects were found''"
      by (simp add: match_line_def)
    from show_int_cancel [OF this] show ?thesis by (simp add: nd)
  qed
qed

lemma write_lines_all:
  "i \<le> length ms \<Longrightarrow> \<forall>k. write_error os path k = None \<Longrightarrow>
    write_lines os path ms (int i) (int (length ms)) out err =
      Some (MSEARCH_OK, out @ concat (map (\<lambda>mt. msearch_format_match mt 128 @ newline) (drop i ms)), err)"
  by (induction i arbitrary: out rule: inc_induct)
    (subst write_lines.simps, simp add: drop_nth_Cons add.commute)+

lemma write_lines_status:
  "i \<le> length ms \<Longrightarrow>
    \<exists>st out' err'. write_lines os path ms (int i) (int (length ms)) out err = Some (st, out', err') \<and>
      (st = MSEARCH_OK \<and> (\<forall>k. int i \<le> k \<longrightarrow> k < int (length ms) \<longrightarrow> write_error os path k = None) \<and>
         out' = out @ concat (map (\<lambda>mt. msearch_format_match mt 128 @ newline) (drop i ms)) \<and> err' = err \<or>
       st = MSEARCH_ERR_IO \<and> (\<exists>k. int i \<le> k \<and> k < int (length ms) \<and> write_error os path k \<noteq> None))"
proof (induction i arbitrary: out rule: inc_induct)
  case base
  then show ?case by (subst write_lines.simps) simp
next
  case (step i)
  show ?case
  proof (cases "write_error os path (int i)")
    case (Some msg)
    with step(2) show ?thesis
      by (subst write_lines.simps) (auto intro!: exI [of _ "int i"])
  next
    case None
    let ?out = "out @ msearch_format_match (ms ! i) 128 @ newline"
    from step(3) [of ?out] obtain st out' err' where
      w: "write_lines os path ms (int (Suc i)) (int (length ms)) ?out err = Some (st, out', err')" and
      c: "st = MSEARCH_OK \<and> (\<forall>k. int (Suc i) \<le> k \<longrightarrow> k < int (length ms) \<longrightarrow> write_error os path k = None) \<and>
         out' = ?out @ concat (map (\<lambda>mt. msearch_format_match mt 128 @ newline) (drop (Suc i) ms)) \<and> err' = err \<or>
       st = MSEARCH_ERR_IO \<and> (\<exists>k. int (Suc i) \<le> k \<and> k < int (length ms) \<and> write_error os path k \<noteq> None)"
      by blast
    have "write_lines os path ms (int i) (int (length ms)) out err = Some (st, out', err')"
      using None step(2) w by (subst write_lines.simps) (simp add: add.commute)
    moreover have "write_error os path k = None" if "int i \<le> k" "k < int (length ms)"
      "\<forall>k. int (Suc i) \<le> k \<longrightarrow> k < int (length ms) \<longrightarrow> write_error os path k = None" for k
      using that None by (cases "k = int i") auto
    moreover have "drop i ms = ms ! i # drop (Suc i) ms" using step(2) by (simp add: drop_nth_Cons)
    moreover have "int i \<le> k" if "int (Suc i) \<le> k" for k using that by simp
    ultimately show ?thesis using c by (elim disjE) (simp, blast)
  qed
qed

lemma write_results_bytes:
  assumes "list_all match_ok ms" "path \<noteq> ''-''"
  shows "\<exists>st out err'. msearch_write_results os path ms (int (length ms)) err = Some (st, out, err') \<and>
    (st = MSEARCH_OK \<longleftrightarrow> open_error os path = None \<and>
       (\<forall>k. 0 \<le> k \<longrightarrow> k < int (length ms) \<longrightarrow> write_error os path k = None) \<and> close_error os path = None) \<and>
    (st = MSEARCH_OK \<longrightarrow> out = concat (map (\<lambda>mt. match_line mt @ newline) ms) \<and> err' = err) \<and>
    (st \<noteq> MSEARCH_OK \<longrightarrow> st = MSEARCH_ERR_IO)"
proof (cases "open_error os path")
  case (Some msg)
  with assms(2) show ?thesis by (simp add: msearch_write_results_def)
next
  case None
  obtain st out err' where w: "write_lines os path ms 0 (int (length ms)) [] err = Some (st, out, err')" and
    c: "st = MSEARCH_OK \<and> (\<forall>k. 0 \<le> k \<longrightarrow> k < int (length ms) \<longrightarrow> write_error os path k = None) \<and>
         out = concat (map (\<lambda>mt. msearch_format_match mt 128 @ newline) ms) \<and> err' = err \<or>
       st = MSEARCH_ERR_IO \<and> (\<exists>k. 0 \<le> k \<and> k < int (length ms) \<and> write_error os path k \<noteq> None)"
    using write_lines_status [of 0 ms os path "[]" err] by simp blast
  have lines: "map (\<lambda>mt. msearch_format_match mt 128 @ newline) ms = map (\<lambda>mt. match_line mt @ newline) ms"
    using assms(1) by (simp add: list_all_iff format_match_line)
  define good where "good = (\<forall>k. 0 \<le> k \<longrightarrow> k < int (length ms) \<longrightarrow> write_error os path k = None)"
  have c': "st = MSEARCH_OK \<and> good \<and> out = concat (map (\<lambda>mt. match_line mt @ newline) ms) \<and> err' = err \<or>
      st = MSEARCH_ERR_IO \<and> \<not> good"
    using c
  proof (elim disjE conjE exE)
    assume "\<forall>k. 0 \<le> k \<longrightarrow> k < int (length ms) \<longrightarrow> write_error os path k = None"
    then have good unfolding good_def .
    moreover assume "st = MSEARCH_OK" "err' = err" "out = concat (map (\<lambda>mt. msearch_format_match mt 128 @ newline) ms)"
    ultimately show ?thesis unfolding lines by simp
  next
    fix k assume "0 \<le> k" "k < int (length ms)" "write_error os path k \<noteq> None"
    then have "\<not> good" unfolding good_def not_all by (intro exI [of _ k]) simp
    moreover assume "st = MSEARCH_ERR_IO"
    ultimately show ?thesis by simp
  qed
  have r: "msearch_write_results os path ms (int (length ms)) err =
      (if st = MSEARCH_OK \<and> close_error os path \<noteq> None
       then Some (MSEARCH_ERR_IO, take (taken os path) out, msearch_set_err err' (''closing '' @ [CHR 0x27] @ path @ [CHR 0x27] @
         '' failed: '' @ the (close_error os path)))
       else Some (st, if st = MSEARCH_OK then out else take (taken os path) out, err'))"
    using None w assms(2) by (simp add: msearch_write_results_def split: option.split)
  show ?thesis
    unfolding good_def [symmetric] r using None c' by (elim disjE conjE) simp_all
qed

section \<open>Properties\<close>

text \<open>C36: Writing the results succeeds exactly when the file opens, every line is written and the file
  closes; then the file holds one line per match, in the order given, none truncated by the line
  buffer. On any failure the status is an I/O error.\<close>

theorem write_results_complete:
  assumes "list_all match_ok ms" "path \<noteq> ''-''"
  shows "\<exists>st out err'. msearch_write_results os path ms (int (length ms)) err = Some (st, out, err') \<and>
    (st = MSEARCH_OK \<longleftrightarrow> open_error os path = None \<and>
       (\<forall>k. 0 \<le> k \<longrightarrow> k < int (length ms) \<longrightarrow> write_error os path k = None) \<and> close_error os path = None) \<and>
    (st = MSEARCH_OK \<longrightarrow> out = concat (map (\<lambda>mt. match_line mt @ newline) ms) \<and> err' = err) \<and>
    (st \<noteq> MSEARCH_OK \<longrightarrow> st = MSEARCH_ERR_IO)"
  by (rule write_results_bytes [OF assms])

definition quiet_files :: out_files where
  "quiet_files = \<lparr>open_error = (\<lambda>_. None), write_error = (\<lambda>_ _. None), close_error = (\<lambda>_. None), taken = (\<lambda>_. 0)\<rparr>"

theorem write_results_complete_witness:
  "\<exists>err'. msearch_write_results quiet_files ''out.txt''
      [\<lparr>m_picture_id = 1, m_object_id = 9, m_row = 0, m_col = 1\<rparr>, msearch_match_none 2] 2 None =
    Some (MSEARCH_OK, ''Picture 1 found Object 9 in Position(0,1)'' @ newline @
      ''Picture 2 No Objects were found'' @ newline, err')"
proof -
  let ?ms = "[\<lparr>m_picture_id = 1, m_object_id = 9, m_row = 0, m_col = 1\<rparr>, msearch_match_none 2]"
  have "list_all match_ok ?ms" by code_simp
  from write_results_complete [OF this, of "''out.txt''" quiet_files None]
  obtain out err' where "msearch_write_results quiet_files ''out.txt'' ?ms 2 None = Some (MSEARCH_OK, out, err')"
    "out = concat (map (\<lambda>mt. match_line mt @ newline) ?ms)"
    by (auto simp: quiet_files_def)
  moreover have "concat (map (\<lambda>mt. match_line mt @ newline) ?ms) =
      ''Picture 1 found Object 9 in Position(0,1)'' @ newline @ ''Picture 2 No Objects were found'' @ newline"
    by code_simp
  ultimately show ?thesis by auto
qed

text \<open>A result that prints what it says: a found object whose id is not negative, or none. Its line
  determines it, and so does the line's text in a file, for no line contains a newline.\<close>

definition printable :: "Match \<Rightarrow> bool" where
  "printable mt \<longleftrightarrow> match_ok mt \<and> (msearch_match_found mt \<or> mt = msearch_match_none (m_picture_id mt))"

lemma match_line_none:
  assumes "\<not> msearch_match_found a" "\<not> msearch_match_found b" "match_line a = match_line b"
  shows "m_picture_id a = m_picture_id b"
proof -
  have "show_int (m_picture_id a) @ '' No Objects were found'' = show_int (m_picture_id b) @ '' No Objects were found''"
    using assms by (simp add: match_line_def)
  from show_int_cancel [OF this] show ?thesis by (simp add: no_digit_next_def isdigit_def)
qed

lemma printable_line:
  assumes "printable a" "printable b" "match_line a = match_line b"
  shows "a = b"
proof (cases "msearch_match_found a \<or> msearch_match_found b")
  case True
  with match_line_inj [of a b] match_line_inj [of b a] assms(3) show ?thesis by auto
next
  case False
  with assms match_line_none [of a b] show ?thesis by (simp add: printable_def)
qed

lemma match_line_no_newline: "CHR 0x0A \<notin> set (match_line mt)"
proof -
  have "CHR 0x0A \<notin> set (show_int v)" for v
  proof -
    obtain c u where d: "show_digits \<bar>v\<bar> = c # u" "show_int v = (if v < 0 then CHR ''-'' # c # u else c # u)"
      by (rule show_int_head)
    have "\<not> isdigit (CHR 0x0A)" by (simp add: isdigit_def)
    then have "CHR 0x0A \<notin> set (c # u)" using show_digits_all [of "\<bar>v\<bar>"] unfolding d(1) list_all_iff by auto
    then show ?thesis using d(2) by auto
  qed
  then show ?thesis by (simp add: match_line_def)
qed

lemma cut_at_newline:
  assumes "CHR 0x0A \<notin> set l" "CHR 0x0A \<notin> set l'" "l @ newline @ r = l' @ newline @ r'"
  shows "l = l' \<and> r = r'"
proof -
  have "takeWhile (\<lambda>c. c \<noteq> CHR 0x0A) (l @ newline @ r) = l" "takeWhile (\<lambda>c. c \<noteq> CHR 0x0A) (l' @ newline @ r') = l'"
    using assms(1,2) by (auto simp: newline_def takeWhile_append)
  with assms(3) have "l = l'" by simp
  with assms(3) show ?thesis by simp
qed

text \<open>C37: The results file determines the results: when every result in two arrays is a found object with an
  id that is not negative, or none (a match of a negative id prints as none, C38), and writing each of
  them to a file succeeds with the same bytes, the arrays are equal.\<close>

theorem file_determines_results:
  assumes "list_all printable ms" "list_all printable ms'" "path \<noteq> ''-''"
    and "msearch_write_results os path ms (int (length ms)) err = Some (MSEARCH_OK, out, err1)"
    and "msearch_write_results os path ms' (int (length ms')) err = Some (MSEARCH_OK, out, err2)"
  shows "ms = ms'"
proof -
  have bytes: "out = concat (map (\<lambda>mt. match_line mt @ newline) ms)"
    if "list_all printable ms" "msearch_write_results os path ms (int (length ms)) err = Some (MSEARCH_OK, out, e)" for ms e
    using write_results_bytes [of ms path os err] that assms(3) by (auto simp: list_all_iff printable_def)
  have "concat (map (\<lambda>mt. match_line mt @ newline) ms) = concat (map (\<lambda>mt. match_line mt @ newline) ms') \<Longrightarrow> ms = ms'"
    using assms(1,2)
  proof (induction ms arbitrary: ms')
    case Nil
    then show ?case by (cases ms') (simp_all add: newline_def)
  next
    case (Cons a ms)
    then obtain b ms'' where ms': "ms' = b # ms''" by (cases ms') (simp_all add: newline_def)
    have "match_line a @ newline @ concat (map (\<lambda>mt. match_line mt @ newline) ms) =
        match_line b @ newline @ concat (map (\<lambda>mt. match_line mt @ newline) ms'')" using Cons.prems(1) ms' by simp
    from cut_at_newline [OF match_line_no_newline match_line_no_newline this] printable_line [of a b] Cons ms' show ?case by simp
  qed
  then show ?thesis using bytes [OF assms(1,4)] bytes [OF assms(2,5)] by simp
qed

theorem file_determines_results_witness:
  "\<exists>out out' err err'. msearch_write_results quiet_files ''out'' [\<lparr>m_picture_id = 1, m_object_id = 12, m_row = 0, m_col = 1\<rparr>] 1 None = Some (MSEARCH_OK, out, err) \<and>
   msearch_write_results quiet_files ''out'' [\<lparr>m_picture_id = 11, m_object_id = 2, m_row = 0, m_col = 1\<rparr>] 1 None = Some (MSEARCH_OK, out', err') \<and>
   out \<noteq> out'"
proof -
  let ?a = "\<lparr>m_picture_id = 1, m_object_id = 12, m_row = 0, m_col = 1\<rparr>" and ?b = "\<lparr>m_picture_id = 11, m_object_id = 2, m_row = 0, m_col = 1\<rparr>"
  have p: "list_all printable [?a]" "list_all printable [?b]" by code_simp+
  obtain out err where a: "msearch_write_results quiet_files ''out'' [?a] 1 None = Some (MSEARCH_OK, out, err)"
    using write_results_bytes [of "[?a]" "''out''" quiet_files None] p(1) by (auto simp: quiet_files_def printable_def)
  obtain out' err' where b: "msearch_write_results quiet_files ''out'' [?b] 1 None = Some (MSEARCH_OK, out', err')"
    using write_results_bytes [of "[?b]" "''out''" quiet_files None] p(2) by (auto simp: quiet_files_def printable_def)
  have "out \<noteq> out'" using file_determines_results [OF p, of "''out''" quiet_files None out err err'] a b by auto
  with a b show ?thesis by blast
qed

text \<open>C38: Object ids are not restricted to non-negative numbers, but the output reads a negative id as
  "no match": when an object of negative id occurs in a picture, the line printed for the canonical
  match says that no object was found.\<close>

theorem negative_id_reported_as_none:
  assumes "problem_ok p" "pic \<in> set (pictures p)" "obj \<in> set (objects p)" "o_id obj < 0"
    and "occurs (threshold p) eps pic obj row col"
  shows "msearch_format_match (canonical_match p eps pic) 128 =
    ''Picture '' @ show_int (p_id pic) @ '' No Objects were found''"
proof -
  let ?mt = "canonical_match p eps pic"
  have "contract p eps pic ?mt"
    by (rule canonical_match_contract) (use problem_okD [OF assms(1)] in auto)
  moreover have "\<exists>obj \<in> set (objects p). \<exists>row col. occurs (threshold p) eps pic obj row col"
    using assms(3,5) by blast
  ultimately have pid: "m_picture_id ?mt = p_id pic" and
    ex: "\<exists>x \<in> set (objects p). m_object_id ?mt = o_id x \<and>
      (\<forall>obj' \<in> set (objects p). (\<exists>row col. occurs (threshold p) eps pic obj' row col) \<longrightarrow> o_id x \<le> o_id obj')"
    by (simp_all add: contract_def Let_def) blast
  from ex assms(3,5) obtain obj' :: Object where o: "m_object_id ?mt = o_id obj'" "o_id obj' \<le> o_id obj" by blast
  have "int32 (p_id pic)" using problem_ok_picture [OF assms(1,2)] by (simp add: picture_ok_def)
  then have "length (''Picture '' @ show_int (p_id pic) @ '' No Objects were found'') \<le> 127"
    using show_int_short by force
  with o pid assms(4) show ?thesis
    by (simp add: msearch_format_match_def msearch_match_found_def snprintf_def del: length_append take_append)
qed

definition negative_id_problem :: Problem where
  "negative_id_problem = \<lparr>threshold = dof_int 1, num_pictures = 1,
     pictures = [\<lparr>p_id = 1, p_n = 1, p_data = Some [7]\<rparr>],
     num_objects = 1, objects = [\<lparr>o_id = - 4, o_m = 1, o_data = Some [7]\<rparr>]\<rparr>"

theorem negative_id_reported_as_none_witness:
  "problem_ok negative_id_problem \<and>
   msearch_format_match (canonical_match negative_id_problem MSEARCH_DEFAULT_ZERO_EPS
     \<lparr>p_id = 1, p_n = 1, p_data = Some [7]\<rparr>) 128 = ''Picture 1 No Objects were found''"
proof
  show ok: "problem_ok negative_id_problem" by code_simp
  have "occurs (threshold negative_id_problem) MSEARCH_DEFAULT_ZERO_EPS \<lparr>p_id = 1, p_n = 1, p_data = Some [7]\<rparr>
      \<lparr>o_id = - 4, o_m = 1, o_data = Some [7]\<rparr> 0 0"
    by code_simp
  moreover have one: "show_int 1 = ''1''" by code_simp
  ultimately show "msearch_format_match (canonical_match negative_id_problem MSEARCH_DEFAULT_ZERO_EPS
     \<lparr>p_id = 1, p_n = 1, p_data = Some [7]\<rparr>) 128 = ''Picture 1 No Objects were found''"
    using negative_id_reported_as_none [OF ok, of "\<lparr>p_id = 1, p_n = 1, p_data = Some [7]\<rparr>"
        "\<lparr>o_id = - 4, o_m = 1, o_data = Some [7]\<rparr>" MSEARCH_DEFAULT_ZERO_EPS 0 0]
    by (simp add: negative_id_problem_def)
qed

end
