(* ===== verification/Runner_Local.thy ===== *)
theory Runner_Local
  imports Registry
begin

text \<open>
  The single-process runtime, \<open>src/runtime/runner_local.c\<close>: create the backend's context, search every
  picture in order into \<open>matches\<close>, destroy the context. The lemmas are proved in the backend
  interface's locale and hold of every backend through its interpretation.
\<close>

section \<open>The code\<close>

function local_loop ::
  "MatchBackend \<Rightarrow> backend_ctx \<Rightarrow> (cint \<Rightarrow> world) \<Rightarrow> Problem \<Rightarrow> cint \<Rightarrow> Match list \<Rightarrow> errbuf \<Rightarrow>
    (Status \<times> Match list \<times> errbuf \<times> log_event list) option" where
  "local_loop bk ctx ws p i ms err =
     (if i < num_pictures p then do {
        pic \<leftarrow> load (pictures p) i;
        (st, mt, err1) \<leftarrow> b_search bk ctx (ws i) pic err;
        ms1 \<leftarrow> store ms i mt;
        if st \<noteq> MSEARCH_OK then Some (st, ms1, err1, [])
        else do {
          (st', ms2, err2, lg) \<leftarrow> local_loop bk ctx ws p (i + 1) ms1 err1;
          Some (st', ms2, err2,
            (LOG_DEBUG, ''picture '' @ show_int (p_id pic) @ '' done ('' @ show_int (i + 1) @ ''/'' @
               show_int (num_pictures p) @ '')'') # lg)
        }
      } else Some (MSEARCH_OK, ms, err, []))"
  by pat_completeness auto
termination
  by (relation "measure (\<lambda>(bk, ctx, ws, p, i, ms, err). nat (num_pictures p - i))") auto

declare local_loop.simps [simp del]

definition msearch_run_local ::
  "MatchBackend \<Rightarrow> platform \<Rightarrow> env \<Rightarrow> (cint \<Rightarrow> world) \<Rightarrow> Problem \<Rightarrow> Config \<Rightarrow> Match list \<Rightarrow> errbuf \<Rightarrow> heap \<Rightarrow>
    (Status \<times> Match list \<times> errbuf \<times> log_event list \<times> heap) option" where
  "msearch_run_local bk pf env ws p cfg ms err h =
     (case b_create bk pf env p cfg err h of
        (st, ctx, err1, lg1, h1) \<Rightarrow>
          if st \<noteq> MSEARCH_OK then Some (st, ms, err1, lg1, h1)
          else do {
            c \<leftarrow> ctx;
            (st', ms', err2, lg2) \<leftarrow> local_loop bk c ws p 0 ms err1;
            Some (st', ms', err2, lg1 @ lg2, b_destroy bk ctx h1)
          })"

section \<open>Correctness\<close>

text \<open>The results a run promises: the canonical match of every picture, in input order.\<close>

definition canonical_matches :: "Problem \<Rightarrow> Config \<Rightarrow> Match list" where
  "canonical_matches p cfg = map (canonical_match p (c_zero_eps cfg)) (pictures p)"

context match_backend
begin

lemma local_loop_spec:
  assumes c: "b_create bk pf env p cfg err h = (MSEARCH_OK, Some ctx, err', lg, h')"
    and p: "problem_ok p" "eps_ok (c_zero_eps cfg)"
  shows "i \<le> length (pictures p) \<Longrightarrow> length (pictures p) \<le> length ms \<Longrightarrow>
    \<exists>st ms' e l. local_loop bk ctx ws p (int i) ms err0 = Some (st, ms', e, l) \<and> length ms' = length ms \<and>
      (st = MSEARCH_OK \<longrightarrow> ms' = take i ms @ drop i (canonical_matches p cfg) @ drop (length (pictures p)) ms)"
proof (induction i arbitrary: ms err0 rule: inc_induct)
  case base
  then show ?case using problem_okD(1) [OF p(1)]
    by (subst local_loop.simps) (simp add: canonical_matches_def)
next
  case (step i)
  define pic where "pic = pictures p ! i"
  have mem: "pic \<in> set (pictures p)" using step(2) by (simp add: pic_def)
  obtain st mt e where s: "b_search bk ctx (ws (int i)) pic err0 = Some (st, mt, e)"
    "st = MSEARCH_OK \<longrightarrow> mt = canonical_match p (c_zero_eps cfg) pic"
    using search_canonical [OF c p mem] by blast
  have bounds: "int i < num_pictures p" "i < length ms" "i < length (pictures p)"
    using step problem_okD(1) [OF p(1)] by auto
  have ld: "load (pictures p) (int i) = Some pic" using bounds by (simp add: pic_def)
  show ?case
  proof (cases "st = MSEARCH_OK")
    case False
    with s ld bounds show ?thesis by (subst local_loop.simps) simp
  next
    case True
    obtain st' ms' e' l where IH: "local_loop bk ctx ws p (int (Suc i)) (ms[i := mt]) e = Some (st', ms', e', l)"
      "length ms' = length ms"
      "st' = MSEARCH_OK \<longrightarrow> ms' = take (Suc i) (ms[i := mt]) @ drop (Suc i) (canonical_matches p cfg) @ drop (length (pictures p)) (ms[i := mt])"
      using step(3) [of "ms[i := mt]" e] step.prems by auto
    have "take (Suc i) (ms[i := mt]) = take i ms @ [mt]" using bounds by (simp add: take_Suc_conv_app_nth)
    moreover have "drop i (canonical_matches p cfg) = mt # drop (Suc i) (canonical_matches p cfg)"
      using bounds s True by (simp add: canonical_matches_def pic_def drop_nth_Cons)
    ultimately show ?thesis
      using IH s True ld bounds by (subst local_loop.simps) (simp add: add.commute)
  qed
qed

lemma run_local_spec:
  assumes p: "problem_ok p" "eps_ok (c_zero_eps cfg)" and ms: "length (pictures p) \<le> length ms"
  shows "\<exists>st ms' err' lg h'. msearch_run_local bk pf env ws p cfg ms err h = Some (st, ms', err', lg, h') \<and>
    (st = MSEARCH_OK \<longrightarrow> ms' = canonical_matches p cfg @ drop (length (pictures p)) ms) \<and> length ms' = length ms \<and> live h' = live h"
proof -
  obtain st ctx err1 lg1 h1 where c: "b_create bk pf env p cfg err h = (st, ctx, err1, lg1, h1)"
    by (cases "b_create bk pf env p cfg err h") auto
  show ?thesis
  proof (cases "st = MSEARCH_OK")
    case False
    with create_status [OF c] have "ctx = None" by simp
    with c create_failed have "live h1 = live h" by blast
    with c False show ?thesis by (simp add: msearch_run_local_def)
  next
    case True
    with create_status [OF c] obtain cx where cx: "ctx = Some cx" by blast
    note cr = c [unfolded True cx]
    obtain st' ms' e l where "local_loop bk cx ws p 0 ms err1 = Some (st', ms', e, l)" "length ms' = length ms"
      "st' = MSEARCH_OK \<longrightarrow> ms' = canonical_matches p cfg @ drop (length (pictures p)) ms"
      using local_loop_spec [OF cr p, of 0 ms ws err1] ms by auto
    moreover have "live (b_destroy bk (Some cx) h1) = live h"
      using destroy_balanced [OF cr, of h1] by simp
    ultimately show ?thesis using c True cx by (simp add: msearch_run_local_def)
  qed
qed

end

context reliable_backend
begin

lemma local_loop_succeeds:
  assumes c: "b_create bk pf env p cfg err h = (MSEARCH_OK, Some ctx, err', lg, h')"
    and l: "local_loop bk ctx ws p i ms err0 = Some (st, ms', e, l)"
  shows "st = MSEARCH_OK"
  using l
proof (induction "nat (num_pictures p - i)" arbitrary: i ms err0 ms' e l)
  case 0
  then show ?case by (subst (asm) local_loop.simps) simp
next
  case (Suc k)
  from Suc.hyps(2) have "i < num_pictures p" by simp
  with Suc.prems obtain pic st1 mt e1 ms1 where
    s: "b_search bk ctx (ws i) pic err0 = Some (st1, mt, e1)"
    and rest: "(if st1 \<noteq> MSEARCH_OK then Some (st1, ms1, e1, [])
        else do {
          (st', ms2, err2, lg) \<leftarrow> local_loop bk ctx ws p (i + 1) ms1 e1;
          Some (st', ms2, err2,
            (LOG_DEBUG, ''picture '' @ show_int (p_id pic) @ '' done ('' @ show_int (i + 1) @ ''/'' @
               show_int (num_pictures p) @ '')'') # lg)
        }) = Some (st, ms', e, l)"
    by (subst (asm) local_loop.simps) (auto split: bind_splits)
  have "st1 = MSEARCH_OK" by (rule search_succeeds [OF c s])
  with rest obtain ms2 e2 l2 where "local_loop bk ctx ws p (i + 1) ms1 e1 = Some (st, ms2, e2, l2)"
    by (auto split: bind_splits)
  with Suc.hyps show ?case by force
qed

lemma run_local_succeeds:
  assumes "msearch_run_local bk pf env ws p cfg ms err h = Some (st, ms', err', lg, h')"
    and "fst (b_create bk pf env p cfg err h) = MSEARCH_OK"
  shows "st = MSEARCH_OK"
proof -
  obtain ctx err1 lg1 h1 where c: "b_create bk pf env p cfg err h = (MSEARCH_OK, ctx, err1, lg1, h1)"
    using assms(2) by (cases "b_create bk pf env p cfg err h") auto
  with create_status [OF c] obtain cx where "ctx = Some cx" by auto
  with c assms(1) local_loop_succeeds show ?thesis
    by (auto simp: msearch_run_local_def split: bind_splits)
qed

end

section \<open>The CPU backends\<close>

definition cpu_backends :: "MatchBackend set" where
  "cpu_backends = {msearch_backend_serial, msearch_backend_openmp}"

lemma cpu_create:
  assumes "bk \<in> cpu_backends"
  shows "\<exists>ctx err' lg. b_create bk pf env p cfg err h =
    (if grants env (requests h)
     then (MSEARCH_OK, Some ctx, err', lg, h\<lparr>requests := requests h + 1, live := live h + 1\<rparr>)
     else (MSEARCH_ERR_NOMEM, None, err', lg, h\<lparr>requests := requests h + 1\<rparr>))"
  using assms by (cases "grants env (requests h)") (auto simp: cpu_backends_def msearch_backend_serial_def
      msearch_backend_openmp_def serial_create_def openmp_create_def mem_alloc_def Let_def)

lemma cpu_run_local:
  assumes "problem_ok p" "eps_ok (c_zero_eps cfg)" "length (pictures p) \<le> length ms" and "bk \<in> cpu_backends"
  shows "\<exists>st ms' err' lg h'. msearch_run_local bk pf env ws p cfg ms err h = Some (st, ms', err', lg, h') \<and>
    length ms' = length ms \<and> live h' = live h \<and>
    (if grants env (requests h) then st = MSEARCH_OK \<and> ms' = canonical_matches p cfg @ drop (length (pictures p)) ms
     else st = MSEARCH_ERR_NOMEM \<and> ms' = ms)"
proof -
  have "\<exists>st ms' err' lg h'. msearch_run_local bk pf env ws p cfg ms err h = Some (st, ms', err', lg, h') \<and>
    (st = MSEARCH_OK \<longrightarrow> ms' = canonical_matches p cfg @ drop (length (pictures p)) ms) \<and> length ms' = length ms \<and> live h' = live h"
    using assms(4) serial.run_local_spec [OF assms(1-3)] openmp.run_local_spec [OF assms(1-3)]
    unfolding cpu_backends_def by blast
  then obtain st ms' err' lg h' where r: "msearch_run_local bk pf env ws p cfg ms err h = Some (st, ms', err', lg, h')"
    "st = MSEARCH_OK \<longrightarrow> ms' = canonical_matches p cfg @ drop (length (pictures p)) ms" "length ms' = length ms" "live h' = live h" by blast
  obtain ctx e l where c: "b_create bk pf env p cfg err h =
    (if grants env (requests h)
     then (MSEARCH_OK, Some ctx, e, l, h\<lparr>requests := requests h + 1, live := live h + 1\<rparr>)
     else (MSEARCH_ERR_NOMEM, None, e, l, h\<lparr>requests := requests h + 1\<rparr>))"
    using cpu_create [OF assms(4)] by metis
  show ?thesis
  proof (cases "grants env (requests h)")
    case True
    with c have "fst (b_create bk pf env p cfg err h) = MSEARCH_OK" by simp
    with assms(4) r(1) serial.run_local_succeeds [of pf env ws p cfg ms err h]
      openmp.run_local_succeeds [of pf env ws p cfg ms err h] have "st = MSEARCH_OK"
      unfolding cpu_backends_def by blast
    with r True show ?thesis by auto
  next
    case False
    with c r(1) have "st = MSEARCH_ERR_NOMEM" "ms' = ms" by (auto simp: msearch_run_local_def)
    with r False show ?thesis by auto
  qed
qed

section \<open>Properties\<close>

text \<open>C35: A local run with either CPU backend, whatever the team size and thread schedule of each search,
  ends without undefined behaviour, writes nothing outside the result array, gives back its context,
  and unless the context itself could not be allocated fills the array with the canonical match of
  every picture, in input order.\<close>

theorem run_local_canonical:
  assumes "problem_ok p" "eps_ok (c_zero_eps cfg)" "length ms = length (pictures p)"
    and "bk \<in> {msearch_backend_serial, msearch_backend_openmp}"
  shows "\<exists>st ms' err' lg h'. msearch_run_local bk pf env ws p cfg ms err h = Some (st, ms', err', lg, h') \<and>
    length ms' = length ms \<and> live h' = live h \<and>
    (if grants env (requests h) then st = MSEARCH_OK \<and> ms' = canonical_matches p cfg
     else st = MSEARCH_ERR_NOMEM \<and> ms' = ms)"
proof -
  have "length (pictures p) \<le> length ms" and d: "drop (length (pictures p)) ms = []" using assms(3) by simp_all
  from cpu_run_local [OF assms(1,2) this(1) assms(4) [folded cpu_backends_def], of pf env ws err h]
  show ?thesis unfolding d append_Nil2 .
qed

theorem run_local_canonical_witness:
  "\<exists>err' lg h'. msearch_run_local msearch_backend_openmp \<lparr>omp_num_threads_set = False, omp_max_threads = 8\<rparr> granting
      (\<lambda>i. \<lparr>w_team = (\<lambda>_. 3), w_sched = (\<lambda>_ t. t * t), w_stale = (\<lambda>_ _. 0), w_cuda = (\<lambda>_ _. None)\<rparr>) tiny_problem msearch_config_defaults [msearch_match_none 0]
      None \<lparr>requests = 0, live = 0\<rparr> =
    Some (MSEARCH_OK, canonical_matches tiny_problem msearch_config_defaults, err', lg, h') \<and> live h' = 0"
proof -
  let ?pf = "\<lparr>omp_num_threads_set = False, omp_max_threads = 8\<rparr>"
    and ?ws = "\<lambda>i::cint. \<lparr>w_team = (\<lambda>_::cint. 3::nat), w_sched = (\<lambda>(_::cint) t. t * t), w_stale = (\<lambda>_ _. 0), w_cuda = (\<lambda>_ _. None)\<rparr>"
    and ?h = "\<lparr>requests = 0, live = 0\<rparr>"
  have e: "eps_ok (c_zero_eps msearch_config_defaults)" by (simp add: msearch_config_defaults_def)
  have l: "length [msearch_match_none 0] = length (pictures tiny_problem)" by (simp add: tiny_problem_def)
  have g: "grants granting (requests ?h)" by (simp add: granting_def)
  from run_local_canonical [OF tiny_problem_ok e l, of msearch_backend_openmp ?pf granting ?ws None ?h] g
  show ?thesis by auto
qed

end
