(* ===== verification/MPI_Library.thy ===== *)
theory MPI_Library
  imports Prelude Ieee_Double
begin

text \<open>
  The MPI library as the program uses it: a parameter of the model. \<open>mpi_conforms\<close> states what the
  MPI standard documents of the calls the program relies on, for a communicator whose ranks are the
  positions of a list; \<open>plain_mpi\<close> is an instance that conforms, for the witnesses.
\<close>

datatype payload = PInts "cint list" | PDbl dbl

record mpi =
  fetch_and_add :: "cint \<Rightarrow> cint \<Rightarrow> cint \<times> cint"
  mpi_gather :: "cint list \<Rightarrow> cint list"
  mpi_gatherv :: "cint list list \<Rightarrow> cint list \<Rightarrow> cint list \<Rightarrow> cint list \<Rightarrow> cint list"
  allreduce_max :: "cint list \<Rightarrow> cint"

text \<open>Where \<open>MPI_Gatherv\<close> puts the blocks: the displacement of a block is the total length before it.\<close>

fun prefix_sums :: "cint \<Rightarrow> cint list \<Rightarrow> cint list" where
  "prefix_sums t [] = []"
| "prefix_sums t (c # cs) = t # prefix_sums (t + c) cs"

text \<open>
  \<open>MPI_Fetch_and_op\<close> with \<open>MPI_SUM\<close> returns the old value of the target and adds the operand;
  \<open>MPI_Gather\<close> delivers the contributions in rank order; \<open>MPI_Gatherv\<close> with the true counts, packed
  displacements and room for all of them concatenates the blocks; \<open>MPI_Allreduce\<close> with \<open>MPI_MAX\<close>
  delivers the maximum.
\<close>

definition mpi_conforms :: "mpi \<Rightarrow> bool" where
  "mpi_conforms M \<longleftrightarrow>
     (\<forall>c d. fetch_and_add M c d = (c, c + d)) \<and>
     (\<forall>xs. mpi_gather M xs = xs) \<and>
     (\<forall>blocks buf. length (concat blocks) \<le> length buf \<longrightarrow>
        mpi_gatherv M blocks (map (\<lambda>b. int (length b)) blocks) (prefix_sums 0 (map (\<lambda>b. int (length b)) blocks)) buf =
          concat blocks @ drop (length (concat blocks)) buf) \<and>
     (\<forall>xs. xs \<noteq> [] \<longrightarrow> allreduce_max M xs = Max (set xs))"

definition plain_mpi :: mpi where
  "plain_mpi =
     \<lparr>fetch_and_add = (\<lambda>c d. (c, c + d)), mpi_gather = (\<lambda>xs. xs),
      mpi_gatherv = (\<lambda>blocks counts displs buf. concat blocks @ drop (length (concat blocks)) buf),
      allreduce_max = (\<lambda>xs. Max (set xs))\<rparr>"

lemma plain_mpi_conforms: "mpi_conforms plain_mpi"
  by (simp add: mpi_conforms_def plain_mpi_def)

lemma conforms_fetch: "mpi_conforms M \<Longrightarrow> fetch_and_add M c d = (c, c + d)"
  by (simp add: mpi_conforms_def)

lemma conforms_gather: "mpi_conforms M \<Longrightarrow> mpi_gather M xs = xs"
  by (simp add: mpi_conforms_def)

lemma conforms_gatherv: "mpi_conforms M \<Longrightarrow> length (concat blocks) \<le> length buf \<Longrightarrow>
    mpi_gatherv M blocks (map (\<lambda>b. int (length b)) blocks) (prefix_sums 0 (map (\<lambda>b. int (length b)) blocks)) buf =
      concat blocks @ drop (length (concat blocks)) buf"
  by (simp add: mpi_conforms_def)

lemma conforms_allreduce: "mpi_conforms M \<Longrightarrow> xs \<noteq> [] \<Longrightarrow> allreduce_max M xs = Max (set xs)"
  by (simp add: mpi_conforms_def)

end
