(* ===== verification/Runner_MPI.thy ===== *)
theory Runner_MPI
  imports Runner_Local Parser MPI_Library "HOL-Library.Multiset"
begin

text \<open>
  The distributed runtime, \<open>msearch_run_mpi\<close> of \<open>src/runtime/runner_mpi.c\<close>. Every rank runs the same
  code on its own copy of the problem. Between its start (context, record buffer) and its finish
  (gathering, agreement on the status) a rank claims picture indices from the shared counter; that
  phase is a step relation in which any rank may move next, one atomic action at a time. The theorems
  hold for every interleaving: each index is claimed at most once, the claiming ends, and the
  gathered result is the local run's.
\<close>

section \<open>The state of a rank\<close>

definition RECORD_INTS :: int where
  "RECORD_INTS = 4"

record rank_in =
  ri_pf :: platform
  ri_env :: env
  ri_ws :: "cint \<Rightarrow> world"
  ri_problem :: Problem
  ri_cfg :: Config
  ri_err :: errbuf
  ri_heap :: heap

datatype claim_phase = Claiming | Searching cint | Finished

record mpi_rank =
  rk_status :: Status
  rk_ctx :: "backend_ctx option"
  rk_err :: errbuf
  rk_log :: "log_event list"
  rk_heap :: heap
  rk_records :: "cint list option"
  rk_count :: cint
  rk_phase :: claim_phase

record mpi_state =
  counter :: cint
  ranks :: "mpi_rank list"

section \<open>Start\<close>

text \<open>Up to the barrier: the context and the record buffer. A rank that failed claims nothing.\<close>

definition rank_start :: "MatchBackend \<Rightarrow> rank_in \<Rightarrow> mpi_rank" where
  "rank_start bk ri =
     (let (st, ctx, err, lg, h) = b_create bk (ri_pf ri) (ri_env ri) (ri_problem ri) (ri_cfg ri) (ri_err ri) (ri_heap ri);
          np = num_pictures (ri_problem ri);
          rk = \<lparr>rk_status = st, rk_ctx = ctx, rk_err = err, rk_log = lg, rk_heap = h, rk_records = None,
                rk_count = 0, rk_phase = Finished\<rparr>
      in if st \<noteq> MSEARCH_OK then rk
         else if np > 0 then
           let (ok, h') = mem_alloc (ri_env ri) h in
           if ok then rk\<lparr>rk_heap := h', rk_phase := Claiming,
                         rk_records := Some (map (junk (ri_env ri)) [0..<nat (size_t (size_t np * RECORD_INTS))])\<rparr>
           else rk\<lparr>rk_heap := h', rk_status := MSEARCH_ERR_NOMEM,
                   rk_err := msearch_set_err err ''cannot allocate result records''\<rparr>
         else rk\<lparr>rk_phase := Claiming\<rparr>)"

definition mpi_start :: "MatchBackend \<Rightarrow> rank_in list \<Rightarrow> mpi_state" where
  "mpi_start bk ris = \<lparr>counter = 0, ranks = map (rank_start bk) ris\<rparr>"

section \<open>Claiming\<close>

text \<open>The record of a match, written at the end of the buffer.\<close>

definition put_record :: "cint list \<Rightarrow> cint \<Rightarrow> cint \<Rightarrow> Match \<Rightarrow> cint list option" where
  "put_record recs cnt index mt = do {
     let base = size_t (size_t cnt * RECORD_INTS);
     r0 \<leftarrow> store recs base index;
     r1 \<leftarrow> store r0 (base + 1) (m_object_id mt);
     r2 \<leftarrow> store r1 (base + 2) (m_row mt);
     store r2 (base + 3) (m_col mt)
   }"

text \<open>One action of \<open>process_claimed_pictures\<close>: the fetch-and-add, or the search and its record.\<close>

definition rank_step :: "mpi \<Rightarrow> MatchBackend \<Rightarrow> rank_in \<Rightarrow> cint \<Rightarrow> mpi_rank \<Rightarrow> (cint \<times> mpi_rank) option" where
  "rank_step M bk ri cnt rk =
     (case rk_phase rk of
        Claiming \<Rightarrow>
          let (index, cnt') = fetch_and_add M cnt 1 in
          Some (cnt', rk\<lparr>rk_phase := if index \<ge> num_pictures (ri_problem ri) then Finished else Searching index\<rparr>)
      | Searching index \<Rightarrow> do {
          pic \<leftarrow> load (pictures (ri_problem ri)) index;
          ctx \<leftarrow> rk_ctx rk;
          (st, mt, err) \<leftarrow> b_search bk ctx (ri_ws ri index) pic (rk_err rk);
          if st \<noteq> MSEARCH_OK then Some (cnt, rk\<lparr>rk_status := st, rk_err := err, rk_phase := Finished\<rparr>)
          else do {
            recs \<leftarrow> rk_records rk;
            recs' \<leftarrow> put_record recs (rk_count rk) index mt;
            Some (cnt, rk\<lparr>rk_err := err, rk_records := Some recs', rk_count := rk_count rk + 1, rk_phase := Claiming,
              rk_log := rk_log rk @ [(LOG_DEBUG, ''claimed picture index '' @ show_int index @ '' (id '' @
                show_int (p_id pic) @ '')'')]\<rparr>)
          }
        }
      | Finished \<Rightarrow> None)"

inductive mpi_step :: "mpi \<Rightarrow> MatchBackend \<Rightarrow> rank_in list \<Rightarrow> mpi_state \<Rightarrow> mpi_state \<Rightarrow> bool"
  for M bk ris where
  rank_moves: "r < length (ranks s) \<Longrightarrow> r < length ris \<Longrightarrow>
    rank_step M bk (ris ! r) (counter s) (ranks s ! r) = Some (cnt, rk) \<Longrightarrow>
    mpi_step M bk ris s \<lparr>counter = cnt, ranks = (ranks s)[r := rk]\<rparr>"

inductive mpi_reach :: "mpi \<Rightarrow> MatchBackend \<Rightarrow> rank_in list \<Rightarrow> mpi_state \<Rightarrow> bool"
  for M bk ris where
  at_start: "mpi_reach M bk ris (mpi_start bk ris)"
| after_step: "mpi_reach M bk ris s \<Longrightarrow> mpi_step M bk ris s s' \<Longrightarrow> mpi_reach M bk ris s'"

inductive_cases mpi_stepE: "mpi_step M bk ris s s'"

definition all_finished :: "mpi_state \<Rightarrow> bool" where
  "all_finished s \<longleftrightarrow> list_all (\<lambda>rk. rk_phase rk = Finished) (ranks s)"

section \<open>Gathering\<close>

text \<open>The displacements rank 0 computes from the counts.\<close>

fun displacements :: "cint \<Rightarrow> cint list \<Rightarrow> (cint list \<times> cint) option" where
  "displacements tot [] = Some ([], tot)"
| "displacements tot (c # cs) = do {
     tot' \<leftarrow> chk32 (tot + c);
     (ds, t) \<leftarrow> displacements tot' cs;
     Some (tot # ds, t)
   }"

text \<open>Scattering the gathered records back into input order; a message is the failing branch.\<close>

function scatter :: "Problem \<Rightarrow> cint list \<Rightarrow> cint \<Rightarrow> cint \<Rightarrow> Match list \<Rightarrow> (string option \<times> Match list) option" where
  "scatter p gathered i tot ms =
     (if i < tot then do {
        index \<leftarrow> load gathered i;
        if index < 0 \<or> index \<ge> num_pictures p
        then Some (Some (''gathered out-of-range picture index '' @ show_int index), ms)
        else do {
          pic \<leftarrow> load (pictures p) index;
          obj \<leftarrow> load gathered (i + 1);
          row \<leftarrow> load gathered (i + 2);
          col \<leftarrow> load gathered (i + 3);
          ms' \<leftarrow> store ms index \<lparr>m_picture_id = p_id pic, m_object_id = obj, m_row = row, m_col = col\<rparr>;
          scatter p gathered (i + RECORD_INTS) tot ms'
        }
      } else Some (None, ms))"
  by pat_completeness auto
termination
  by (relation "measure (\<lambda>(p, gathered, i, tot, ms). nat (tot - i))") (auto simp: RECORD_INTS_def)

function clear_matches :: "Problem \<Rightarrow> cint \<Rightarrow> Match list \<Rightarrow> Match list option" where
  "clear_matches p i ms =
     (if i < num_pictures p then do {
        pic \<leftarrow> load (pictures p) i;
        ms' \<leftarrow> store ms i (msearch_match_none (p_id pic));
        clear_matches p (i + 1) ms'
      } else Some ms)"
  by pat_completeness auto
termination
  by (relation "measure (\<lambda>(p, i, ms). nat (num_pictures p - i))") auto

declare scatter.simps [simp del] clear_matches.simps [simp del]

text \<open>The collective calls a rank makes in \<open>gather_records\<close>: none when rank 0's buffers are refused.\<close>

datatype collective = Gather | Gatherv | Allreduce

definition gather_buffers :: "env \<Rightarrow> cint \<Rightarrow> heap \<Rightarrow> bool \<times> heap \<times> heap" where
  "gather_buffers env np h =
     (let (ok1, h1) = mem_alloc env h;
          (ok2, h2) = mem_alloc env h1;
          (ok3, h3) = mem_alloc env h2;
          freed = mem_free (if ok3 then Some () else None)
                    (mem_free (if ok2 then Some () else None) (mem_free (if ok1 then Some () else None) h3))
      in (ok1 \<and> ok2 \<and> (np > 0 \<longrightarrow> ok3), h3, freed))"

definition gather_calls :: "bool \<Rightarrow> nat \<Rightarrow> collective list" where
  "gather_calls buffers_ok rank = (if rank = 0 \<and> \<not> buffers_ok then [] else [Gather, Gatherv])"

text \<open>
  All ranks of a communicator must call the same collectives in the same order; a run in which they
  do not is undefined (in practice it hangs).
\<close>

definition calls_match :: "bool \<Rightarrow> nat \<Rightarrow> bool" where
  "calls_match buffers_ok world_size \<longleftrightarrow>
     list_all (\<lambda>r. gather_calls buffers_ok r @ [Allreduce] = gather_calls buffers_ok 0 @ [Allreduce]) [0..<world_size]"

definition sent_block :: "mpi_rank \<Rightarrow> cint list option" where
  "sent_block rk = do {
     n \<leftarrow> chk32 (rk_count rk * RECORD_INTS);
     let recs = (case rk_records rk of None \<Rightarrow> [] | Some xs \<Rightarrow> xs);
     if n \<le> int (length recs) then Some (take (nat n) recs) else None
   }"

fun sent_blocks :: "mpi_rank list \<Rightarrow> cint list list option" where
  "sent_blocks [] = Some []"
| "sent_blocks (rk # rks) = do {
     b \<leftarrow> sent_block rk;
     bs \<leftarrow> sent_blocks rks;
     Some (b # bs)
   }"

text \<open>Rank 0's part, from the gathered counts on: its status, message and the results.\<close>

definition gather_records ::
  "mpi \<Rightarrow> Problem \<Rightarrow> env \<Rightarrow> mpi_rank list \<Rightarrow> Match list \<Rightarrow> (string option \<times> Match list) option" where
  "gather_records M p env rks ms = do {
     blocks \<leftarrow> sent_blocks rks;
     let counts = mpi_gather M (map (\<lambda>b. int (length b)) blocks);
     (displs, tot) \<leftarrow> displacements 0 counts;
     let gathered = map (junk env) [0..<nat (size_t (size_t (num_pictures p) * RECORD_INTS))];
     if tot \<le> int (length gathered) then do {
       let gathered' = mpi_gatherv M blocks counts displs gathered;
       ms0 \<leftarrow> clear_matches p 0 ms;
       scatter p gathered' 0 tot ms0
     } else None
   }"

section \<open>Finish\<close>

type_synonym rank_out = "Status \<times> errbuf \<times> log_event list \<times> heap"

text \<open>The end of \<open>msearch_run_mpi\<close> on one rank, given what the reduction delivered.\<close>

definition rank_finish :: "MatchBackend \<Rightarrow> cint \<Rightarrow> Status \<Rightarrow> errbuf \<Rightarrow> mpi_rank \<Rightarrow> heap \<Rightarrow> rank_out" where
  "rank_finish bk any_failed st err rk h =
     (let (st', err') = (if any_failed \<noteq> 0 \<and> st = MSEARCH_OK
                         then (MSEARCH_ERR_BACKEND, msearch_set_err err ''another rank reported a failure'')
                         else (st, err));
          h1 = mem_free (rk_records rk) h;
          h2 = (if rk_ctx rk \<noteq> None then b_destroy bk (rk_ctx rk) h1 else h1)
      in (st', err', rk_log rk, h2))"

definition mpi_finish ::
  "mpi \<Rightarrow> MatchBackend \<Rightarrow> rank_in list \<Rightarrow> mpi_rank list \<Rightarrow> Match list \<Rightarrow> (rank_out list \<times> Match list) option" where
  "mpi_finish M bk ris rks ms =
     (let ri0 = hd ris; p = ri_problem ri0;
          (ok, h0, freed) = gather_buffers (ri_env ri0) (num_pictures p) (rk_heap (hd rks))
      in if \<not> calls_match ok (length rks) then None
         else do {
           (msg, ms') \<leftarrow> gather_records M p (ri_env ri0) rks ms;
           let err0 = (case msg of None \<Rightarrow> rk_err (hd rks) | Some m \<Rightarrow> msearch_set_err (rk_err (hd rks)) m);
           let st0 = (if rk_status (hd rks) \<noteq> MSEARCH_OK then rk_status (hd rks)
                      else if msg = None then MSEARCH_OK else MSEARCH_ERR_BACKEND);
           let sts = st0 # map rk_status (tl rks);
           let any_failed = allreduce_max M (map (\<lambda>st. if st \<noteq> MSEARCH_OK then 1 else 0) sts);
           Some (rank_finish bk any_failed st0 err0 (hd rks) freed #
                   map (\<lambda>rk. rank_finish bk any_failed (rk_status rk) (rk_err rk) rk (rk_heap rk)) (tl rks), ms')
         })"

text \<open>
  The whole call, for the end state of the claiming phase that the interleaving led to. A single rank
  runs locally.
\<close>

definition msearch_run_mpi ::
  "mpi \<Rightarrow> MatchBackend \<Rightarrow> rank_in list \<Rightarrow> Match list \<Rightarrow> mpi_state \<Rightarrow> (rank_out list \<times> Match list) option" where
  "msearch_run_mpi M bk ris ms s =
     (if length ris = 1
      then (let ri = hd ris in
            do {
              (st, ms', err, lg, h) \<leftarrow> msearch_run_local bk (ri_pf ri) (ri_env ri) (ri_ws ri) (ri_problem ri) (ri_cfg ri)
                ms (ri_err ri) (ri_heap ri);
              Some ([(st, err, lg, h)], ms')
            })
      else mpi_finish M bk ris (ranks s) ms)"

section \<open>The claiming phase\<close>

text \<open>What the ranks are started on: one problem, as the broadcast leaves it, and one \<open>zero_eps\<close>.\<close>

definition mpi_job :: "Problem \<Rightarrow> dbl \<Rightarrow> rank_in list \<Rightarrow> bool" where
  "mpi_job p eps ris \<longleftrightarrow> problem_ok p \<and> eps_ok eps \<and> num_pictures p \<le> MSEARCH_MAX_COUNT \<and> ris \<noteq> [] \<and>
     list_all (\<lambda>ri. ri_problem ri = p \<and> c_zero_eps (ri_cfg ri) = eps) ris"

definition rec_list :: "mpi_rank \<Rightarrow> cint list" where
  "rec_list rk = (case rk_records rk of None \<Rightarrow> [] | Some xs \<Rightarrow> xs)"

text \<open>The indices a rank has recorded, and the one it is working on.\<close>

definition recorded :: "mpi_rank \<Rightarrow> cint list" where
  "recorded rk = map (\<lambda>j. rec_list rk ! (4 * j)) [0..<nat (rk_count rk)]"

definition in_work :: "mpi_rank \<Rightarrow> cint list" where
  "in_work rk = (case rk_phase rk of Searching i \<Rightarrow> [i] | _ \<Rightarrow> [])"

definition held_indices :: "mpi_rank \<Rightarrow> cint multiset" where
  "held_indices rk = mset (recorded rk) + mset (in_work rk)"

definition record_ok :: "Problem \<Rightarrow> dbl \<Rightarrow> cint list \<Rightarrow> nat \<Rightarrow> bool" where
  "record_ok p eps recs j \<longleftrightarrow>
     (let i = recs ! (4 * j); mt = canonical_match p eps (pictures p ! nat i) in
      0 \<le> i \<and> i < num_pictures p \<and> recs ! (4 * j + 1) = m_object_id mt \<and>
      recs ! (4 * j + 2) = m_row mt \<and> recs ! (4 * j + 3) = m_col mt)"

definition rank_inv :: "MatchBackend \<Rightarrow> Problem \<Rightarrow> dbl \<Rightarrow> rank_in \<Rightarrow> cint \<Rightarrow> mpi_rank \<Rightarrow> bool" where
  "rank_inv bk p eps ri cnt rk \<longleftrightarrow>
     0 \<le> rk_count rk \<and> 4 * rk_count rk \<le> int (length (rec_list rk)) \<and>
     (\<forall>j < nat (rk_count rk). record_ok p eps (rec_list rk) j) \<and>
     (rk_phase rk \<noteq> Finished \<longrightarrow> rk_status rk = MSEARCH_OK \<and>
        (\<exists>ctx err lg h. b_create bk (ri_pf ri) (ri_env ri) p (ri_cfg ri) (ri_err ri) (ri_heap ri) =
           (MSEARCH_OK, Some ctx, err, lg, h) \<and> rk_ctx rk = Some ctx) \<and>
        (num_pictures p > 0 \<longrightarrow> rk_records rk \<noteq> None \<and> int (length (rec_list rk)) = 4 * num_pictures p)) \<and>
     (rk_phase rk = Finished \<longrightarrow> rk_status rk = MSEARCH_OK \<longrightarrow> num_pictures p \<le> cnt) \<and>
     (\<forall>i. rk_phase rk = Searching i \<longrightarrow> 0 \<le> i \<and> i < num_pictures p)"

definition no_failure :: "mpi_state \<Rightarrow> bool" where
  "no_failure s \<longleftrightarrow> list_all (\<lambda>rk. rk_status rk = MSEARCH_OK) (ranks s)"

definition mpi_inv :: "MatchBackend \<Rightarrow> Problem \<Rightarrow> dbl \<Rightarrow> rank_in list \<Rightarrow> mpi_state \<Rightarrow> bool" where
  "mpi_inv bk p eps ris s \<longleftrightarrow>
     0 \<le> counter s \<and> length (ranks s) = length ris \<and>
     (\<forall>r < length ris. rank_inv bk p eps (ris ! r) (counter s) (ranks s ! r)) \<and>
     (let claimed = mset [0..min (counter s) (num_pictures p) - 1] in
      sum_list (map held_indices (ranks s)) \<subseteq># claimed \<and>
      (no_failure s \<longrightarrow> sum_list (map held_indices (ranks s)) = claimed))"

text \<open>Writing one more record.\<close>

lemma put_record_spec:
  assumes "4 * (int c + 1) \<le> int (length recs)" "length recs \<le> 4000000"
  shows "\<exists>recs'. put_record recs (int c) index mt = Some recs' \<and> length recs' = length recs \<and>
    (\<forall>j < 4 * c. recs' ! j = recs ! j) \<and> recs' ! (4 * c) = index \<and> recs' ! (4 * c + 1) = m_object_id mt \<and>
    recs' ! (4 * c + 2) = m_row mt \<and> recs' ! (4 * c + 3) = m_col mt"
proof -
  have b: "size_t (size_t (int c) * RECORD_INTS) = int (4 * c)"
    using assms by (simp add: RECORD_INTS_def)
  have n: "nat (int (4 * c) + 1) = 4 * c + 1" "nat (int (4 * c) + 2) = 4 * c + 2" "nat (int (4 * c) + 3) = 4 * c + 3"
    by simp_all
  define recs' where "recs' = recs[4 * c := index, 4 * c + 1 := m_object_id mt, 4 * c + 2 := m_row mt, 4 * c + 3 := m_col mt]"
  have "put_record recs (int c) index mt = Some recs'"
    unfolding put_record_def b Let_def recs'_def
    using assms by (simp add: store_def n nat_mult_distrib nat_add_distrib)
  moreover have "4 * c + 3 < length recs" using assms(1) by presburger
  ultimately show ?thesis by (intro exI [of _ recs']) (simp add: recs'_def)
qed

lemma recorded_snoc:
  assumes "rec_list rk' ! (4 * nat (rk_count rk)) = i" "rk_count rk' = rk_count rk + 1" "0 \<le> rk_count rk"
    and "\<forall>j < 4 * nat (rk_count rk). rec_list rk' ! j = rec_list rk ! j"
  shows "recorded rk' = recorded rk @ [i]"
  using assms by (simp add: recorded_def nat_add_distrib)

text \<open>Sub-multisets of an interval: no more members than places, and none twice.\<close>

lemma interval_bound:
  assumes "A \<subseteq># mset [0..n - 1]" "0 \<le> n"
  shows "int (size A) \<le> n" "\<And>x. count A x \<le> 1"
proof -
  show "int (size A) \<le> n" using size_mset_mono [OF assms(1)] assms(2) by simp
  fix x
  have "count A x \<le> count (mset [0..n - 1]) x" using assms(1) by (rule mset_subset_eq_count)
  also have "\<dots> \<le> 1" using distinct_upto [of 0 "n - 1"] by (simp add: distinct_count_atmost_1)
  finally show "count A x \<le> 1" .
qed

lemma held_part: "r < length rks \<Longrightarrow> held_indices (rks ! r) \<subseteq># sum_list (map held_indices rks)"
proof (induction rks arbitrary: r)
  case (Cons a rks)
  show ?case
  proof (cases r)
    case (Suc k)
    with Cons have "held_indices (rks ! k) \<subseteq># sum_list (map held_indices rks)" by simp
    then show ?thesis by (simp add: Suc subset_mset.add_increasing)
  qed simp
qed simp

lemma mpi_jobD:
  assumes "mpi_job p eps ris"
  shows "problem_ok p" "eps_ok eps" "num_pictures p = int (length (pictures p))" "length (pictures p) \<le> 1000000"
    "ris \<noteq> []" "ri \<in> set ris \<Longrightarrow> ri_problem ri = p" "ri \<in> set ris \<Longrightarrow> c_zero_eps (ri_cfg ri) = eps"
  using assms problem_okD(1) [of p] by (auto simp: mpi_job_def list_all_iff MSEARCH_MAX_COUNT_def)

lemma rank_inv_mono: "rank_inv bk p eps ri cnt rk \<Longrightarrow> cnt \<le> cnt' \<Longrightarrow> rank_inv bk p eps ri cnt' rk"
  by (auto simp: rank_inv_def)

lemma record_ok_cong: "\<forall>j < 4 * k. recs' ! j = recs ! j \<Longrightarrow> j < k \<Longrightarrow> record_ok p eps recs' j = record_ok p eps recs j"
  by (simp add: record_ok_def)

context match_backend
begin

lemma rank_start_inv:
  assumes "mpi_job p eps ris" "ri \<in> set ris"
  shows "rank_inv bk p eps ri 0 (rank_start bk ri) \<and> held_indices (rank_start bk ri) = {#}"
proof -
  note job = mpi_jobD [OF assms(1)]
  obtain st ctx err lg h where c: "b_create bk (ri_pf ri) (ri_env ri) p (ri_cfg ri) (ri_err ri) (ri_heap ri) =
      (st, ctx, err, lg, h)" by (cases "b_create bk (ri_pf ri) (ri_env ri) p (ri_cfg ri) (ri_err ri) (ri_heap ri)") auto
  have sz: "size_t (int (length (pictures p)) * RECORD_INTS) = 4 * int (length (pictures p))"
    using job(4) by (simp add: RECORD_INTS_def)
  show ?thesis
    using c create_status [OF c] job(3,4) job(6) [OF assms(2)] sz
    by (auto simp: rank_start_def rank_inv_def mem_alloc_def held_indices_def recorded_def in_work_def
        rec_list_def Let_def split: prod.splits)
qed

lemma start_inv:
  assumes "mpi_job p eps ris"
  shows "mpi_inv bk p eps ris (mpi_start bk ris)"
proof -
  have "sum_list (map (held_indices \<circ> rank_start bk) ris) = {#}"
    using rank_start_inv [OF assms] by (induction ris) auto
  then show ?thesis
    using rank_start_inv [OF assms] mpi_jobD(3) [OF assms]
    by (simp add: mpi_inv_def mpi_start_def Let_def min_def)
qed

text \<open>A rank that has not finished can move, and its move keeps the invariant.\<close>

lemma rank_step_inv:
  assumes job: "mpi_job p eps ris" and conf: "mpi_conforms M" and inv: "mpi_inv bk p eps ris s"
    and r: "r < length ris" and ph: "rk_phase (ranks s ! r) \<noteq> Finished"
  obtains cnt rk where "rank_step M bk (ris ! r) (counter s) (ranks s ! r) = Some (cnt, rk)"
    "mpi_inv bk p eps ris \<lparr>counter = cnt, ranks = (ranks s)[r := rk]\<rparr>"
proof -
  note jb = mpi_jobD [OF job]
  let ?ri = "ris ! r" and ?rk = "ranks s ! r" and ?np = "num_pictures p"
  have mem: "?ri \<in> set ris" using r by simp
  have len: "length (ranks s) = length ris" and c0: "0 \<le> counter s" using inv by (simp_all add: mpi_inv_def)
  have ri: "rank_inv bk p eps ?ri (counter s) ?rk" using inv r by (simp add: mpi_inv_def)
  let ?claimed = "mset [0..min (counter s) ?np - 1]" and ?held = "sum_list (map held_indices (ranks s))"
  have sub: "?held \<subseteq># ?claimed" and eq: "no_failure s \<Longrightarrow> ?held = ?claimed"
    using inv by (simp_all add: mpi_inv_def Let_def)
  have upd: "sum_list (map held_indices ((ranks s)[r := rk])) + held_indices ?rk = ?held + held_indices rk" for rk
    using sum_list_replace [of r "ranks s" held_indices rk] r len by simp
  have others: "rank_inv bk p eps (ris ! q) cnt ((ranks s)[r := rk] ! q)"
    if "q < length ris" "rank_inv bk p eps ?ri cnt rk" "counter s \<le> cnt" for q cnt rk
    using that inv r len rank_inv_mono by (cases "q = r") (auto simp: mpi_inv_def)
  have fail: "no_failure \<lparr>counter = cnt, ranks = (ranks s)[r := rk]\<rparr> \<Longrightarrow> no_failure s"
    if "rk_status ?rk = MSEARCH_OK" for cnt rk
  proof -
    assume nf: "no_failure \<lparr>counter = cnt, ranks = (ranks s)[r := rk]\<rparr>"
    have "rk_status (ranks s ! q) = MSEARCH_OK" if "q < length (ranks s)" for q
      using nf that \<open>rk_status ?rk = MSEARCH_OK\<close> by (cases "q = r") (force simp: no_failure_def list_all_length)+
    then show "no_failure s" by (simp add: no_failure_def list_all_length)
  qed
  have okst: "rk_status ?rk = MSEARCH_OK" using ri ph by (simp add: rank_inv_def)
  show thesis
  proof (cases "rk_phase ?rk")
    case Claiming
    define rk where "rk = ?rk\<lparr>rk_phase := if counter s \<ge> ?np then Finished else Searching (counter s)\<rparr>"
    have st: "rank_step M bk ?ri (counter s) ?rk = Some (counter s + 1, rk)"
      using Claiming conforms_fetch [OF conf] jb(6) [OF mem] by (simp add: rank_step_def rk_def)
    have rinv: "rank_inv bk p eps ?ri (counter s + 1) rk"
      using ri c0 Claiming by (auto simp: rank_inv_def rk_def rec_list_def)
    have old: "held_indices ?rk = mset (recorded ?rk)" using Claiming by (simp add: held_indices_def in_work_def)
    have rec: "recorded rk = recorded ?rk" by (simp add: recorded_def rk_def rec_list_def)
    show thesis
    proof (cases "counter s \<ge> ?np")
      case True
      then have "held_indices rk = held_indices ?rk"
        using rec old by (simp add: held_indices_def in_work_def rk_def)
      with upd [of rk] have "sum_list (map held_indices ((ranks s)[r := rk])) = ?held" by simp
      moreover have "min (counter s) ?np = ?np" "min (counter s + 1) ?np = ?np" using True by simp_all
      ultimately show thesis
        using st rinv others sub eq fail [OF okst] c0 len
        by (intro that) (auto simp: mpi_inv_def Let_def)
    next
      case False
      then have "held_indices rk = add_mset (counter s) (held_indices ?rk)"
        using rec old by (simp add: held_indices_def in_work_def rk_def)
      with upd [of rk] have "sum_list (map held_indices ((ranks s)[r := rk])) = add_mset (counter s) ?held" by simp
      moreover have "mset [0..counter s] = add_mset (counter s) (mset [0..counter s - 1])"
        using c0 by (simp add: upto_rec2)
      ultimately show thesis
        using st rinv others sub eq fail [OF okst] c0 len False
        by (intro that) (auto simp: mpi_inv_def Let_def)
    qed
  next
    case (Searching i)
    have i: "0 \<le> i" "i < ?np" using ri Searching by (auto simp: rank_inv_def)
    define pic where "pic = pictures p ! nat i"
    have ld: "load (pictures p) i = Some pic" and pmem: "pic \<in> set (pictures p)"
      using i jb(3) by (auto simp: pic_def)
    obtain ctx err lg h where cr: "b_create bk (ri_pf ?ri) (ri_env ?ri) p (ri_cfg ?ri) (ri_err ?ri) (ri_heap ?ri) =
           (MSEARCH_OK, Some ctx, err, lg, h)" and ctx: "rk_ctx ?rk = Some ctx"
      using ri Searching by (auto simp: rank_inv_def)
    obtain st mt e where s: "b_search bk ctx (ri_ws ?ri i) pic (rk_err ?rk) = Some (st, mt, e)"
      "st = MSEARCH_OK \<longrightarrow> mt = canonical_match p eps pic"
      using search_canonical [OF cr jb(1) _ pmem] jb(2) jb(7) [OF mem] by fastforce
    have old: "held_indices ?rk = add_mset i (mset (recorded ?rk))"
      using Searching by (simp add: held_indices_def in_work_def)
    show thesis
    proof (cases "st = MSEARCH_OK")
      case False
      define rk where "rk = ?rk\<lparr>rk_status := st, rk_err := e, rk_phase := Finished\<rparr>"
      have stp: "rank_step M bk ?ri (counter s) ?rk = Some (counter s, rk)"
        using Searching ld ctx s False jb(6) [OF mem] by (simp add: rank_step_def rk_def)
      have rinv: "rank_inv bk p eps ?ri (counter s) rk"
        using ri False by (auto simp: rank_inv_def rk_def rec_list_def)
      have "held_indices rk = mset (recorded ?rk)"
        by (simp add: held_indices_def in_work_def rk_def recorded_def rec_list_def)
      with old have "held_indices ?rk = add_mset i (held_indices rk)" by simp
      with upd [of rk] have "add_mset i (sum_list (map held_indices ((ranks s)[r := rk]))) = ?held" by simp
      then have "sum_list (map held_indices ((ranks s)[r := rk])) \<subseteq># ?claimed"
        using sub by (metis mset_subset_eq_insertD subset_mset.less_imp_le)
      moreover have "\<not> no_failure \<lparr>counter = counter s, ranks = (ranks s)[r := rk]\<rparr>"
        using False r len by (auto simp: no_failure_def list_all_length rk_def intro!: exI [of _ r])
      ultimately show thesis
        using stp rinv others c0 len by (intro that) (auto simp: mpi_inv_def Let_def)
    next
      case True
      obtain recs where recs: "rk_records ?rk = Some recs" "int (length recs) = 4 * ?np" and rl: "rec_list ?rk = recs"
        using ri Searching i by (auto simp: rank_inv_def rec_list_def)
      have cnt: "0 \<le> rk_count ?rk" using ri by (simp add: rank_inv_def)
      have "held_indices ?rk \<subseteq># ?claimed"
        using held_part [of r "ranks s"] r len sub by (metis subset_mset.order_trans)
      with interval_bound(1) [of "held_indices ?rk" "min (counter s) ?np"] c0 jb(3)
      have "int (size (held_indices ?rk)) \<le> ?np" by simp
      then have room: "rk_count ?rk + 1 \<le> ?np" using old cnt by (simp add: recorded_def)
      have short: "length recs \<le> 4000000" using recs(2) jb(3,4) by simp
      obtain recs' where pr: "put_record recs (rk_count ?rk) i mt = Some recs'" "length recs' = length recs"
        "\<forall>j < 4 * nat (rk_count ?rk). recs' ! j = recs ! j" "recs' ! (4 * nat (rk_count ?rk)) = i"
        "recs' ! (4 * nat (rk_count ?rk) + 1) = m_object_id mt"
        "recs' ! (4 * nat (rk_count ?rk) + 2) = m_row mt" "recs' ! (4 * nat (rk_count ?rk) + 3) = m_col mt"
        using put_record_spec [of "nat (rk_count ?rk)" recs i mt] cnt room recs(2) short by auto
      define rk where "rk = ?rk\<lparr>rk_err := e, rk_records := Some recs', rk_count := rk_count ?rk + 1, rk_phase := Claiming,
          rk_log := rk_log ?rk @ [(LOG_DEBUG, ''claimed picture index '' @ show_int i @ '' (id '' @ show_int (p_id pic) @ '')'')]\<rparr>"
      have stp: "rank_step M bk ?ri (counter s) ?rk = Some (counter s, rk)"
        using Searching ld ctx s True recs pr(1) jb(6) [OF mem] by (simp add: rank_step_def rk_def)
      have rl': "rec_list rk = recs'" by (simp add: rec_list_def rk_def)
      have last: "record_ok p eps recs' (nat (rk_count ?rk))"
        using pr i s True by (simp add: record_ok_def pic_def)
      have before: "\<forall>j < nat (rk_count ?rk). record_ok p eps recs j" using ri by (simp add: rank_inv_def rl)
      have fields: "rk_count rk = rk_count ?rk + 1" "rk_phase rk = Claiming" "rk_status rk = MSEARCH_OK" "rk_ctx rk = Some ctx"
        "rk_records rk = Some recs'"
        using okst ctx by (simp_all add: rk_def)
      have "record_ok p eps recs' j" if "j < nat (rk_count ?rk + 1)" for j
        using that before last record_ok_cong [OF pr(3)] cnt by (cases "j = nat (rk_count ?rk)") (simp_all add: nat_add_distrib)
      then have rinv: "rank_inv bk p eps ?ri (counter s) rk"
        using room recs(2) pr(2) cr cnt unfolding rank_inv_def fields rl' by simp
      have "recorded rk = recorded ?rk @ [i]"
      proof (rule recorded_snoc)
        show "rec_list rk ! (4 * nat (rk_count ?rk)) = i" unfolding rl' by (rule pr(4))
        show "rk_count rk = rk_count ?rk + 1" by (simp add: rk_def)
        show "\<forall>j < 4 * nat (rk_count ?rk). rec_list rk ! j = rec_list ?rk ! j" unfolding rl rl' by (rule pr(3))
      qed (rule cnt)
      then have "held_indices rk = held_indices ?rk"
        using old by (simp add: held_indices_def in_work_def rk_def)
      with upd [of rk] have "sum_list (map held_indices ((ranks s)[r := rk])) = ?held" by simp
      with stp rinv others sub eq fail [OF okst] c0 len show thesis
        by (intro that) (auto simp: mpi_inv_def Let_def)
    qed
  qed (use ph in simp)
qed

end

section \<open>The claiming ends\<close>

fun phase_work :: "claim_phase \<Rightarrow> nat" where
  "phase_work Claiming = 1"
| "phase_work (Searching i) = 2"
| "phase_work Finished = 0"

definition claim_work :: "Problem \<Rightarrow> mpi_state \<Rightarrow> nat" where
  "claim_work p s = 3 * nat (num_pictures p - counter s) + sum_list (map (\<lambda>rk. phase_work (rk_phase rk)) (ranks s))"

lemma claim_work_decreases:
  assumes step: "mpi_step M bk ris s s'" and job: "mpi_job p eps ris" and conf: "mpi_conforms M"
  shows "claim_work p s' < claim_work p s"
proof -
  obtain r cnt rk where rank_moves: "s' = \<lparr>counter = cnt, ranks = (ranks s)[r := rk]\<rparr>"
    "r < length (ranks s)" "r < length ris" "rank_step M bk (ris ! r) (counter s) (ranks s ! r) = Some (cnt, rk)"
    using step by (rule mpi_stepE)
  have pr: "ri_problem (ris ! r) = p" using rank_moves(3) mpi_jobD(6) [OF job] by simp
  note sum = sum_list_replace [OF rank_moves(2), of "\<lambda>rk. phase_work (rk_phase rk)" rk]
  show ?thesis
  proof (cases "rk_phase (ranks s ! r)")
    case Claiming
    with rank_moves(4) conforms_fetch [OF conf] pr have
      "cnt = counter s + 1" "rk_phase rk = (if counter s \<ge> num_pictures p then Finished else Searching (counter s))"
      by (auto simp: rank_step_def)
    with sum Claiming rank_moves(1) show ?thesis by (auto simp: claim_work_def split: if_splits)
  next
    case (Searching i)
    with rank_moves(4) have "cnt = counter s" "phase_work (rk_phase rk) \<le> 1"
      by (auto simp: rank_step_def split: bind_splits if_splits)
    with sum Searching rank_moves(1) show ?thesis by (simp add: claim_work_def)
  next
    case Finished
    with rank_moves(4) show ?thesis by (simp add: rank_step_def)
  qed
qed

lemma claim_work_steps:
  "(mpi_step M bk ris ^^ n) s s' \<Longrightarrow> mpi_job p eps ris \<Longrightarrow> mpi_conforms M \<Longrightarrow>
    n + claim_work p s' \<le> claim_work p s"
proof (induction n arbitrary: s')
  case (Suc n)
  from Suc.prems(1) obtain t where "(mpi_step M bk ris ^^ n) s t" "mpi_step M bk ris t s'" by auto
  with Suc.IH [of t] claim_work_decreases [of M bk ris t s' p eps] Suc.prems(2,3) show ?case by fastforce
qed simp

context match_backend
begin

lemma reach_inv:
  assumes "mpi_reach M bk ris s" "mpi_job p eps ris" "mpi_conforms M"
  shows "mpi_inv bk p eps ris s"
  using assms(1)
proof (induction rule: mpi_reach.induct)
  case at_start
  show ?case by (rule start_inv [OF assms(2)])
next
  case (after_step s s')
  from after_step.hyps(2) obtain r cnt rk where rank_moves: "s' = \<lparr>counter = cnt, ranks = (ranks s)[r := rk]\<rparr>"
    "r < length (ranks s)" "r < length ris" "rank_step M bk (ris ! r) (counter s) (ranks s ! r) = Some (cnt, rk)"
    by (rule mpi_stepE)
  then have "rk_phase (ranks s ! r) \<noteq> Finished" by (auto simp: rank_step_def)
  from rank_step_inv [OF assms(2,3) after_step.IH rank_moves(3) this] rank_moves(1,4) show ?case by auto
qed

lemma reach_progress:
  assumes "mpi_reach M bk ris s" "mpi_job p eps ris" "mpi_conforms M" "\<not> all_finished s"
  shows "\<exists>s'. mpi_step M bk ris s s'"
proof -
  note inv = reach_inv [OF assms(1-3)]
  from assms(4) obtain r where r: "r < length (ranks s)" "rk_phase (ranks s ! r) \<noteq> Finished"
    by (auto simp: all_finished_def list_all_length)
  have len: "length (ranks s) = length ris" using inv by (simp add: mpi_inv_def)
  with rank_step_inv [OF assms(2,3) inv _ r(2)] r show ?thesis by (metis mpi_step.rank_moves)
qed

end

section \<open>Gathering\<close>

text \<open>A block of records as a rank sends it.\<close>

definition block_ok :: "Problem \<Rightarrow> dbl \<Rightarrow> cint list \<Rightarrow> bool" where
  "block_ok p eps b \<longleftrightarrow> 4 dvd length b \<and> (\<forall>j < length b div 4. record_ok p eps b j)"

definition block_indices :: "cint list \<Rightarrow> cint list" where
  "block_indices b = map (\<lambda>j. b ! (4 * j)) [0..<length b div 4]"

lemma record_ok_append1: "4 * j + 3 < length a \<Longrightarrow> record_ok p eps (a @ b) j = record_ok p eps a j"
  by (simp add: record_ok_def nth_append)

lemma record_ok_append2: "length a = 4 * k \<Longrightarrow> record_ok p eps (a @ b) (k + j) = record_ok p eps b j"
  by (simp add: record_ok_def nth_append algebra_simps)

lemma block_append:
  assumes "block_ok p eps a" "block_ok p eps b"
  shows "block_ok p eps (a @ b)" "block_indices (a @ b) = block_indices a @ block_indices b"
proof -
  obtain k where k: "length a = 4 * k" using assms(1) by (auto simp: block_ok_def)
  obtain l where l: "length b = 4 * l" using assms(2) by (auto simp: block_ok_def)
  have n: "length (a @ b) div 4 = k + l" using k l by simp
  have "record_ok p eps (a @ b) j" if "j < k + l" for j
  proof (cases "j < k")
    case True
    with assms(1) k show ?thesis by (simp add: block_ok_def record_ok_append1)
  next
    case False
    with assms(2) l that record_ok_append2 [OF k, of p eps b "j - k"] show ?thesis by (simp add: block_ok_def)
  qed
  then show "block_ok p eps (a @ b)" using k l n by (simp add: block_ok_def)
  have "map (\<lambda>j. (a @ b) ! (4 * j)) [0..<k + l] = map (\<lambda>j. a ! (4 * j)) [0..<k] @ map (\<lambda>j. b ! (4 * j)) [0..<l]"
    by (rule nth_equalityI) (auto simp: nth_append k algebra_simps)
  then show "block_indices (a @ b) = block_indices a @ block_indices b"
    unfolding block_indices_def n using k l by simp
qed

lemma block_concat:
  "\<forall>b \<in> set bs. block_ok p eps b \<Longrightarrow>
    block_ok p eps (concat bs) \<and> block_indices (concat bs) = concat (map block_indices bs)"
proof (induction bs)
  case Nil
  then show ?case by (simp add: block_ok_def block_indices_def)
next
  case (Cons b bs)
  then show ?case using block_append [of p eps b "concat bs"] by simp
qed

lemma canonical_picture_id [simp]: "m_picture_id (canonical_match p eps pic) = p_id pic"
  unfolding canonical_match_def
  by (rule canonical_among_cases [of "objects p" "threshold p" eps pic])
    (auto simp: msearch_match_none_def found_at_def)

lemma scatter_spec:
  assumes p: "num_pictures p = int (length (pictures p))"
    and g: "4 * k \<le> length g" "\<forall>j < k. record_ok p eps g j"
  shows "i \<le> k \<Longrightarrow> length ms = length (pictures p) \<Longrightarrow>
    \<exists>ms'. scatter p g (4 * int i) (4 * int k) ms = Some (None, ms') \<and> length ms' = length ms \<and>
      (\<forall>x < length ms. ms' ! x = (if \<exists>j. i \<le> j \<and> j < k \<and> g ! (4 * j) = int x
         then canonical_match p eps (pictures p ! x) else ms ! x))"
proof (induction i arbitrary: ms rule: inc_induct)
  case base
  then show ?case by (subst scatter.simps) auto
next
  case (step i)
  define x where "x = g ! (4 * i)"
  have ok: "record_ok p eps g i" using g(2) step(2) by simp
  then have x: "0 \<le> x" "x < num_pictures p" by (simp_all add: record_ok_def x_def Let_def)
  let ?mt = "canonical_match p eps (pictures p ! nat x)"
  have vals: "g ! (4 * i + 1) = m_object_id ?mt" "g ! (4 * i + 2) = m_row ?mt" "g ! (4 * i + 3) = m_col ?mt"
    using ok by (simp_all add: record_ok_def x_def Let_def)
  have idx: "nat (4 * int i) = 4 * i" "nat (4 * int i + 1) = 4 * i + 1" "nat (4 * int i + 2) = 4 * i + 2"
    "nat (4 * int i + 3) = 4 * i + 3" by simp_all
 have swap: "4 * int (Suc i) = 4 * int i + 4" by simp
  have room: "4 * i + 3 < length g" using g(1) step(2) by simp
  have lds: "load g (4 * int i) = Some x" "load g (4 * int i + 1) = Some (m_object_id ?mt)"
    "load g (4 * int i + 2) = Some (m_row ?mt)" "load g (4 * int i + 3) = Some (m_col ?mt)"
    using room vals by (simp_all add: load_def idx x_def)
  have pic: "load (pictures p) x = Some (pictures p ! nat x)" using x p by simp
  have mt: "\<lparr>m_picture_id = p_id (pictures p ! nat x), m_object_id = m_object_id ?mt, m_row = m_row ?mt, m_col = m_col ?mt\<rparr> = ?mt"
    by simp
  have st: "store ms x ?mt = Some (ms[nat x := ?mt])" using x p step(4) by simp
  have "scatter p g (4 * int i) (4 * int k) ms = scatter p g (4 * int (Suc i)) (4 * int k) (ms[nat x := ?mt])"
    using x step(2) by (subst scatter.simps) (simp add: lds pic mt st RECORD_INTS_def swap del: of_nat_Suc)
  moreover obtain ms' where IH: "scatter p g (4 * int (Suc i)) (4 * int k) (ms[nat x := ?mt]) = Some (None, ms')"
    "length ms' = length ms"
    "\<forall>y < length ms. ms' ! y = (if \<exists>j. Suc i \<le> j \<and> j < k \<and> g ! (4 * j) = int y
         then canonical_match p eps (pictures p ! y) else ms[nat x := ?mt] ! y)"
    using step(3) [of "ms[nat x := ?mt]"] step(4) by auto
  have "ms' ! y = (if \<exists>j. i \<le> j \<and> j < k \<and> g ! (4 * j) = int y
         then canonical_match p eps (pictures p ! y) else ms ! y)" if y: "y < length ms" for y
  proof (cases "\<exists>j. Suc i \<le> j \<and> j < k \<and> g ! (4 * j) = int y")
    case True
    then have "\<exists>j. i \<le> j \<and> j < k \<and> g ! (4 * j) = int y" by (meson Suc_leD)
    with True IH(3) y show ?thesis by simp
  next
    case False
    then have "(\<exists>j. i \<le> j \<and> j < k \<and> g ! (4 * j) = int y) \<longleftrightarrow> x = int y"
      using step(2) by (auto simp: x_def) (metis le_eq_less_or_eq Suc_le_eq)
    with False IH(3) y x show ?thesis by auto
  qed
  with IH calculation show ?case by auto
qed

lemma clear_matches_spec:
  "num_pictures p = int (length (pictures p)) \<Longrightarrow> i \<le> length (pictures p) \<Longrightarrow> length ms = length (pictures p) \<Longrightarrow>
    \<exists>ms'. clear_matches p (int i) ms = Some ms' \<and> length ms' = length ms"
proof (induction "length (pictures p) - i" arbitrary: i ms)
  case 0
  then show ?case by (subst clear_matches.simps) simp
next
  case (Suc k)
  then have i: "i < length (pictures p)" by simp
  have "clear_matches p (int i) ms = clear_matches p (int (Suc i)) (ms[i := msearch_match_none (p_id (pictures p ! i))])"
    using Suc.prems i by (subst clear_matches.simps) (simp add: add.commute)
  moreover have "k = length (pictures p) - Suc i" using Suc.hyps(2) by simp
  ultimately show ?case using Suc.hyps(1) [of "Suc i" "ms[i := msearch_match_none (p_id (pictures p ! i))]"] Suc.prems i
    by simp
qed

lemma displacements_spec:
  "0 \<le> t \<Longrightarrow> list_all (\<lambda>c. 0 \<le> c) cs \<Longrightarrow> t + sum_list cs \<le> INT_MAX \<Longrightarrow>
    displacements t cs = Some (prefix_sums t cs, t + sum_list cs)"
proof (induction cs arbitrary: t)
  case (Cons c cs)
  have "0 \<le> sum_list cs" using Cons.prems by (intro sum_list_nonneg) (auto simp: list_all_iff)
  with Cons.prems have "int32 (t + c)" by (simp add: int_ranges)
  with Cons show ?case by (simp add: add.assoc)
qed simp

text \<open>What a rank sends.\<close>

definition sent :: "mpi_rank \<Rightarrow> cint list" where
  "sent rk = take (4 * nat (rk_count rk)) (rec_list rk)"

lemma sent_props:
  assumes "rank_inv bk p eps ri cnt rk"
  shows "length (sent rk) = 4 * nat (rk_count rk)" "block_ok p eps (sent rk)" "block_indices (sent rk) = recorded rk"
proof -
  have n: "4 * nat (rk_count rk) \<le> length (rec_list rk)" using assms by (auto simp: rank_inv_def)
  then show len: "length (sent rk) = 4 * nat (rk_count rk)" by (simp add: sent_def)
  have "record_ok p eps (sent rk) j = record_ok p eps (rec_list rk) j" if "j < nat (rk_count rk)" for j
    using that by (intro record_ok_cong [of "nat (rk_count rk)"]) (simp_all add: sent_def)
  with assms len show "block_ok p eps (sent rk)" by (auto simp: rank_inv_def block_ok_def)
  show "block_indices (sent rk) = recorded rk" using len by (simp add: block_indices_def recorded_def sent_def)
qed

lemma sent_block_spec:
  assumes "rank_inv bk p eps ri cnt rk" "rk_count rk \<le> MSEARCH_MAX_COUNT"
  shows "sent_block rk = Some (sent rk)"
proof -
  have c: "0 \<le> rk_count rk" "4 * rk_count rk \<le> int (length (rec_list rk))" using assms(1) by (auto simp: rank_inv_def)
  have "int32 (rk_count rk * RECORD_INTS)" using c assms(2) by (simp add: int_ranges RECORD_INTS_def MSEARCH_MAX_COUNT_def)
  then have ch: "chk32 (rk_count rk * RECORD_INTS) = Some (rk_count rk * RECORD_INTS)" by simp
  have "nat (rk_count rk * RECORD_INTS) = 4 * nat (rk_count rk)" using c by (simp add: RECORD_INTS_def nat_mult_distrib)
  with c ch show ?thesis
    by (simp add: sent_block_def sent_def rec_list_def RECORD_INTS_def Let_def mult.commute)
qed

lemma sent_blocks_spec:
  "\<forall>rk \<in> set rks. sent_block rk = Some (sent rk) \<Longrightarrow> sent_blocks rks = Some (map sent rks)"
  by (induction rks) auto

lemma mset_concat_map: "mset (concat (map f xs)) = sum_list (map (\<lambda>x. mset (f x)) xs)"
  by (induction xs) auto

lemma block_indices_length: "length (block_indices b) = length b div 4"
  by (simp add: block_indices_def)

lemma sum_list_lengths: "sum_list (map (\<lambda>b. int (length b)) bs) = int (length (concat bs))"
  by (induction bs) auto

lemma interval_size: "0 \<le> n \<Longrightarrow> size (mset [0..n - 1]) = nat n"
  by simp

text \<open>The result of the gathering, from any set of blocks in order.\<close>

lemma gather_blocks:
  assumes conf: "mpi_conforms M" and p: "problem_ok p" "num_pictures p \<le> MSEARCH_MAX_COUNT"
    and sb: "sent_blocks rks = Some bs" and ok: "\<forall>b \<in> set bs. block_ok p eps b"
    and sub: "mset (concat (map block_indices bs)) \<subseteq># mset [0..num_pictures p - 1]"
    and ms: "length ms = length (pictures p)"
  shows "\<exists>ms'. gather_records M p env rks ms = Some (None, ms') \<and> length ms' = length ms \<and>
    (mset (concat (map block_indices bs)) = mset [0..num_pictures p - 1] \<longrightarrow>
       ms' = map (canonical_match p eps) (pictures p))"
proof -
  note np = problem_okD(1) [OF p(1)]
  define G k where "G = concat bs" and "k = length (concat bs) div 4"
  have bG: "block_ok p eps G" "block_indices G = concat (map block_indices bs)"
    using block_concat [OF ok] by (simp_all add: G_def)
  then have Gk: "length G = 4 * k" by (auto simp: block_ok_def G_def k_def)
  have "length (block_indices G) \<le> nat (num_pictures p)"
    using size_mset_mono [OF sub] np bG(2) by simp
  then have kn: "k \<le> length (pictures p)" using np by (simp add: block_indices_length G_def k_def)
  have sz: "size_t (size_t (num_pictures p) * RECORD_INTS) = 4 * num_pictures p"
    using p(2) np by (simp add: RECORD_INTS_def MSEARCH_MAX_COUNT_def)
  define buf where "buf = map (junk env) [0..<nat (4 * num_pictures p)]"
  have bufl: "length buf = 4 * length (pictures p)" using np by (simp add: buf_def)
  have fits: "4 * int k \<le> int (length buf)" using bufl kn by simp
  define counts where "counts = map (\<lambda>b. int (length b)) bs"
  have tot: "sum_list counts = 4 * int k" using sum_list_lengths [of bs] Gk by (simp add: counts_def G_def)
  have ds: "displacements 0 counts = Some (prefix_sums 0 counts, 4 * int k)"
    using displacements_spec [of 0 counts] tot kn np p(2)
    by (auto simp: counts_def list_all_iff int_ranges MSEARCH_MAX_COUNT_def)
  define g where "g = G @ drop (length G) buf"
  have gv: "mpi_gatherv M bs counts (prefix_sums 0 counts) buf = g"
    using conforms_gatherv [OF conf, of bs buf] Gk kn bufl by (simp add: g_def counts_def G_def)
  have rec: "\<forall>j < k. record_ok p eps g j" using bG(1) Gk by (auto simp: g_def record_ok_append1 block_ok_def)
  obtain ms0 where ms0: "clear_matches p 0 ms = Some ms0" "length ms0 = length ms"
    using clear_matches_spec [OF np, of 0 ms] ms by auto
  obtain ms' where sc: "scatter p g 0 (4 * int k) ms0 = Some (None, ms')" "length ms' = length ms"
    "\<forall>x < length ms0. ms' ! x = (if \<exists>j < k. g ! (4 * j) = int x then canonical_match p eps (pictures p ! x) else ms0 ! x)"
    using scatter_spec [OF np _ rec, of 0 ms0] Gk ms0(2) ms by (auto simp: g_def)
  have "gather_records M p env rks ms = Some (None, ms')"
    using sb ds gv ms0(1) sc(1) fits conforms_gather [OF conf]
    by (simp add: gather_records_def sz counts_def [symmetric] buf_def [symmetric] Let_def)
  moreover have "ms' = map (canonical_match p eps) (pictures p)"
    if eq: "mset (concat (map block_indices bs)) = mset [0..num_pictures p - 1]"
  proof (rule nth_equalityI)
    show "length ms' = length (map (canonical_match p eps) (pictures p))" using sc(2) ms by simp
    fix x assume "x < length ms'"
    then have x: "x < length (pictures p)" using sc(2) ms by simp
    have "set (block_indices G) = set [0..num_pictures p - 1]" using mset_eq_setD [OF eq] bG(2) by simp
    with x np have "int x \<in> set (block_indices G)" by simp
    then obtain j where "j < k" "G ! (4 * j) = int x" by (auto simp: block_indices_def G_def k_def)
    then have "\<exists>j < k. g ! (4 * j) = int x" using Gk by (auto simp: g_def nth_append)
    with sc(3) x ms0(2) ms show "ms' ! x = map (canonical_match p eps) (pictures p) ! x" by simp
  qed
  ultimately show ?thesis using sc(2) by blast
qed

lemma mpi_inv_rank: "mpi_inv bk p eps ris s \<Longrightarrow> rk \<in> set (ranks s) \<Longrightarrow>
    \<exists>ri. rank_inv bk p eps ri (counter s) rk"
  by (auto simp: mpi_inv_def in_set_conv_nth)

text \<open>Once every rank has finished, what they hold is what they recorded.\<close>

lemma finished_held:
  assumes "all_finished s"
  shows "sum_list (map held_indices (ranks s)) = mset (concat (map recorded (ranks s)))"
proof -
  have "\<forall>rk \<in> set (ranks s). held_indices rk = mset (recorded rk)"
    using assms by (auto simp: all_finished_def list_all_iff held_indices_def in_work_def)
  then show ?thesis unfolding mset_concat_map by (metis (no_types, lifting) map_cong)
qed

lemma finished_counter:
  assumes "mpi_inv bk p eps ris s" "all_finished s" "no_failure s" "ris \<noteq> []"
  shows "num_pictures p \<le> counter s"
proof -
  have "ranks s \<noteq> []" using assms(1,4) by (auto simp: mpi_inv_def)
  then have hd: "hd (ranks s) \<in> set (ranks s)" by simp
  from mpi_inv_rank [OF assms(1) hd] obtain ri where "rank_inv bk p eps ri (counter s) (hd (ranks s))" by blast
  with hd assms(2,3) show ?thesis by (auto simp: rank_inv_def all_finished_def no_failure_def list_all_iff)
qed

lemma gather_finished:
  assumes job: "mpi_job p eps ris" and conf: "mpi_conforms M" and inv: "mpi_inv bk p eps ris s"
    and fin: "all_finished s" and ms: "length ms = length (pictures p)"
  shows "\<exists>ms'. gather_records M p env (ranks s) ms = Some (None, ms') \<and> length ms' = length ms \<and>
    (no_failure s \<longrightarrow> ms' = map (canonical_match p eps) (pictures p))"
proof -
  note jb = mpi_jobD [OF job]
  let ?held = "mset (concat (map recorded (ranks s)))" and ?cl = "mset [0..min (counter s) (num_pictures p) - 1]"
  have pok: "problem_ok p" "num_pictures p \<le> MSEARCH_MAX_COUNT" "ris \<noteq> []" using job by (simp_all add: mpi_job_def)
  have sub: "?held \<subseteq># ?cl" and eq: "no_failure s \<Longrightarrow> ?held = ?cl"
    using inv finished_held [OF fin] by (simp_all add: mpi_inv_def Let_def)
  have "?cl \<subseteq># mset [0..num_pictures p - 1]"
  proof -
    have "mset_set {0..min (counter s) (num_pictures p) - 1} \<subseteq># mset_set {0..num_pictures p - 1}"
      by (rule subset_imp_msubset_mset_set) auto
    then show ?thesis unfolding mset_set_set [OF distinct_upto, unfolded set_upto] .
  qed
  with sub have sub': "?held \<subseteq># mset [0..num_pictures p - 1]" by (rule subset_mset.order_trans)
  have cnt: "rk_count rk \<le> MSEARCH_MAX_COUNT" if "rk \<in> set (ranks s)" for rk
  proof -
    have "mset (recorded rk) \<subseteq># ?held" using that
      by (induction "ranks s") (auto simp: in_set_conv_decomp intro: subset_mset.add_increasing2)
    from this sub' have "mset (recorded rk) \<subseteq># mset [0..num_pictures p - 1]" by (rule subset_mset.order_trans)
    from size_mset_mono [OF this] have "nat (rk_count rk) \<le> nat (num_pictures p)" by (simp add: recorded_def)
    with pok(2) problem_okD(1) [OF pok(1)] show ?thesis by simp
  qed
  have ri: "\<exists>ri. rank_inv bk p eps ri (counter s) rk" if "rk \<in> set (ranks s)" for rk
    using mpi_inv_rank [OF inv that] .
  have sb: "sent_blocks (ranks s) = Some (map sent (ranks s))"
    using sent_block_spec cnt ri by (intro sent_blocks_spec) blast
  have ok: "\<forall>b \<in> set (map sent (ranks s)). block_ok p eps b" using ri sent_props(2) by fastforce
  have "map block_indices (map sent (ranks s)) = map recorded (ranks s)" using ri sent_props(3) by fastforce
  then have idx: "mset (concat (map block_indices (map sent (ranks s)))) = ?held" by (rule arg_cong [where f = "\<lambda>l. mset (concat l)"])
  from gather_blocks [OF conf pok(1,2) sb ok _ ms] sub' idx
  obtain ms' where g: "gather_records M p env (ranks s) ms = Some (None, ms')" "length ms' = length ms"
    "?held = mset [0..num_pictures p - 1] \<longrightarrow> ms' = map (canonical_match p eps) (pictures p)" by metis
  have "?held = mset [0..num_pictures p - 1]" if "no_failure s"
    using eq [OF that] finished_counter [OF inv fin that pok(3)] by (simp add: min_def)
  with g show ?thesis by blast
qed

section \<open>The end of the call\<close>

text \<open>What holds of a rank at its start and is kept by its own moves holds of it in every reachable state.\<close>

lemma reach_each_rank:
  assumes "mpi_reach M bk ris s"
    and start: "\<And>ri. ri \<in> set ris \<Longrightarrow> Q ri (rank_start bk ri)"
    and step: "\<And>ri cnt rk cnt' rk'. ri \<in> set ris \<Longrightarrow> Q ri rk \<Longrightarrow> rank_step M bk ri cnt rk = Some (cnt', rk') \<Longrightarrow> Q ri rk'"
  shows "list_all2 Q ris (ranks s)"
  using assms(1)
proof (induction rule: mpi_reach.induct)
  case at_start
  show ?case using start by (simp add: mpi_start_def list_all2_conv_all_nth)
next
  case (after_step s s')
  from after_step.hyps(2) obtain r cnt rk where mv: "s' = \<lparr>counter = cnt, ranks = (ranks s)[r := rk]\<rparr>"
    "r < length (ranks s)" "r < length ris" "rank_step M bk (ris ! r) (counter s) (ranks s ! r) = Some (cnt, rk)"
    by (rule mpi_stepE)
  have "Q (ris ! r) (ranks s ! r)" using after_step.IH mv(2) by (rule list_all2_nthD2)
  with step mv(3,4) have "Q (ris ! r) rk" by (meson nth_mem)
  with after_step.IH mv show ?case by (auto simp: list_all2_conv_all_nth nth_list_update)
qed

lemma rank_step_shell:
  "rank_step M bk ri cnt rk = Some (cnt', rk') \<Longrightarrow>
    rk_heap rk' = rk_heap rk \<and> rk_ctx rk' = rk_ctx rk \<and> (rk_records rk' = None) = (rk_records rk = None)"
  by (auto simp: rank_step_def split: claim_phase.splits prod.splits bind_splits if_splits)

lemma reach_shell:
  assumes "mpi_reach M bk ris s"
  shows "list_all2 (\<lambda>ri rk. rk_heap rk = rk_heap (rank_start bk ri) \<and> rk_ctx rk = rk_ctx (rank_start bk ri) \<and>
    (rk_records rk = None) = (rk_records (rank_start bk ri) = None)) ris (ranks s)"
  by (rule reach_each_rank [OF assms]) (auto dest: rank_step_shell)

lemma mem_free_live: "live (mem_free x h) = live h - (if x = None then 0 else 1)"
  by (cases x) (auto simp: mem_free_def)

lemma gather_buffers_live: "gather_buffers env np h = (ok, h', freed) \<Longrightarrow> live freed = live h"
  by (auto simp: gather_buffers_def mem_alloc_def mem_free_live Let_def split: if_splits)

context match_backend
begin

lemma start_balanced:
  assumes "live h = live (rk_heap (rank_start bk ri))"
    and "rk_ctx rk = rk_ctx (rank_start bk ri)" "(rk_records rk = None) = (rk_records (rank_start bk ri) = None)"
  shows "live (snd (snd (snd (rank_finish bk af st err rk h)))) = live (ri_heap ri)"
proof -
  obtain st' ctx err' lg h1 where c: "b_create bk (ri_pf ri) (ri_env ri) (ri_problem ri) (ri_cfg ri) (ri_err ri) (ri_heap ri) =
      (st', ctx, err', lg, h1)"
    by (cases "b_create bk (ri_pf ri) (ri_env ri) (ri_problem ri) (ri_cfg ri) (ri_err ri) (ri_heap ri)") auto
  have held: "live (rk_heap (rank_start bk ri)) = live h1 + (if rk_records (rank_start bk ri) = None then 0 else 1)"
    and ctx: "rk_ctx (rank_start bk ri) = ctx"
    using c by (auto simp: rank_start_def mem_alloc_def Let_def)
  show ?thesis
  proof (cases ctx)
    case None
    with c create_failed have "live h1 = live (ri_heap ri)" by blast
    with assms held ctx None show ?thesis by (simp add: rank_finish_def mem_free_live Let_def split_beta)
  next
    case (Some cx)
    with create_status [OF c] have "st' = MSEARCH_OK" by simp
    with c Some have "live (b_destroy bk (Some cx) h'') = live h'' - (live h1 - live (ri_heap ri))" for h''
      using destroy_balanced by blast
    with assms held ctx Some show ?thesis by (simp add: rank_finish_def mem_free_live Let_def split_beta)
  qed
qed

end

context reliable_backend
begin

lemma reach_status:
  assumes "mpi_reach M bk ris s"
  shows "list_all2 (\<lambda>ri rk. rk_status rk = rk_status (rank_start bk ri)) ris (ranks s)"
proof -
  let ?Q = "\<lambda>ri rk. rk_status rk = rk_status (rank_start bk ri) \<and> (rk_phase rk \<noteq> Finished \<longrightarrow> rk_status rk = MSEARCH_OK \<and>
    (\<exists>ctx err lg h. b_create bk (ri_pf ri) (ri_env ri) (ri_problem ri) (ri_cfg ri) (ri_err ri) (ri_heap ri) =
           (MSEARCH_OK, Some ctx, err, lg, h) \<and> rk_ctx rk = Some ctx))"
  have "list_all2 ?Q ris (ranks s)"
  proof (rule reach_each_rank [OF assms])
    fix ri assume "ri \<in> set ris"
    obtain st' ctx err' lg h1 where c: "b_create bk (ri_pf ri) (ri_env ri) (ri_problem ri) (ri_cfg ri) (ri_err ri) (ri_heap ri) =
        (st', ctx, err', lg, h1)"
      by (cases "b_create bk (ri_pf ri) (ri_env ri) (ri_problem ri) (ri_cfg ri) (ri_err ri) (ri_heap ri)") auto
    then show "?Q ri (rank_start bk ri)"
      using create_status [OF c] by (auto simp: rank_start_def mem_alloc_def Let_def)
  next
    fix ri cnt rk cnt' rk'
    assume Q: "?Q ri rk" and st: "rank_step M bk ri cnt rk = Some (cnt', rk')"
    show "?Q ri rk'"
    proof (cases "rk_phase rk")
      case (Searching i)
      with st obtain pic ctx st' mt err where s: "b_search bk ctx (ri_ws ri i) pic (rk_err rk) = Some (st', mt, err)"
        "rk_ctx rk = Some ctx" "load (pictures (ri_problem ri)) i = Some pic" by (auto simp: rank_step_def split: bind_splits)
      with Q Searching search_succeeds have "st' = MSEARCH_OK" by fastforce
      with Q st Searching s show ?thesis by (auto simp: rank_step_def split: bind_splits if_splits)
    qed (use Q st in \<open>auto simp: rank_step_def split: prod.splits if_splits\<close>)
  qed
  then show ?thesis by (rule list_all2_mono) auto
qed

end

lemma max_of_flags:
  fixes xs :: "cint list"
  assumes "xs \<noteq> []" "set xs \<subseteq> {0, 1}"
  shows "Max (set xs) = 0 \<longleftrightarrow> set xs = {0}"
proof -
  have "Max (set xs) \<in> set xs" using assms(1) by (intro Max_in) auto
  moreover have "x \<le> Max (set xs)" if "x \<in> set xs" for x using that by simp
  ultimately show ?thesis using assms by fastforce
qed

text \<open>The agreement: from the statuses before the reduction, all ranks end OK or none does.\<close>

lemma agreement:
  assumes conf: "mpi_conforms M" and sts: "sts \<noteq> []"
    and af: "af = allreduce_max M (map (\<lambda>st. if st \<noteq> MSEARCH_OK then 1 else 0) sts)"
  shows "af = 0 \<longleftrightarrow> (\<forall>st \<in> set sts. st = MSEARCH_OK)"
proof -
  let ?f = "\<lambda>st. if st \<noteq> MSEARCH_OK then 1 else 0 :: cint"
  have "af = Max (set (map ?f sts))" using conforms_allreduce [OF conf, of "map ?f sts"] sts af by simp
  also have "\<dots> = 0 \<longleftrightarrow> set (map ?f sts) = {0}" using sts by (intro max_of_flags) auto
  also have "\<dots> \<longleftrightarrow> (\<forall>st \<in> set sts. st = MSEARCH_OK)" using sts by (cases sts) (auto split: if_splits)
  finally show ?thesis .
qed

lemma rank_finish_status: "fst (rank_finish bk af st err rk h) = (if af \<noteq> 0 \<and> st = MSEARCH_OK then MSEARCH_ERR_BACKEND else st)"
  by (simp add: rank_finish_def Let_def split_beta)

lemma calls_match_ok: "calls_match True n"
  by (simp add: calls_match_def gather_calls_def list_all_iff)

context match_backend
begin

lemma finish_spec:
  assumes job: "mpi_job p eps ris" and conf: "mpi_conforms M" and reach: "mpi_reach M bk ris s"
    and fin: "all_finished s" and ms: "length ms = length (pictures p)"
    and buf: "fst (gather_buffers (ri_env (hd ris)) (num_pictures p) (rk_heap (rank_start bk (hd ris))))"
  shows "\<exists>outs ms'. mpi_finish M bk ris (ranks s) ms = Some (outs, ms') \<and> length outs = length ris \<and> length ms' = length ms \<and>
    map (live \<circ> snd \<circ> snd \<circ> snd) outs = map (live \<circ> ri_heap) ris \<and>
    (if no_failure s then list_all (\<lambda>out. fst out = MSEARCH_OK) outs \<and> ms' = map (canonical_match p eps) (pictures p)
     else list_all (\<lambda>out. fst out \<noteq> MSEARCH_OK) outs)"
proof -
  note jb = mpi_jobD [OF job] and shell = reach_shell [OF reach]
  note inv = reach_inv [OF reach job conf]
  have len: "length (ranks s) = length ris" using inv by (simp add: mpi_inv_def)
  obtain ri0 ris' where ris: "ris = ri0 # ris'" using job by (cases ris) (auto simp: mpi_job_def)
  with len obtain rk0 rks' where rks: "ranks s = rk0 # rks'" by (cases "ranks s") auto
  have p0: "ri_problem ri0 = p" using jb(6) ris by simp
  have sh0: "rk_heap rk0 = rk_heap (rank_start bk ri0)" "rk_ctx rk0 = rk_ctx (rank_start bk ri0)"
    "(rk_records rk0 = None) = (rk_records (rank_start bk ri0) = None)"
    using shell ris rks by auto
  obtain h' freed where gb: "gather_buffers (ri_env ri0) (num_pictures p) (rk_heap rk0) = (True, h', freed)"
    using buf ris sh0 by (cases "gather_buffers (ri_env ri0) (num_pictures p) (rk_heap rk0)") auto
  obtain ms' where g: "gather_records M p (ri_env ri0) (ranks s) ms = Some (None, ms')" "length ms' = length ms"
    "no_failure s \<longrightarrow> ms' = map (canonical_match p eps) (pictures p)"
    using gather_finished [OF job conf inv fin ms] by blast
  define af where "af = allreduce_max M (map (\<lambda>st. if st \<noteq> MSEARCH_OK then 1 else 0) (map rk_status (ranks s)))"
  let ?outs = "rank_finish bk af (rk_status rk0) (rk_err rk0) rk0 freed #
    map (\<lambda>rk. rank_finish bk af (rk_status rk) (rk_err rk) rk (rk_heap rk)) rks'"
  have af: "af = 0 \<longleftrightarrow> no_failure s"
    using agreement [OF conf _ af_def] rks by (auto simp: no_failure_def list_all_iff)
  have "mpi_finish M bk ris (ranks s) ms = Some (?outs, ms')"
    using g(1) unfolding mpi_finish_def af_def ris rks
    by (simp add: p0 gb calls_match_ok Let_def)
  moreover have "live (snd (snd (snd (rank_finish bk af (rk_status rk0) (rk_err rk0) rk0 freed)))) = live (ri_heap ri0)"
    using gather_buffers_live [OF gb] sh0 by (intro start_balanced) simp_all
  moreover have "map (live \<circ> snd \<circ> snd \<circ> snd) (map (\<lambda>rk. rank_finish bk af (rk_status rk) (rk_err rk) rk (rk_heap rk)) rks') =
    map (live \<circ> ri_heap) ris'"
  proof (rule nth_equalityI)
    fix i assume "i < length (map (live \<circ> snd \<circ> snd \<circ> snd) (map (\<lambda>rk. rank_finish bk af (rk_status rk) (rk_err rk) rk (rk_heap rk)) rks'))"
    then have i: "i < length rks'" "i < length ris'" using len ris rks by simp_all
    have "list_all2 (\<lambda>ri rk. rk_heap rk = rk_heap (rank_start bk ri) \<and> rk_ctx rk = rk_ctx (rank_start bk ri) \<and>
      (rk_records rk = None) = (rk_records (rank_start bk ri) = None)) ris' rks'"
      using shell ris rks by simp
    from list_all2_nthD2 [OF this i(1)] have "rk_heap (rks' ! i) = rk_heap (rank_start bk (ris' ! i)) \<and> rk_ctx (rks' ! i) = rk_ctx (rank_start bk (ris' ! i)) \<and>
      (rk_records (rks' ! i) = None) = (rk_records (rank_start bk (ris' ! i)) = None)" .
    with i show "map (live \<circ> snd \<circ> snd \<circ> snd) (map (\<lambda>rk. rank_finish bk af (rk_status rk) (rk_err rk) rk (rk_heap rk)) rks') ! i =
        map (live \<circ> ri_heap) ris' ! i"
      using start_balanced [of "rk_heap (rks' ! i)" "ris' ! i" "rks' ! i"] by simp
  qed (use len ris rks in simp)
  moreover have "if no_failure s then list_all (\<lambda>out. fst out = MSEARCH_OK) ?outs else list_all (\<lambda>out. fst out \<noteq> MSEARCH_OK) ?outs"
    using af rks by (auto simp: rank_finish_status no_failure_def list_all_iff)
  ultimately show ?thesis using g ris rks len by (intro exI [of _ ?outs] exI [of _ ms']) (cases "no_failure s"; simp)
qed

end

lemma reach_trans: "(mpi_step M bk ris)\<^sup>*\<^sup>* s s' \<Longrightarrow> mpi_reach M bk ris s \<Longrightarrow> mpi_reach M bk ris s'"
  by (induction rule: rtranclp_induct) (auto intro: after_step)

context match_backend
begin

lemma reach_finish:
  assumes "mpi_reach M bk ris s" "mpi_job p eps ris" "mpi_conforms M"
  shows "\<exists>s'. (mpi_step M bk ris)\<^sup>*\<^sup>* s s' \<and> all_finished s'"
  using assms(1)
proof (induction "claim_work p s" arbitrary: s rule: less_induct)
  case less
  show ?case
  proof (cases "all_finished s")
    case False
    from reach_progress [OF less.prems assms(2,3) False] obtain t where t: "mpi_step M bk ris s t" by blast
    from less.hyps [OF claim_work_decreases [OF t assms(2,3)] after_step [OF less.prems t]] t show ?thesis
      by (meson converse_rtranclp_into_rtranclp)
  qed blast
qed

end

section \<open>Properties\<close>

text \<open>A rank whose allocations before the claiming are all granted.\<close>

definition starts_ok :: "rank_in \<Rightarrow> bool" where
  "starts_ok ri \<longleftrightarrow> grants (ri_env ri) (requests (ri_heap ri)) \<and>
     (num_pictures (ri_problem ri) > 0 \<longrightarrow> grants (ri_env ri) (requests (ri_heap ri) + 1))"

lemma cpu_start_status:
  assumes "bk \<in> cpu_backends"
  shows "rk_status (rank_start bk ri) = MSEARCH_OK \<longleftrightarrow> starts_ok ri"
  using cpu_create [OF assms, of "ri_pf ri" "ri_env ri" "ri_problem ri" "ri_cfg ri" "ri_err ri" "ri_heap ri"]
  by (cases "grants (ri_env ri) (requests (ri_heap ri))"; cases "grants (ri_env ri) (Suc (requests (ri_heap ri)))")
    (auto simp: starts_ok_def rank_start_def mem_alloc_def Let_def)

lemma cpu_no_failure:
  assumes "bk \<in> cpu_backends" "mpi_reach M bk ris s"
  shows "no_failure s \<longleftrightarrow> list_all starts_ok ris"
proof -
  have "list_all2 (\<lambda>ri rk. rk_status rk = rk_status (rank_start bk ri)) ris (ranks s)"
    using assms serial.reach_status openmp.reach_status by (auto simp: cpu_backends_def)
  then show ?thesis
    unfolding no_failure_def by (induction rule: list_all2_induct) (simp_all add: cpu_start_status [OF assms(1)])
qed

definition gather_room :: "MatchBackend \<Rightarrow> rank_in list \<Rightarrow> bool" where
  "gather_room bk ris = fst (gather_buffers (ri_env (hd ris)) (num_pictures (ri_problem (hd ris))) (rk_heap (rank_start bk (hd ris))))"

lemma gather_room_granted: "\<forall>k. grants (ri_env (hd ris)) k \<Longrightarrow> gather_room bk ris"
  by (simp add: gather_room_def gather_buffers_def mem_alloc_def Let_def)

context match_backend
begin

lemma finish_no_room:
  assumes "mpi_job p eps ris" "mpi_conforms M" "2 \<le> length ris" "mpi_reach M bk ris s" "\<not> gather_room bk ris"
  shows "mpi_finish M bk ris (ranks s) ms = None"
proof -
  have len: "length (ranks s) = length ris" using reach_inv [OF assms(4,1,2)] by (simp add: mpi_inv_def)
  with assms(3) obtain rk0 rks' ri0 ris' where c: "ranks s = rk0 # rks'" "ris = ri0 # ris'" by (cases "ranks s"; cases ris) auto
  with reach_shell [OF assms(4)] have h0: "rk_heap (hd (ranks s)) = rk_heap (rank_start bk (hd ris))" by simp
  have "\<not> calls_match False (length (ranks s))"
    using len assms(3) by (auto simp: calls_match_def gather_calls_def list_all_iff intro!: bexI [of _ 1])
  moreover obtain h' freed where
    "gather_buffers (ri_env (hd ris)) (num_pictures (ri_problem (hd ris))) (rk_heap (hd (ranks s))) = (False, h', freed)"
    using assms(5) h0 by (cases "gather_buffers (ri_env (hd ris)) (num_pictures (ri_problem (hd ris))) (rk_heap (hd (ranks s)))")
      (simp add: gather_room_def)
  ultimately show ?thesis by (simp add: mpi_finish_def Let_def)
qed

lemma run_mpi_any_backend:
  assumes job: "mpi_job p eps ris" and conf: "mpi_conforms M" and two: "2 \<le> length ris" and run: "mpi_reach M bk ris s" "all_finished s"
    and ms: "length ms = length (pictures p)"
  shows "if gather_room bk ris
    then \<exists>outs ms'. msearch_run_mpi M bk ris ms s = Some (outs, ms') \<and> length outs = length ris \<and> length ms' = length ms \<and>
      map (live \<circ> snd \<circ> snd \<circ> snd) outs = map (live \<circ> ri_heap) ris \<and>
      (if no_failure s then list_all (\<lambda>out. fst out = MSEARCH_OK) outs \<and> ms' = map (canonical_match p eps) (pictures p)
       else list_all (\<lambda>out. fst out \<noteq> MSEARCH_OK) outs)
    else msearch_run_mpi M bk ris ms s = None"
proof -
  have "msearch_run_mpi M bk ris ms s = mpi_finish M bk ris (ranks s) ms" using two by (simp add: msearch_run_mpi_def)
  moreover have "ri_problem (hd ris) = p" using mpi_jobD(6) [OF job] two by (cases ris) auto
  ultimately show ?thesis
    using finish_spec [OF job conf run ms] finish_no_room [OF job conf two run(1)] by (simp add: gather_room_def)
qed

end

lemma cpu_match_backend: "bk \<in> cpu_backends \<Longrightarrow> match_backend bk"
  using serial.match_backend_axioms openmp.match_backend_axioms by (auto simp: cpu_backends_def)

text \<open>C10: The distributed run, with any backend of any build (the CUDA one with whatever failures of its
  calls included), for every number of ranks from two on, every interleaving of their claims and every
  schedule inside each search. Once the claiming is over: unless rank 0's gather buffers are refused, when the
  run has no defined result (C32), the collectives end it without undefined behaviour, every rank
  gives back all it allocated, and either no rank's search or allocation has failed, all ranks report
  success and rank 0's array holds the canonical match of every picture in input order, as after a local
  run, or none of them reports success. With a CPU backend no rank fails exactly when each rank's
  allocations before the claiming were granted.\<close>

theorem run_mpi_correct:
  assumes "bk \<in> set (kBackends bld)" "devices_ok bld" "mpi_conforms M" "mpi_job p eps ris" "2 \<le> length ris"
    and "mpi_reach M bk ris s" "all_finished s" "length ms = length (pictures p)"
  shows "(if gather_room bk ris
    then \<exists>outs ms'. msearch_run_mpi M bk ris ms s = Some (outs, ms') \<and> length outs = length ris \<and> length ms' = length ms \<and>
      map (live \<circ> snd \<circ> snd \<circ> snd) outs = map (live \<circ> ri_heap) ris \<and>
      (if no_failure s then list_all (\<lambda>out. fst out = MSEARCH_OK) outs \<and> ms' = map (canonical_match p eps) (pictures p)
       else list_all (\<lambda>out. fst out \<noteq> MSEARCH_OK) outs)
    else msearch_run_mpi M bk ris ms s = None) \<and>
    (bk \<in> {msearch_backend_serial, msearch_backend_openmp} \<longrightarrow> (no_failure s \<longleftrightarrow> list_all starts_ok ris))"
  using match_backend.run_mpi_any_backend [OF registry_match_backend [OF assms(1,2)] assms(4,3,5-8)]
    cpu_no_failure [OF _ assms(6)] unfolding cpu_backends_def by blast

text \<open>Two ranks on the one-picture problem.\<close>

definition two_ranks :: "rank_in list" where
  "two_ranks = replicate 2
     \<lparr>ri_pf = \<lparr>omp_num_threads_set = False, omp_max_threads = 8\<rparr>, ri_env = granting,
      ri_ws = (\<lambda>i. \<lparr>w_team = (\<lambda>_. 3), w_sched = (\<lambda>_ t. t * t), w_stale = (\<lambda>_ _. 0), w_cuda = (\<lambda>_ _. None)\<rparr>), ri_problem = tiny_problem,
      ri_cfg = msearch_config_defaults, ri_err = None, ri_heap = \<lparr>requests = 0, live = 0\<rparr>\<rparr>"

lemma two_ranks_job: "mpi_job tiny_problem MSEARCH_DEFAULT_ZERO_EPS two_ranks"
  using tiny_problem_ok eps_ok_default
  by (simp add: mpi_job_def two_ranks_def numeral_2_eq_2 msearch_config_defaults_def tiny_problem_def MSEARCH_MAX_COUNT_def)

lemma two_ranks_finish:
  "\<exists>s. mpi_reach plain_mpi msearch_backend_openmp two_ranks s \<and> all_finished s"
  using openmp.reach_finish [OF at_start two_ranks_job plain_mpi_conforms] reach_trans at_start by metis

lemma two_ranks_room: "gather_room msearch_backend_openmp two_ranks" "list_all starts_ok two_ranks"
  by (simp_all add: gather_room_def gather_buffers_def two_ranks_def numeral_2_eq_2 granting_def mem_alloc_def Let_def starts_ok_def)

theorem run_mpi_correct_witness:
  "\<exists>s outs ms'. mpi_reach plain_mpi msearch_backend_openmp two_ranks s \<and>
     msearch_run_mpi plain_mpi msearch_backend_openmp two_ranks [msearch_match_none 0] s = Some (outs, ms') \<and>
     list_all (\<lambda>out. fst out = MSEARCH_OK) outs \<and> map (live \<circ> snd \<circ> snd \<circ> snd) outs = [0, 0] \<and>
     ms' = canonical_matches tiny_problem msearch_config_defaults"
proof -
  obtain s where s: "mpi_reach plain_mpi msearch_backend_openmp two_ranks s" "all_finished s"
    using two_ranks_finish by blast
  have a: "msearch_backend_openmp \<in> set (kBackends \<lparr>have_cuda = None, have_openmp = True\<rparr>)" "devices_ok \<lparr>have_cuda = None, have_openmp = True\<rparr>"
    "2 \<le> length two_ranks" "length [msearch_match_none 0] = length (pictures tiny_problem)"
    by (simp_all add: kBackends_def devices_ok_def two_ranks_def tiny_problem_def)
  have "map (live \<circ> ri_heap) two_ranks = [0, 0]" by (simp add: two_ranks_def numeral_2_eq_2)
  moreover have "c_zero_eps msearch_config_defaults = MSEARCH_DEFAULT_ZERO_EPS" by (simp add: msearch_config_defaults_def)
  ultimately show ?thesis
    using run_mpi_correct [OF a(1,2) plain_mpi_conforms two_ranks_job a(3) s a(4)] s(1) two_ranks_room
    by (auto simp: canonical_matches_def)
qed

lemma distinct_submset:
  assumes "mset xs \<subseteq># mset ys" "distinct ys"
  shows "distinct xs"
proof -
  obtain zs where "mset ys = mset (xs @ zs)"
    using assms(1) ex_mset by (metis mset_append subset_mset.le_iff_add)
  with assms(2) have "distinct (xs @ zs)" using mset_eq_imp_distinct_iff by blast
  then show ?thesis by simp
qed

text \<open>C26: In every state the claiming can reach, with any backend of any build, whatever of its calls fail, no picture is held by two ranks or twice by one: the indices
  recorded and the ones being searched are pairwise different and all below the counter, and as long as
  no rank has failed they are exactly the indices the counter has passed.\<close>

theorem claims_exclusive:
  assumes "bk \<in> set (kBackends bld)" "devices_ok bld" "mpi_conforms M" "mpi_job p eps ris" "mpi_reach M bk ris s"
  shows "distinct (concat (map (\<lambda>rk. recorded rk @ in_work rk) (ranks s))) \<and>
    (\<forall>i \<in> set (concat (map (\<lambda>rk. recorded rk @ in_work rk) (ranks s))). 0 \<le> i \<and> i < min (counter s) (num_pictures p)) \<and>
    (no_failure s \<longrightarrow> set (concat (map (\<lambda>rk. recorded rk @ in_work rk) (ranks s))) = {0..<min (counter s) (num_pictures p)})"
proof -
  let ?held = "concat (map (\<lambda>rk. recorded rk @ in_work rk) (ranks s))" and ?n = "min (counter s) (num_pictures p)"
  have "mpi_inv bk p eps ris s"
    by (rule match_backend.reach_inv [OF registry_match_backend [OF assms(1,2)] assms(5,4,3)])
  moreover have "sum_list (map held_indices (ranks s)) = mset ?held"
    unfolding mset_concat_map held_indices_def by simp
  ultimately have sub: "mset ?held \<subseteq># mset [0..?n - 1]" and eq: "no_failure s \<Longrightarrow> mset ?held = mset [0..?n - 1]"
    by (simp_all add: mpi_inv_def Let_def)
  have "distinct ?held" by (rule distinct_submset [OF sub distinct_upto])
  moreover have "set ?held \<subseteq> set [0..?n - 1]" using set_mset_mono [OF sub] unfolding set_mset_mset .
  moreover have "set ?held = set [0..?n - 1]" if "no_failure s" using mset_eq_setD [OF eq [OF that]] .
  moreover have "set [0..?n - 1] = {0..<?n}" by auto
  ultimately show ?thesis by fastforce
qed

theorem claims_exclusive_witness:
  "\<exists>s. mpi_reach plain_mpi msearch_backend_openmp two_ranks s \<and> all_finished s \<and>
    distinct (concat (map (\<lambda>rk. recorded rk @ in_work rk) (ranks s)))"
proof -
  obtain s where s: "mpi_reach plain_mpi msearch_backend_openmp two_ranks s" "all_finished s"
    using two_ranks_finish by blast
  with claims_exclusive [where bld = "\<lparr>have_cuda = None, have_openmp = True\<rparr>", OF _ _ plain_mpi_conforms two_ranks_job s(1)] show ?thesis
    by (auto simp: kBackends_def devices_ok_def)
qed

text \<open>C27: The claiming ends: whatever the backend does and however the ranks interleave, a run has at most
  three actions per picture and one per rank.\<close>

theorem claiming_terminates:
  assumes "mpi_conforms M" "mpi_job p eps ris" "(mpi_step M bk ris ^^ n) (mpi_start bk ris) s"
  shows "n \<le> 3 * length (pictures p) + length ris"
proof -
  have "sum_list (map (\<lambda>ri. phase_work (rk_phase (rank_start bk ri))) ris) \<le> length ris"
  proof (induction ris)
    case (Cons ri ris)
    moreover have "phase_work (rk_phase (rank_start bk ri)) \<le> 1"
      by (auto simp: rank_start_def Let_def split: prod.splits)
    ultimately show ?case by simp
  qed simp
  then have "claim_work p (mpi_start bk ris) \<le> 3 * length (pictures p) + length ris"
    using mpi_jobD(3) [OF assms(2)] by (simp add: claim_work_def mpi_start_def comp_def)
  with claim_work_steps [OF assms(3,2,1)] show ?thesis by simp
qed

theorem claiming_terminates_witness:
  "\<exists>n s. (mpi_step plain_mpi msearch_backend_openmp two_ranks ^^ n) (mpi_start msearch_backend_openmp two_ranks) s \<and>
    all_finished s \<and> n \<le> 5"
proof -
  obtain s where s: "(mpi_step plain_mpi msearch_backend_openmp two_ranks)\<^sup>*\<^sup>* (mpi_start msearch_backend_openmp two_ranks) s"
    "all_finished s"
    using openmp.reach_finish [OF at_start two_ranks_job plain_mpi_conforms] by blast
  obtain n where n: "(mpi_step plain_mpi msearch_backend_openmp two_ranks ^^ n) (mpi_start msearch_backend_openmp two_ranks) s"
    using rtranclp_imp_relpowp [OF s(1)] by blast
  have "n \<le> 5" using claiming_terminates [OF plain_mpi_conforms two_ranks_job n]
    by (simp add: two_ranks_def tiny_problem_def)
  with n s(2) show ?thesis by blast
qed

text \<open>C28: The claiming never gets stuck, with any backend of any build, whatever of its calls fail: in every
  reachable state the next action of a rank that has not finished is defined (no record is written
  outside its buffer, every search ends without undefined behaviour), and from every reachable state
  a state in which all ranks have finished can be reached.\<close>

theorem claiming_never_stuck:
  assumes "bk \<in> set (kBackends bld)" "devices_ok bld" "mpi_conforms M" "mpi_job p eps ris" "mpi_reach M bk ris s"
  shows "(\<forall>r < length ris. rk_phase (ranks s ! r) \<noteq> Finished \<longrightarrow>
      rank_step M bk (ris ! r) (counter s) (ranks s ! r) \<noteq> None) \<and>
    (\<exists>s'. (mpi_step M bk ris)\<^sup>*\<^sup>* s s' \<and> all_finished s')"
proof -
  have bk: "match_backend bk" by (rule registry_match_backend [OF assms(1,2)])
  have inv: "mpi_inv bk p eps ris s" by (rule match_backend.reach_inv [OF bk assms(5,4,3)])
  have "rank_step M bk (ris ! r) (counter s) (ranks s ! r) \<noteq> None"
    if r: "r < length ris" "rk_phase (ranks s ! r) \<noteq> Finished" for r
    using match_backend.rank_step_inv [OF bk assms(4,3) inv r] by (metis option.distinct(1))
  with match_backend.reach_finish [OF bk assms(5,4,3)] show ?thesis by blast
qed

theorem claiming_never_stuck_witness:
  "\<exists>s'. (mpi_step plain_mpi msearch_backend_serial two_ranks)\<^sup>*\<^sup>* (mpi_start msearch_backend_serial two_ranks) s' \<and> all_finished s'"
  using claiming_never_stuck [where bld = "\<lparr>have_cuda = None, have_openmp = True\<rparr>", OF _ _ plain_mpi_conforms two_ranks_job at_start]
  by (simp add: kBackends_def devices_ok_def)

text \<open>C32: When one of rank 0's gather buffers is refused, rank 0 leaves \<open>gather_records\<close> before
  \<open>MPI_Gather\<close> and \<open>MPI_Gatherv\<close> and goes on to \<open>MPI_Allreduce\<close> while every other rank waits in the
  gather: with two or more ranks the collective calls do not match and the run has no defined result,
  against the comment that every rank still reaches the collectives.\<close>

theorem gather_refusal_diverges:
  assumes "2 \<le> length ris" "length (ranks s) = length ris"
    and "\<not> fst (gather_buffers (ri_env (hd ris)) (num_pictures (ri_problem (hd ris))) (rk_heap (hd (ranks s))))"
  shows "msearch_run_mpi M bk ris ms s = None"
proof -
  obtain h' f where "gather_buffers (ri_env (hd ris)) (num_pictures (ri_problem (hd ris))) (rk_heap (hd (ranks s))) = (False, h', f)"
    using assms(3) by (metis (full_types) fst_conv prod_cases3)
  moreover have "\<not> calls_match False (length (ranks s))"
    using assms(1,2) by (auto simp: calls_match_def gather_calls_def list_all_iff intro!: bexI [of _ 1])
  ultimately show ?thesis using assms(1) by (simp add: msearch_run_mpi_def mpi_finish_def)
qed

definition third_refused :: "rank_in list" where
  "third_refused = map (\<lambda>ri. ri\<lparr>ri_env := \<lparr>grants = (\<lambda>i. i < 2), junk = (\<lambda>_. 0)\<rparr>\<rparr>) two_ranks"

theorem gather_refusal_diverges_witness:
  "list_all starts_ok third_refused \<and>
   msearch_run_mpi plain_mpi msearch_backend_serial third_refused [] (mpi_start msearch_backend_serial third_refused) = None"
proof -
  have st: "list_all starts_ok third_refused"
    by (simp add: third_refused_def two_ranks_def starts_ok_def numeral_2_eq_2)
  have "2 \<le> length third_refused" by (simp add: third_refused_def two_ranks_def)
  moreover have "length (ranks (mpi_start msearch_backend_serial third_refused)) = length third_refused"
    by (simp add: mpi_start_def)
  moreover have "\<not> fst (gather_buffers (ri_env (hd third_refused)) (num_pictures (ri_problem (hd third_refused)))
      (rk_heap (hd (ranks (mpi_start msearch_backend_serial third_refused)))))"
    by (simp add: third_refused_def two_ranks_def mpi_start_def numeral_2_eq_2 rank_start_def msearch_backend_serial_def
        serial_create_def mem_alloc_def gather_buffers_def tiny_problem_def Let_def)
  ultimately show ?thesis using gather_refusal_diverges st by blast
qed

end
