(* ===== verification/Broadcast.thy ===== *)
theory Broadcast
  imports Registry Parser MPI_Library
begin

text \<open>
  \<open>msearch_broadcast_problem\<close> of \<open>src/runtime/runner_mpi.c\<close>: rank 0's problem is replicated on every
  rank by a sequence of \<open>MPI_Bcast\<close> calls. One definition serves both roles, as in the source. A
  \<open>bc_link\<close> is what the library does for one rank: whether its call number \<open>k\<close> succeeds and, off the
  root, what that call delivers. The theorem is that a rank whose calls deliver what the root's calls
  sent ends with the root's problem.
\<close>

section \<open>Broadcast calls\<close>

record bc_link =
  lk_root :: bool
  lk_ok :: "nat \<Rightarrow> bool"
  lk_data :: "nat \<Rightarrow> payload"

text \<open>
  Every rank must pass the root's count and type; anything else is undefined. The trace lists the
  buffers of the calls made so far, on the root what it sent.
\<close>

fun same_shape :: "payload \<Rightarrow> payload \<Rightarrow> bool" where
  "same_shape (PInts xs) (PInts ys) = (length xs = length ys)"
| "same_shape (PDbl x) (PDbl y) = True"
| "same_shape _ _ = False"

definition bcast_or_fail ::
  "bc_link \<Rightarrow> payload \<Rightarrow> string \<Rightarrow> payload list \<Rightarrow> errbuf \<Rightarrow> (Status \<times> payload \<times> payload list \<times> errbuf) option" where
  "bcast_or_fail lk buf what tr err =
     (if \<not> lk_ok lk (length tr)
      then Some (MSEARCH_ERR_BACKEND, buf, tr, msearch_set_err err (''MPI_Bcast('' @ what @ '') failed''))
      else if lk_root lk then Some (MSEARCH_OK, buf, tr @ [buf], err)
      else if same_shape (lk_data lk (length tr)) buf
      then Some (MSEARCH_OK, lk_data lk (length tr), tr @ [lk_data lk (length tr)], err)
      else None)"

text \<open>The two instances of the buffer: the first \<open>cnt\<close> elements of an \<open>int\<close> array, one \<open>double\<close>.\<close>

definition bcast_ints ::
  "bc_link \<Rightarrow> cint list \<Rightarrow> cint \<Rightarrow> string \<Rightarrow> payload list \<Rightarrow> errbuf \<Rightarrow>
    (Status \<times> cint list \<times> payload list \<times> errbuf) option" where
  "bcast_ints lk xs cnt what tr err =
     (if 0 \<le> cnt \<and> cnt \<le> int (length xs) then do {
        (st, d, tr', err') \<leftarrow> bcast_or_fail lk (PInts (take (nat cnt) xs)) what tr err;
        case d of PInts ys \<Rightarrow> Some (st, ys @ drop (nat cnt) xs, tr', err') | PDbl _ \<Rightarrow> None
      } else None)"

definition bcast_double ::
  "bc_link \<Rightarrow> dbl \<Rightarrow> string \<Rightarrow> payload list \<Rightarrow> errbuf \<Rightarrow> (Status \<times> dbl \<times> payload list \<times> errbuf) option" where
  "bcast_double lk x what tr err = do {
     (st, d, tr', err') \<leftarrow> bcast_or_fail lk (PDbl x) what tr err;
     case d of PDbl y \<Rightarrow> Some (st, y, tr', err') | PInts _ \<Rightarrow> None
   }"

section \<open>Shapes\<close>

text \<open>
  The root packs the ids and sizes. An index that overflowed \<open>int\<close> would lie outside the array, which
  \<open>store\<close> refuses.
\<close>

function pack_pictures :: "Picture list \<Rightarrow> cint \<Rightarrow> cint \<Rightarrow> cint list \<Rightarrow> cint list option" where
  "pack_pictures ps i np shapes =
     (if i < np then do {
        q \<leftarrow> load ps i;
        s1 \<leftarrow> store shapes (2 * i) (p_id q);
        s2 \<leftarrow> store s1 (2 * i + 1) (p_n q);
        pack_pictures ps (i + 1) np s2
      } else Some shapes)"
  by pat_completeness auto
termination
  by (relation "measure (\<lambda>(ps, i, np, shapes). nat (np - i))") auto

function pack_objects :: "Object list \<Rightarrow> cint \<Rightarrow> cint \<Rightarrow> cint \<Rightarrow> cint list \<Rightarrow> cint list option" where
  "pack_objects os k np no shapes =
     (if k < no then do {
        q \<leftarrow> load os k;
        let base = 2 * (np + k);
        s1 \<leftarrow> store shapes base (o_id q);
        s2 \<leftarrow> store s1 (base + 1) (o_m q);
        pack_objects os (k + 1) np no s2
      } else Some shapes)"
  by pat_completeness auto
termination
  by (relation "measure (\<lambda>(os, k, np, no, shapes). nat (no - k))") auto

declare pack_pictures.simps [simp del] pack_objects.simps [simp del]

section \<open>Matrices\<close>

type_synonym bc_result = "Status \<times> Problem \<times> payload list \<times> errbuf \<times> heap"

function bcast_pictures ::
  "bc_link \<Rightarrow> env \<Rightarrow> cint list \<Rightarrow> Problem \<Rightarrow> cint \<Rightarrow> cint \<Rightarrow> payload list \<Rightarrow> errbuf \<Rightarrow> heap \<Rightarrow> bc_result option" where
  "bcast_pictures lk env shapes p i np tr err h =
     (if i < np then do {
        q0 \<leftarrow> load (pictures p) i;
        (st, q1, err1, h1) \<leftarrow>
          (if lk_root lk then Some (MSEARCH_OK, q0, err, h)
           else do {
             pid \<leftarrow> load shapes (2 * i);
             n \<leftarrow> load shapes (2 * i + 1);
             Some (msearch_picture_alloc env q0 pid n err h)
           });
        ps1 \<leftarrow> store (pictures p) i q1;
        if st \<noteq> MSEARCH_OK then Some (st, p\<lparr>pictures := ps1\<rparr>, tr, err1, h1)
        else do {
          cnt \<leftarrow> chk32 (p_n q1 * p_n q1);
          data \<leftarrow> p_data q1;
          (st, data', tr', err2) \<leftarrow> bcast_ints lk data cnt ''picture data'' tr err1;
          ps2 \<leftarrow> store ps1 i (q1\<lparr>p_data := Some data'\<rparr>);
          if st \<noteq> MSEARCH_OK then Some (st, p\<lparr>pictures := ps2\<rparr>, tr', err2, h1)
          else bcast_pictures lk env shapes (p\<lparr>pictures := ps2\<rparr>) (i + 1) np tr' err2 h1
        }
      } else Some (MSEARCH_OK, p, tr, err, h))"
  by pat_completeness auto
termination
  by (relation "measure (\<lambda>(lk, env, shapes, p, i, np, tr, err, h). nat (np - i))") auto

function bcast_objects ::
  "bc_link \<Rightarrow> env \<Rightarrow> cint list \<Rightarrow> Problem \<Rightarrow> cint \<Rightarrow> cint \<Rightarrow> cint \<Rightarrow> payload list \<Rightarrow> errbuf \<Rightarrow> heap \<Rightarrow> bc_result option" where
  "bcast_objects lk env shapes p k np no tr err h =
     (if k < no then do {
        q0 \<leftarrow> load (objects p) k;
        let base = 2 * (np + k);
        (st, q1, err1, h1) \<leftarrow>
          (if lk_root lk then Some (MSEARCH_OK, q0, err, h)
           else do {
             oid \<leftarrow> load shapes base;
             m \<leftarrow> load shapes (base + 1);
             Some (msearch_object_alloc env q0 oid m err h)
           });
        os1 \<leftarrow> store (objects p) k q1;
        if st \<noteq> MSEARCH_OK then Some (st, p\<lparr>objects := os1\<rparr>, tr, err1, h1)
        else do {
          cnt \<leftarrow> chk32 (o_m q1 * o_m q1);
          data \<leftarrow> o_data q1;
          (st, data', tr', err2) \<leftarrow> bcast_ints lk data cnt ''object data'' tr err1;
          os2 \<leftarrow> store os1 k (q1\<lparr>o_data := Some data'\<rparr>);
          if st \<noteq> MSEARCH_OK then Some (st, p\<lparr>objects := os2\<rparr>, tr', err2, h1)
          else bcast_objects lk env shapes (p\<lparr>objects := os2\<rparr>) (k + 1) np no tr' err2 h1
        }
      } else Some (MSEARCH_OK, p, tr, err, h))"
  by pat_completeness auto
termination
  by (relation "measure (\<lambda>(lk, env, shapes, p, k, np, no, tr, err, h). nat (no - k))") auto

declare bcast_pictures.simps [simp del] bcast_objects.simps [simp del]

section \<open>The function\<close>

type_synonym bc_outcome = "Status \<times> Problem \<times> payload list \<times> errbuf \<times> log_event list \<times> heap"

text \<open>From the broadcast of the shapes to the label \<open>done\<close>; \<open>shapes\<close> is freed by the caller.\<close>

definition bcast_body ::
  "bc_link \<Rightarrow> env \<Rightarrow> Problem \<Rightarrow> cint \<Rightarrow> cint \<Rightarrow> cint list \<Rightarrow> cint \<Rightarrow> payload list \<Rightarrow> errbuf \<Rightarrow> heap \<Rightarrow> bc_outcome option" where
  "bcast_body lk env p np no shapes cnt tr err h = do {
     (st, shapes', tr1, err1) \<leftarrow> bcast_ints lk shapes cnt ''shapes'' tr err;
     if st \<noteq> MSEARCH_OK then Some (st, p, tr1, err1, [], h)
     else do {
       (st, p1, tr2, err2, h1) \<leftarrow> bcast_pictures lk env shapes' p 0 np tr1 err1 h;
       if st \<noteq> MSEARCH_OK then Some (st, p1, tr2, err2, [], h1)
       else do {
         (st, p2, tr3, err3, h2) \<leftarrow> bcast_objects lk env shapes' p1 0 np no tr2 err2 h1;
         if st \<noteq> MSEARCH_OK \<or> lk_root lk then Some (st, p2, tr3, err3, [], h2)
         else do {
           (st, p3, err4, lg) \<leftarrow> msearch_problem_validate p2 err3;
           Some (st, p3, tr3, err4, lg, h2)
         }
       }
     }
   }"

definition msearch_broadcast_problem ::
  "bc_link \<Rightarrow> env \<Rightarrow> Problem \<Rightarrow> errbuf \<Rightarrow> heap \<Rightarrow> bc_outcome option" where
  "msearch_broadcast_problem lk env p err h = do {
     (st, header, tr1, err1) \<leftarrow> bcast_ints lk [num_pictures p, num_objects p] 2 ''header'' [] err;
     if st \<noteq> MSEARCH_OK then Some (st, p, tr1, err1, [], h)
     else do {
       (st, thr, tr2, err2) \<leftarrow> bcast_double lk (threshold p) ''threshold'' tr1 err1;
       let p1 = p\<lparr>threshold := thr\<rparr>;
       if st \<noteq> MSEARCH_OK then Some (st, p1, tr2, err2, [], h)
       else do {
         np \<leftarrow> load header 0;
         no \<leftarrow> load header 1;
         let (st, p2, err3, h1) = (if lk_root lk then (MSEARCH_OK, p1, err2, h) else msearch_problem_alloc env p1 np no err2 h);
         if st \<noteq> MSEARCH_OK then Some (st, p2, tr2, err3, [], h1)
         else do {
           total \<leftarrow> chk32 (np + no);
           cnt \<leftarrow> chk32 (total * 2);
           let (ok, h2) = (if cnt > 0 then mem_alloc env h1 else (True, h1));
           if \<not> ok then Some (MSEARCH_ERR_NOMEM, p2, tr2, msearch_set_err err3 ''cannot allocate shape buffer'', [], h2)
           else do {
             let shapes = map (junk env) [0..<nat cnt];
             shapes' \<leftarrow> (if lk_root lk then do {
                 s1 \<leftarrow> pack_pictures (pictures p2) 0 np shapes;
                 pack_objects (objects p2) 0 np no s1
               } else Some shapes);
             (st, p3, tr3, err4, lg, h3) \<leftarrow> bcast_body lk env p2 np no shapes' cnt tr2 err3 h2;
             Some (st, p3, tr3, err4, lg, mem_free (if cnt > 0 then Some () else None) h3)
           }
         }
       }
     }
   }"

section \<open>What the calls carry\<close>

definition pair_up :: "('a \<Rightarrow> cint) \<Rightarrow> ('a \<Rightarrow> cint) \<Rightarrow> 'a list \<Rightarrow> cint list" where
  "pair_up f g xs = concat (map (\<lambda>x. [f x, g x]) xs)"

lemma pair_up_length [simp]: "length (pair_up f g xs) = 2 * length xs"
  by (induction xs) (simp_all add: pair_up_def)

lemma pair_up_nth: "i < length xs \<Longrightarrow> pair_up f g xs ! (2 * i) = f (xs ! i) \<and> pair_up f g xs ! Suc (2 * i) = g (xs ! i)"
proof (induction xs arbitrary: i)
  case (Cons x xs)
  then show ?case by (cases i) (simp_all add: pair_up_def)
qed simp

lemma pair_up_drop: "i < length xs \<Longrightarrow> pair_up f g (drop i xs) = f (xs ! i) # g (xs ! i) # pair_up f g (drop (Suc i) xs)"
  by (simp add: pair_up_def Cons_nth_drop_Suc [symmetric])

definition problem_shapes :: "Problem \<Rightarrow> cint list" where
  "problem_shapes p = pair_up p_id p_n (pictures p) @ pair_up o_id o_m (objects p)"

definition bcast_trace :: "Problem \<Rightarrow> payload list" where
  "bcast_trace p =
     [PInts [num_pictures p, num_objects p], PDbl (threshold p), PInts (problem_shapes p)] @
     map (\<lambda>q. PInts (the (p_data q))) (pictures p) @ map (\<lambda>q. PInts (the (o_data q))) (objects p)"

lemma two_stores:
  assumes "2 * i + 1 < length xs"
  shows "(xs[2 * i := a])[Suc (2 * i) := b] = take (2 * i) xs @ a # b # drop (2 * Suc i) xs"
  using assms by (simp add: upd_conv_take_nth_drop nth_append take_Suc_conv_app_nth Cons_nth_drop_Suc)

lemma step_end: "i < n \<Longrightarrow> Suc (Suc (2 * n - 2)) = 2 * n"
  by simp

lemma step_end2: "k < n \<Longrightarrow> Suc (Suc (2 * n + 2 * m - 2)) = 2 * m + 2 * n"
  by simp

lemma pack_pictures_spec:
  "i \<le> length ps \<Longrightarrow> 2 * length ps \<le> length shapes \<Longrightarrow>
    pack_pictures ps (int i) (int (length ps)) shapes =
      Some (take (2 * i) shapes @ pair_up p_id p_n (drop i ps) @ drop (2 * length ps) shapes)"
proof (induction i arbitrary: shapes rule: inc_induct)
  case base
  then show ?case by (subst pack_pictures.simps) (simp add: pair_up_def)
next
  case (step i)
  let ?q = "ps ! i"
  have idx: "nat (2 * int i) = 2 * i" "nat (2 * int i + 1) = Suc (2 * i)" by simp_all
  have st1: "store shapes (2 * int i) (p_id ?q) = Some (shapes[2 * i := p_id ?q])"
    using step(2) step.prems by (simp add: store_def idx)
  have st2: "store (shapes[2 * i := p_id ?q]) (2 * int i + 1) (p_n ?q) = Some ((shapes[2 * i := p_id ?q])[Suc (2 * i) := p_n ?q])"
    using step(2) step.prems by (simp add: store_def idx)
  have room: "2 * i + 1 < length shapes" using step(2) step.prems by simp
  have "pack_pictures ps (int i) (int (length ps)) shapes =
      pack_pictures ps (int (Suc i)) (int (length ps)) ((shapes[2 * i := p_id ?q])[Suc (2 * i) := p_n ?q])"
    using step(2) st1 st2 by (subst pack_pictures.simps) (simp add: add.commute [of "int i"])
  also have "\<dots> = Some (take (2 * Suc i) ((shapes[2 * i := p_id ?q])[Suc (2 * i) := p_n ?q]) @
      pair_up p_id p_n (drop (Suc i) ps) @ drop (2 * length ps) ((shapes[2 * i := p_id ?q])[Suc (2 * i) := p_n ?q]))"
    using step(3) [of "(shapes[2 * i := p_id ?q])[Suc (2 * i) := p_n ?q]"] step.prems by simp
  finally show ?case using room step(2) pair_up_drop [OF step(2), of p_id p_n]
    by (simp add: two_stores drop_Cons' step_end)
qed

lemma pack_objects_spec:
  "k \<le> length os \<Longrightarrow> 2 * (n + length os) \<le> length shapes \<Longrightarrow>
    pack_objects os (int k) (int n) (int (length os)) shapes =
      Some (take (2 * (n + k)) shapes @ pair_up o_id o_m (drop k os) @ drop (2 * (n + length os)) shapes)"
proof (induction k arbitrary: shapes rule: inc_induct)
  case base
  then show ?case by (subst pack_objects.simps) (simp add: pair_up_def)
next
  case (step k)
  let ?q = "os ! k" and ?b = "2 * (n + k)"
  have idx: "2 * (int n + int k) = int ?b" "2 * (int n + int k) + 1 = int (Suc ?b)" by simp_all
  have st1: "store shapes (2 * (int n + int k)) (o_id ?q) = Some (shapes[?b := o_id ?q])"
    unfolding idx store_def nat_int using step(2) step.prems by simp
  have st2: "store (shapes[?b := o_id ?q]) (2 * (int n + int k) + 1) (o_m ?q) = Some ((shapes[?b := o_id ?q])[Suc ?b := o_m ?q])"
    unfolding idx(2) store_def nat_int using step(2) step.prems by simp
  have room: "2 * (n + k) + 1 < length shapes" using step(2) step.prems by simp
  let ?s = "(shapes[?b := o_id ?q])[Suc ?b := o_m ?q]"
  have "pack_objects os (int k) (int n) (int (length os)) shapes = pack_objects os (int (Suc k)) (int n) (int (length os)) ?s"
    using step(2) st1 st2 by (subst pack_objects.simps) (simp add: Let_def add.commute [of "int k"])
  also have "\<dots> = Some (take (2 * (n + Suc k)) ?s @ pair_up o_id o_m (drop (Suc k) os) @ drop (2 * (n + length os)) ?s)"
    using step(3) [of ?s] step.prems by simp
  also have "?s = take ?b shapes @ o_id ?q # o_m ?q # drop (2 * Suc (n + k)) shapes"
    by (rule two_stores [OF room])
  finally show ?case using room step(2) pair_up_drop [OF step(2), of o_id o_m]
    by (simp add: drop_Cons' step_end step_end2)
qed

section \<open>One call\<close>

text \<open>The calls of a rank deliver what the root's calls, whose trace is \<open>T\<close>, sent.\<close>

definition delivers :: "bc_link \<Rightarrow> payload list \<Rightarrow> bool" where
  "delivers lk T \<longleftrightarrow> (\<not> lk_root lk \<longrightarrow> (\<forall>k < length T. lk_data lk k = T ! k))"

definition bc_fault :: "string \<Rightarrow> errbuf \<Rightarrow> errbuf" where
  "bc_fault what err = msearch_set_err err (''MPI_Bcast('' @ what @ '') failed'')"

lemma bcast_ints_spec:
  assumes "delivers lk T" "length tr < length T" "T ! length tr = PInts ys" "length xs = length ys" "lk_root lk \<longrightarrow> xs = ys"
  shows "bcast_ints lk xs (int (length ys)) what tr err =
    Some (if lk_ok lk (length tr) then (MSEARCH_OK, ys, tr @ [PInts ys], err)
          else (MSEARCH_ERR_BACKEND, xs, tr, bc_fault what err))"
  using assms by (auto simp: bcast_ints_def bcast_or_fail_def delivers_def bc_fault_def)

lemma bcast_double_spec:
  assumes "delivers lk T" "length tr < length T" "T ! length tr = PDbl y" "lk_root lk \<longrightarrow> x = y"
  shows "bcast_double lk x what tr err =
    Some (if lk_ok lk (length tr) then (MSEARCH_OK, y, tr @ [PDbl y], err)
          else (MSEARCH_ERR_BACKEND, x, tr, bc_fault what err))"
  using assms by (auto simp: bcast_double_def bcast_or_fail_def delivers_def bc_fault_def)

section \<open>The loops\<close>

lemma alloc_matrix_side:
  assumes "0 < n" "n \<le> MSEARCH_MAX_SIDE"
  shows "\<exists>e. alloc_matrix env d n what pid err h =
    (if grants env (requests h)
     then (MSEARCH_OK, Some (map (junk env) [0..<nat (n * n)]), err, h\<lparr>requests := requests h + 1, live := live h + 1\<rparr>)
     else (MSEARCH_ERR_NOMEM, None, e, h\<lparr>requests := requests h + 1\<rparr>))"
proof -
  have "n * n \<le> 46340 * 46340" using assms by (intro mult_mono) (auto simp: MSEARCH_MAX_SIDE_def)
  then have "size_t (size_t n * size_t n) = n * n" using assms by (simp add: MSEARCH_MAX_SIDE_def)
  then show ?thesis using assms by (auto simp: alloc_matrix_def mem_alloc_def Let_def)
qed

definition start_pics :: "bc_link \<Rightarrow> Problem \<Rightarrow> nat \<Rightarrow> Picture list" where
  "start_pics lk p i =
     (if lk_root lk then pictures p else take i (pictures p) @ replicate (length (pictures p) - i) picture_zero)"

definition start_objs :: "bc_link \<Rightarrow> Problem \<Rightarrow> nat \<Rightarrow> Object list" where
  "start_objs lk p k =
     (if lk_root lk then objects p else take k (objects p) @ replicate (length (objects p) - k) object_zero)"

definition loop_outcome :: "bc_link \<Rightarrow> env \<Rightarrow> Problem \<Rightarrow> payload list \<Rightarrow> nat \<Rightarrow> heap \<Rightarrow> bc_result \<Rightarrow> bool" where
  "loop_outcome lk env q T m h r \<longleftrightarrow>
     (case r of (st, q', tr', err', h') \<Rightarrow>
        (st = MSEARCH_OK \<longrightarrow> q' = q \<and> tr' = T \<and> live h' = live h + (if lk_root lk then 0 else int m)) \<and>
        ((\<forall>k. lk_ok lk k) \<and> (\<forall>k. grants env k) \<longrightarrow> st = MSEARCH_OK))"

lemma replace_next:
  "i < length xs \<Longrightarrow> (take i xs @ replicate (length xs - i) z)[i := xs ! i] = take (Suc i) xs @ replicate (length xs - Suc i) z"
  by (simp add: list_update_append take_Suc_conv_app_nth Suc_diff_Suc [symmetric])

lemma start_pics_step: "i < length (pictures p) \<Longrightarrow> (start_pics lk p i)[i := pictures p ! i] = start_pics lk p (Suc i)"
  by (simp add: start_pics_def replace_next)

lemma start_objs_step: "i < length (objects p) \<Longrightarrow> (start_objs lk p i)[i := objects p ! i] = start_objs lk p (Suc i)"
  by (simp add: start_objs_def replace_next)

lemma problem_shapes_nth:
  "i < length (pictures p) \<Longrightarrow> problem_shapes p ! (2 * i) = p_id (pictures p ! i) \<and>
    problem_shapes p ! Suc (2 * i) = p_n (pictures p ! i)"
  "k < length (objects p) \<Longrightarrow> problem_shapes p ! (2 * (length (pictures p) + k)) = o_id (objects p ! k) \<and>
    problem_shapes p ! Suc (2 * (length (pictures p) + k)) = o_m (objects p ! k)"
  using pair_up_nth [of i "pictures p" p_id p_n] pair_up_nth [of k "objects p" o_id o_m]
  by (simp_all add: problem_shapes_def nth_append)

lemma bcast_trace_nth:
  "i < length (pictures p) \<Longrightarrow> bcast_trace p ! (3 + i) = PInts (the (p_data (pictures p ! i)))"
  "k < length (objects p) \<Longrightarrow> bcast_trace p ! (3 + length (pictures p) + k) = PInts (the (o_data (objects p ! k)))"
  by (simp_all add: bcast_trace_def nth_append)

lemma bcast_trace_length: "length (bcast_trace p) = 3 + length (pictures p) + length (objects p)"
  by (simp add: bcast_trace_def)

lemma bcast_pictures_spec:
  assumes p: "problem_ok p" and dl: "delivers lk (bcast_trace p)"
  shows "i \<le> length (pictures p) \<Longrightarrow> pictures q = start_pics lk p i \<Longrightarrow>
    \<exists>r. bcast_pictures lk env (problem_shapes p) q (int i) (num_pictures p) (take (3 + i) (bcast_trace p)) err h = Some r \<and>
      loop_outcome lk env (q\<lparr>pictures := pictures p\<rparr>) (take (3 + length (pictures p)) (bcast_trace p)) (length (pictures p) - i) h r"
proof (induction i arbitrary: q err h rule: inc_induct)
  case base
  then show ?case using problem_okD(1) [OF p]
    by (subst bcast_pictures.simps) (auto simp: loop_outcome_def start_pics_def)
next
  case (step i)
  define P where "P = pictures p ! i"
  define T where "T = bcast_trace p"
  have P: "picture_ok P" using p step(2) by (simp add: problem_ok_def list_all_length P_def)
  then obtain d where d: "p_data P = Some d" "int (length d) = p_n P * p_n P" "0 < p_n P" "p_n P \<le> 46340"
    by (auto simp: picture_ok_def elim: matrix_okE)
  have side: "p_n P \<le> MSEARCH_MAX_SIDE" using d by (simp add: MSEARCH_MAX_SIDE_def)
  have sq: "int32 (p_n P * p_n P)" using max_side_square [OF d(3)] side mult_pos_pos [OF d(3) d(3)] by (simp add: int_ranges)
  have np: "int i < num_pictures p" using step(2) problem_okD(1) [OF p] by simp
  have len: "i < length (pictures q)" using step.prems step(2) by (simp add: start_pics_def)
  have shp: "load (problem_shapes p) (2 * int i) = Some (p_id P)" "load (problem_shapes p) (2 * int i + 1) = Some (p_n P)"
    using problem_shapes_nth(1) [OF step(2)] step(2)
    by (simp_all add: load_def problem_shapes_def P_def nat_add_distrib nat_mult_distrib)
  have q0: "pictures q ! i = (if lk_root lk then P else picture_zero)"
    using step.prems step(2) by (simp add: start_pics_def P_def nth_append)
  obtain e where al: "alloc_matrix env None (p_n P) ''picture'' (p_id P) err h =
    (if grants env (requests h)
     then (MSEARCH_OK, Some (map (junk env) [0..<nat (p_n P * p_n P)]), err, h\<lparr>requests := requests h + 1, live := live h + 1\<rparr>)
     else (MSEARCH_ERR_NOMEM, None, e, h\<lparr>requests := requests h + 1\<rparr>))"
    using alloc_matrix_side [OF d(3) side] by metis
  show ?case
  proof (cases "lk_root lk \<or> grants env (requests h)")
    case False
    then show ?thesis using len shp al q0 np
      by (subst bcast_pictures.simps) (auto simp: loop_outcome_def msearch_picture_alloc_def picture_zero_def)
  next
    case True
    define h1 where "h1 = (if lk_root lk then h else h\<lparr>requests := requests h + 1, live := live h + 1\<rparr>)"
    define d0 where "d0 = (if lk_root lk then d else map (junk env) [0..<nat (p_n P * p_n P)])"
    define q1 where "q1 = P\<lparr>p_data := Some d0\<rparr>"
    have l0: "length d0 = length d" using d by (simp add: d0_def) (metis nat_int)
    have trl: "length (take (3 + i) T) = 3 + i" using step(2) by (simp add: T_def bcast_trace_length)
    have bc: "bcast_ints lk d0 (p_n P * p_n P) ''picture data'' (take (3 + i) T) err =
      Some (if lk_ok lk (3 + i) then (MSEARCH_OK, d, take (3 + Suc i) T, err)
            else (MSEARCH_ERR_BACKEND, d0, take (3 + i) T, bc_fault ''picture data'' err))"
    proof -
      have "T ! (3 + i) = PInts d" using bcast_trace_nth(1) [OF step(2)] d(1) by (simp add: T_def P_def)
      moreover have b: "3 + i < length T" using step(2) by (simp add: T_def bcast_trace_length)
      moreover have "take (3 + Suc i) T = take (3 + i) T @ [T ! (3 + i)]"
        using take_Suc_conv_app_nth [OF b] by simp
      ultimately show ?thesis
        using bcast_ints_spec [OF dl, of "take (3 + i) T" d d0 "''picture data''" err] trl l0 d(2)
        by (simp add: T_def [symmetric] d0_def)
    qed
    have alloc: "(if lk_root lk then Some (MSEARCH_OK, pictures q ! i, err, h)
        else do { pid \<leftarrow> load (problem_shapes p) (2 * int i); n \<leftarrow> load (problem_shapes p) (2 * int i + 1);
             Some (msearch_picture_alloc env (pictures q ! i) pid n err h) }) = Some (MSEARCH_OK, q1, err, h1)"
      using True shp al q0 d(1)
      by (auto simp: msearch_picture_alloc_def picture_zero_def q1_def d0_def h1_def)
    have upd: "q1\<lparr>p_data := Some d\<rparr> = P" using d(1) by (simp add: q1_def)
    show ?thesis
    proof (cases "lk_ok lk (3 + i)")
      case False
      then show ?thesis using np len alloc bc sq
        by (subst bcast_pictures.simps) (auto simp: loop_outcome_def T_def q1_def)
    next
      case ok: True
      have "bcast_pictures lk env (problem_shapes p) q (int i) (num_pictures p) (take (3 + i) T) err h =
        bcast_pictures lk env (problem_shapes p) (q\<lparr>pictures := (pictures q)[i := P]\<rparr>) (int (Suc i)) (num_pictures p) (take (3 + Suc i) T) err h1"
        using np len alloc bc sq ok upd
        by (subst bcast_pictures.simps) (simp add: q1_def add.commute [of 1 "int i"])
      moreover have "(pictures q)[i := P] = start_pics lk p (Suc i)"
        using step.prems start_pics_step [OF step(2)] by (simp add: P_def)
      ultimately show ?thesis
        using step(3) [of "q\<lparr>pictures := start_pics lk p (Suc i)\<rparr>" err h1] step(2)
        by (auto simp: T_def loop_outcome_def h1_def Suc_diff_Suc)
    qed
  qed
qed

lemma bcast_objects_spec:
  assumes p: "problem_ok p" and dl: "delivers lk (bcast_trace p)" and n: "n = length (pictures p)"
  shows "k \<le> length (objects p) \<Longrightarrow> objects q = start_objs lk p k \<Longrightarrow>
    \<exists>r. bcast_objects lk env (problem_shapes p) q (int k) (int n) (num_objects p) (take (3 + n + k) (bcast_trace p)) err h = Some r \<and>
      loop_outcome lk env (q\<lparr>objects := objects p\<rparr>) (bcast_trace p) (length (objects p) - k) h r"
proof (induction k arbitrary: q err h rule: inc_induct)
  case base
  then show ?case using problem_okD(2) [OF p] n
    by (subst bcast_objects.simps) (auto simp: loop_outcome_def start_objs_def bcast_trace_length)
next
  case (step k)
  define P where "P = objects p ! k"
  define T where "T = bcast_trace p"
  have P: "object_ok P" using p step(2) by (simp add: problem_ok_def list_all_length P_def)
  then obtain d where d: "o_data P = Some d" "int (length d) = o_m P * o_m P" "0 < o_m P" "o_m P \<le> 46340"
    by (auto simp: object_ok_def elim: matrix_okE)
  have side: "o_m P \<le> MSEARCH_MAX_SIDE" using d by (simp add: MSEARCH_MAX_SIDE_def)
  have sq: "int32 (o_m P * o_m P)" using max_side_square [OF d(3)] side mult_pos_pos [OF d(3) d(3)] by (simp add: int_ranges)
  have no: "int k < num_objects p" using step(2) problem_okD(2) [OF p] by simp
  have len: "k < length (objects q)" using step.prems step(2) by (simp add: start_objs_def)
  have idx: "2 * (int n + int k) = int (2 * (n + k))" "int (2 * (n + k)) + 1 = int (Suc (2 * (n + k)))" by simp_all
  have bound: "Suc (2 * (n + k)) < length (problem_shapes p)" using step(2) n by (simp add: problem_shapes_def)
  have l: "load (problem_shapes p) (int (2 * (n + k))) = Some (problem_shapes p ! (2 * (n + k)))"
    "load (problem_shapes p) (int (Suc (2 * (n + k)))) = Some (problem_shapes p ! Suc (2 * (n + k)))"
    by (rule load_nat, use bound in simp)+
  have shp: "load (problem_shapes p) (2 * (int n + int k)) = Some (o_id P)"
    "load (problem_shapes p) (2 * (int n + int k) + 1) = Some (o_m P)"
    unfolding idx l using problem_shapes_nth(2) [OF step(2)] by (simp_all add: n P_def)
  have q0: "objects q ! k = (if lk_root lk then P else object_zero)"
    using step.prems step(2) by (simp add: start_objs_def P_def nth_append)
  obtain e where al: "alloc_matrix env None (o_m P) ''object'' (o_id P) err h =
    (if grants env (requests h)
     then (MSEARCH_OK, Some (map (junk env) [0..<nat (o_m P * o_m P)]), err, h\<lparr>requests := requests h + 1, live := live h + 1\<rparr>)
     else (MSEARCH_ERR_NOMEM, None, e, h\<lparr>requests := requests h + 1\<rparr>))"
    using alloc_matrix_side [OF d(3) side] by metis
  show ?case
  proof (cases "lk_root lk \<or> grants env (requests h)")
    case False
    then show ?thesis using len shp al q0 no
      by (subst bcast_objects.simps) (auto simp: loop_outcome_def msearch_object_alloc_def object_zero_def Let_def)
  next
    case True
    define h1 where "h1 = (if lk_root lk then h else h\<lparr>requests := requests h + 1, live := live h + 1\<rparr>)"
    define d0 where "d0 = (if lk_root lk then d else map (junk env) [0..<nat (o_m P * o_m P)])"
    define q1 where "q1 = P\<lparr>o_data := Some d0\<rparr>"
    have l0: "length d0 = length d" using d by (simp add: d0_def) (metis nat_int)
    have trl: "length (take (3 + n + k) T) = 3 + n + k" using step(2) n by (simp add: T_def bcast_trace_length)
    have bc: "bcast_ints lk d0 (o_m P * o_m P) ''object data'' (take (3 + n + k) T) err =
      Some (if lk_ok lk (3 + n + k) then (MSEARCH_OK, d, take (3 + n + Suc k) T, err)
            else (MSEARCH_ERR_BACKEND, d0, take (3 + n + k) T, bc_fault ''object data'' err))"
    proof -
      have "T ! (3 + n + k) = PInts d" using bcast_trace_nth(2) [OF step(2)] d(1) n by (simp add: T_def P_def)
      moreover have b: "3 + n + k < length T" using step(2) n by (simp add: T_def bcast_trace_length)
      moreover have "take (3 + n + Suc k) T = take (3 + n + k) T @ [T ! (3 + n + k)]"
        using take_Suc_conv_app_nth [OF b] by simp
      ultimately show ?thesis
        using bcast_ints_spec [OF dl, of "take (3 + n + k) T" d d0 "''object data''" err] trl l0 d(2)
        by (simp add: T_def [symmetric] d0_def)
    qed
    have al2: "msearch_object_alloc env object_zero (o_id P) (o_m P) err h = (MSEARCH_OK, q1, err, h1)" if "\<not> lk_root lk"
      using that True al by (simp add: msearch_object_alloc_def object_zero_def q1_def d0_def h1_def)
    have rt: "objects q ! k = q1" "h1 = h" if "lk_root lk"
      using that d(1) q0 by (simp_all add: q1_def d0_def h1_def)
    have lf: "objects q ! k = object_zero" if "\<not> lk_root lk" using that q0 by simp
    have f: "o_data q1 = Some d0" "o_m q1 = o_m P" by (simp_all add: q1_def)
    note shp' = shp [unfolded distrib_left]
    have upd: "q1\<lparr>o_data := Some d\<rparr> = P" using d(1) by (simp add: q1_def)
    show ?thesis
    proof (cases "lk_ok lk (3 + n + k)")
      case False
      have "bcast_objects lk env (problem_shapes p) q (int k) (int n) (num_objects p) (take (3 + n + k) T) err h =
        Some (MSEARCH_ERR_BACKEND, q\<lparr>objects := (objects q)[k := q1\<lparr>o_data := Some d0\<rparr>]\<rparr>, take (3 + n + k) T,
          bc_fault ''object data'' err, h1)"
        using no len bc sq shp' al2 rt lf f False
        by (subst bcast_objects.simps, cases "lk_root lk") (simp_all add: Let_def)
      with False show ?thesis by (auto simp: T_def loop_outcome_def)
    next
      case ok: True
      have "bcast_objects lk env (problem_shapes p) q (int k) (int n) (num_objects p) (take (3 + n + k) T) err h =
        bcast_objects lk env (problem_shapes p) (q\<lparr>objects := (objects q)[k := P]\<rparr>) (int (Suc k)) (int n) (num_objects p) (take (3 + n + Suc k) T) err h1"
        using no len bc sq shp' al2 rt lf f ok upd
        by (subst bcast_objects.simps, cases "lk_root lk") (simp_all add: Let_def add.commute [of 1 "int k"])
      moreover have "(objects q)[k := P] = start_objs lk p (Suc k)"
        using step.prems start_objs_step [OF step(2)] by (simp add: P_def)
      moreover have "live h1 + (if lk_root lk then 0 else int (length (objects p) - Suc k)) =
          live h + (if lk_root lk then 0 else int (length (objects p) - k))"
        using step(2) by (simp add: h1_def)
      moreover obtain r where "bcast_objects lk env (problem_shapes p) (q\<lparr>objects := start_objs lk p (Suc k)\<rparr>) (int (Suc k)) (int n)
          (num_objects p) (take (3 + n + Suc k) T) err h1 = Some r"
        "loop_outcome lk env (q\<lparr>objects := objects p\<rparr>) T (length (objects p) - Suc k) h1 r"
        using step(3) [of "q\<lparr>objects := start_objs lk p (Suc k)\<rparr>" err h1] by (auto simp: T_def)
      ultimately show ?thesis by (auto simp: T_def [symmetric] loop_outcome_def)
    qed
  qed
qed

section \<open>The whole broadcast\<close>

lemma problem_validate_again:
  assumes "problem_ok p"
  shows "\<exists>lg. msearch_problem_validate p err = Some (MSEARCH_OK, p, err, lg)"
proof -
  have a: "arrays_ok p" using assms by (simp add: problem_ok_def)
  have pics: "0 < p_n q \<and> p_data q \<noteq> None \<and> p_n q * p_n q \<le> INT_MAX \<and> int32 (p_n q)" if "q \<in> set (pictures p)" for q
  proof -
    have "picture_ok q" using assms that by (simp add: problem_ok_def list_all_iff)
    then obtain d where d: "p_data q = Some d" "0 < p_n q" "p_n q \<le> 46340" by (auto simp: picture_ok_def elim: matrix_okE)
    then show ?thesis using max_side_square [OF d(2)] by (simp add: MSEARCH_MAX_SIDE_def int_ranges)
  qed
  have objs: "0 < o_m q \<and> o_data q \<noteq> None" if "q \<in> set (objects p)" for q
    using assms that by (auto simp: problem_ok_def list_all_iff object_ok_def matrix_ok_def split: option.splits)
  have "first_fault picture_fault (pictures p) = None" "first_fault object_fault (objects p) = None"
    using pics objs by (simp_all add: first_fault_picture_None first_fault_object_None)
  then have "validation_fault p = None" using assms by (simp add: validation_fault_def problem_ok_def)
  moreover have "sort_key o_id (objects p) = objects p"
    using assms by (intro properties_for_sort_key) (auto simp: problem_ok_def)
  ultimately show ?thesis using validate_cases [OF a, of err] pics by simp
qed

definition body_outcome :: "bc_link \<Rightarrow> env \<Rightarrow> Problem \<Rightarrow> nat \<Rightarrow> heap \<Rightarrow> bc_outcome \<Rightarrow> bool" where
  "body_outcome lk env p m h r \<longleftrightarrow>
     (case r of (st, q', tr', err', lg, h') \<Rightarrow>
        (st = MSEARCH_OK \<longrightarrow> q' = p \<and> tr' = bcast_trace p \<and> live h' = live h + (if lk_root lk then 0 else int m)) \<and>
        ((\<forall>k. lk_ok lk k) \<and> (\<forall>k. grants env k) \<longrightarrow> st = MSEARCH_OK))"

lemma bcast_body_spec:
  assumes p: "problem_ok p" and dl: "delivers lk (bcast_trace p)"
    and q: "q = p\<lparr>pictures := start_pics lk p 0, objects := start_objs lk p 0\<rparr>"
    and sh: "length shapes = length (problem_shapes p)" "lk_root lk \<longrightarrow> shapes = problem_shapes p"
  shows "\<exists>r. bcast_body lk env q (num_pictures p) (num_objects p) shapes (int (length (problem_shapes p)))
      (take 2 (bcast_trace p)) err h = Some r \<and>
    body_outcome lk env p (length (pictures p) + length (objects p)) h r"
proof -
  let ?T = "bcast_trace p" and ?n = "length (pictures p)"
  have np: "num_pictures p = int ?n" using problem_okD(1) [OF p] .
  have T2: "?T ! 2 = PInts (problem_shapes p)" "take 2 ?T @ [PInts (problem_shapes p)] = take 3 ?T" "length (take 2 ?T) = 2" "2 < length ?T"
    by (simp_all add: bcast_trace_def)
  have bc: "bcast_ints lk shapes (int (length (problem_shapes p))) ''shapes'' (take 2 ?T) err =
    Some (if lk_ok lk 2 then (MSEARCH_OK, problem_shapes p, take 3 ?T, err)
          else (MSEARCH_ERR_BACKEND, shapes, take 2 ?T, bc_fault ''shapes'' err))"
    using bcast_ints_spec [OF dl, of "take 2 ?T" "problem_shapes p" shapes "''shapes''" err] T2 sh by simp
  show ?thesis
  proof (cases "lk_ok lk 2")
    case False
    then show ?thesis using bc by (auto simp: bcast_body_def body_outcome_def)
  next
    case ok: True
    obtain st1 q1 tr1 err1 h1 where pics:
      "bcast_pictures lk env (problem_shapes p) q 0 (num_pictures p) (take 3 ?T) err h = Some (st1, q1, tr1, err1, h1)"
      "loop_outcome lk env (q\<lparr>pictures := pictures p\<rparr>) (take (3 + ?n) ?T) ?n h (st1, q1, tr1, err1, h1)"
      using bcast_pictures_spec [OF p dl, of 0 q env err h] q by auto
    show ?thesis
    proof (cases "st1 = MSEARCH_OK")
      case False
      then show ?thesis using bc ok pics by (auto simp: bcast_body_def body_outcome_def loop_outcome_def)
    next
      case st1: True
      then have q1: "q1 = p\<lparr>objects := start_objs lk p 0\<rparr>" "tr1 = take (3 + ?n + 0) ?T"
        "live h1 = live h + (if lk_root lk then 0 else int ?n)"
        using pics(2) q by (auto simp: loop_outcome_def)
      obtain st2 q2 tr2 err2 h2 where objs:
        "bcast_objects lk env (problem_shapes p) q1 0 (num_pictures p) (num_objects p) tr1 err1 h1 = Some (st2, q2, tr2, err2, h2)"
        "loop_outcome lk env p ?T (length (objects p)) h1 (st2, q2, tr2, err2, h2)"
        using bcast_objects_spec [OF p dl refl, of 0 q1 env err1 h1] q1 np by auto
      obtain lg where v: "msearch_problem_validate p err2 = Some (MSEARCH_OK, p, err2, lg)"
        using problem_validate_again [OF p] by blast
      have b: "bcast_body lk env q (num_pictures p) (num_objects p) shapes (int (length (problem_shapes p))) (take 2 ?T) err h =
        (if st2 \<noteq> MSEARCH_OK \<or> lk_root lk then Some (st2, q2, tr2, err2, [], h2) else Some (MSEARCH_OK, p, tr2, err2, lg, h2))"
        using bc ok pics(1) st1 objs v by (auto simp: bcast_body_def loop_outcome_def)
      show ?thesis unfolding b using objs(2) pics(2) q1(3) st1 by (auto simp: body_outcome_def loop_outcome_def)
    qed
  qed
qed

lemma held_problem_ok:
  assumes "problem_ok p"
  shows "held p = int (length (pictures p)) + (if pictures p = [] then 0 else 1) +
    int (length (objects p)) + (if objects p = [] then 0 else 1)"
proof -
  have "held_pictures ps = int (length ps)" if "list_all picture_ok ps" for ps
    using that by (induction ps) (auto simp: held_pictures_def picture_ok_def matrix_ok_def split: option.splits)
  moreover have "held_objects qs = int (length qs)" if "list_all object_ok qs" for qs
    using that by (induction qs) (auto simp: held_objects_def object_ok_def matrix_ok_def split: option.splits)
  ultimately show ?thesis using assms by (simp add: held_def problem_ok_def)
qed

lemma broadcast_spec:
  assumes p: "problem_ok p" "num_pictures p \<le> MSEARCH_MAX_COUNT" "num_objects p \<le> MSEARCH_MAX_COUNT"
    and dl: "delivers lk (bcast_trace p)" and q: "q = (if lk_root lk then p else msearch_problem_init)"
  shows "\<exists>st p' tr err' lg h'. msearch_broadcast_problem lk env q err h = Some (st, p', tr, err', lg, h') \<and>
    (st = MSEARCH_OK \<longrightarrow> p' = p \<and> tr = bcast_trace p \<and> live h' = live h + (if lk_root lk then 0 else held p)) \<and>
    ((\<forall>k. lk_ok lk k) \<and> (\<forall>k. grants env k) \<longrightarrow> st = MSEARCH_OK)"
    (is "?goal (msearch_broadcast_problem lk env q err h)")
proof -
  let ?T = "bcast_trace p" and ?np = "num_pictures p" and ?no = "num_objects p"
  note np = problem_okD(1) [OF p(1)] and no = problem_okD(2) [OF p(1)]
  have T: "?T ! 0 = PInts [?np, ?no]" "?T ! 1 = PDbl (threshold p)" "[PInts [?np, ?no]] = take 1 ?T"
    "take 1 ?T @ [PDbl (threshold p)] = take 2 ?T" "2 < length ?T" "?T \<noteq> []"
    by (simp_all add: bcast_trace_def)
  have qr: "lk_root lk \<longrightarrow> q = p" using q by simp
  have hd: "bcast_ints lk [num_pictures q, num_objects q] 2 ''header'' [] err =
    Some (if lk_ok lk 0 then (MSEARCH_OK, [?np, ?no], take 1 ?T, err)
          else (MSEARCH_ERR_BACKEND, [num_pictures q, num_objects q], [], bc_fault ''header'' err))"
    using bcast_ints_spec [OF dl, of "[]" "[?np, ?no]" "[num_pictures q, num_objects q]" "''header''" err] T(1,3,6) qr by simp
  have th: "bcast_double lk (threshold q) ''threshold'' (take 1 ?T) e =
    Some (if lk_ok lk 1 then (MSEARCH_OK, threshold p, take 2 ?T, e)
          else (MSEARCH_ERR_BACKEND, threshold q, take 1 ?T, bc_fault ''threshold'' e))" for e
    using bcast_double_spec [OF dl, of "take 1 ?T" "threshold p" "threshold q" "''threshold''" e] T(2,4,5) qr by simp
  note th = th [unfolded One_nat_def] and hd = hd [unfolded One_nat_def]
  show ?thesis
  proof (cases "lk_ok lk 0 \<and> lk_ok lk 1")
    case False
    then have "\<exists>p' tr e. msearch_broadcast_problem lk env q err h = Some (MSEARCH_ERR_BACKEND, p', tr, e, [], h)"
      unfolding msearch_broadcast_problem_def hd by (cases "lk_ok lk 0") (simp_all add: th)
    with False show ?thesis by auto
  next
    case ok: True
    define q1 where "q1 = q\<lparr>threshold := threshold p\<rparr>"
    obtain st2 q2 e2 h1 where al: "(if lk_root lk then (MSEARCH_OK, q1, err, h) else msearch_problem_alloc env q1 ?np ?no err h) =
        (st2, q2, e2, h1)" by (metis prod_cases4)
    have al_ok: "(st2 = MSEARCH_OK \<longrightarrow> q2 = p\<lparr>pictures := start_pics lk p 0, objects := start_objs lk p 0\<rparr> \<and>
        live h1 = live h + (if lk_root lk then 0 else (if pictures p = [] then 0 else 1) + (if objects p = [] then 0 else 1))) \<and>
        ((\<forall>k. grants env k) \<longrightarrow> st2 = MSEARCH_OK)"
      using al np no by (auto simp: q1_def q start_pics_def start_objs_def msearch_problem_alloc_def mem_alloc_def
          msearch_problem_init_def Let_def split: if_splits)
    have ld: "load [?np, ?no] 0 = Some ?np" "load [?np, ?no] 1 = Some ?no" by (simp_all add: load_def)
    show ?thesis
    proof (cases "st2 = MSEARCH_OK")
      case False
      then show ?thesis using hd th ok al al_ok ld
        by (auto simp: msearch_broadcast_problem_def q1_def [symmetric])
    next
      case st2: True
      define cnt where "cnt = (?np + ?no) * 2"
      have cnt: "int32 (?np + ?no)" "int32 cnt" "nat cnt = length (problem_shapes p)" "cnt = int (length (problem_shapes p))"
        using np no p(2,3) by (auto simp: cnt_def int_ranges MSEARCH_MAX_COUNT_def problem_shapes_def)
      have ch: "chk32 (?np * 2 + ?no * 2) = Some cnt" using cnt(2) by (simp add: cnt_def)
      obtain ok3 h2 where m: "(if cnt > 0 then mem_alloc env h1 else (True, h1)) = (ok3, h2)" by (metis surj_pair)
      show ?thesis
      proof (cases ok3)
        case False
        then have "msearch_broadcast_problem lk env q err h =
          Some (MSEARCH_ERR_NOMEM, q2, take 2 ?T, msearch_set_err e2 ''cannot allocate shape buffer'', [], h2)"
          using hd th ok al st2 ld m cnt(1)
          by (simp add: msearch_broadcast_problem_def ch q1_def [symmetric])
        moreover have "\<not> (\<forall>k. grants env k)" using False m by (auto simp: mem_alloc_def split: if_splits)
        ultimately show ?thesis by simp
      next
        case ok3: True
        have l2: "live h2 = live h1 + (if cnt > 0 then 1 else 0)" using m ok3 by (auto simp: mem_alloc_def split: if_splits)
        define j where "j = map (junk env) [0..<nat cnt]"
        define shapes where "shapes = (if lk_root lk then problem_shapes p else j)"
        have pk: "(if lk_root lk then do {
            s1 \<leftarrow> pack_pictures (pictures q2) 0 ?np j; pack_objects (objects q2) 0 ?np ?no s1 } else Some j) = Some shapes"
        proof (cases "lk_root lk")
          case True
          have jl: "length j = 2 * (length (pictures p) + length (objects p))" using cnt(3) by (simp add: j_def problem_shapes_def)
          show ?thesis
            using pack_pictures_spec [of 0 "pictures p" j]
              pack_objects_spec [of 0 "objects p" "length (pictures p)" "pair_up p_id p_n (pictures p) @ drop (2 * length (pictures p)) j"]
              True al_ok st2 jl np no by (simp add: shapes_def problem_shapes_def start_pics_def start_objs_def)
        qed (simp add: shapes_def)
        obtain r where r: "bcast_body lk env q2 ?np ?no shapes (int (length (problem_shapes p))) (take 2 ?T) e2 h2 = Some r"
          "body_outcome lk env p (length (pictures p) + length (objects p)) h2 r"
        proof -
          have "q2 = p\<lparr>pictures := start_pics lk p 0, objects := start_objs lk p 0\<rparr>" using al_ok st2 by simp
          moreover have "length shapes = length (problem_shapes p)" "lk_root lk \<longrightarrow> shapes = problem_shapes p"
            using cnt(3) by (simp_all add: shapes_def j_def)
          ultimately show ?thesis using that bcast_body_spec [OF p(1) dl] by blast
        qed
        obtain st p' tr e' lg h3 where r': "r = (st, p', tr, e', lg, h3)" by (metis prod_cases6)
        have eq: "msearch_broadcast_problem lk env q err h =
          Some (st, p', tr, e', lg, mem_free (if cnt > 0 then Some () else None) h3)"
          using hd th ok al st2 ld m ok3 pk r(1) [folded cnt(4)] r' cnt(1)
          by (simp add: msearch_broadcast_problem_def ch q1_def [symmetric] j_def [symmetric])
        show ?thesis
          unfolding eq using r(2) r' l2 al_ok st2 held_problem_ok [OF p(1)] by (auto simp: body_outcome_def)
      qed
    qed
  qed
qed

section \<open>Properties\<close>

text \<open>C25: The broadcast replicates the problem: when the root's run succeeded and a rank's calls deliver what
  the root's calls sent, that rank's run ends without undefined behaviour whichever calls or
  allocations fail on it; it succeeds when none does; and when it succeeds its problem is the root's,
  objects in the same order, and releasing it gives back all the rank allocated.\<close>

theorem broadcast_replicates:
  assumes "problem_ok p" "num_pictures p \<le> MSEARCH_MAX_COUNT" "num_objects p \<le> MSEARCH_MAX_COUNT"
    and "lk_root rl" "msearch_broadcast_problem rl env0 p err0 h0 = Some (MSEARCH_OK, p0, sent, err1, lg0, h1)"
    and "\<not> lk_root lk" "\<forall>k < length sent. lk_data lk k = sent ! k"
  shows "p0 = p \<and> live h1 = live h0 \<and>
    (\<exists>st q tr err' lg h'. msearch_broadcast_problem lk env msearch_problem_init err h = Some (st, q, tr, err', lg, h') \<and>
      ((\<forall>k. lk_ok lk k) \<and> (\<forall>k. grants env k) \<longrightarrow> st = MSEARCH_OK) \<and>
      (st = MSEARCH_OK \<longrightarrow> q = p \<and>
        (\<exists>h''. msearch_problem_free (Some q) h' = Some (Some msearch_problem_init, h'') \<and> live h'' = live h)))"
proof -
  have r: "p0 = p \<and> sent = bcast_trace p \<and> live h1 = live h0"
    using broadcast_spec [OF assms(1-3), of rl p env0 err0 h0] assms(4,5) by (auto simp: delivers_def)
  have "delivers lk (bcast_trace p)" using assms(7) r by (simp add: delivers_def)
  have "msearch_problem_init = (if lk_root lk then p else msearch_problem_init)" using assms(6) by simp
  from broadcast_spec [OF assms(1-3) \<open>delivers lk (bcast_trace p)\<close> this, of env err h] obtain st q tr err' lg h' where
    b: "msearch_broadcast_problem lk env msearch_problem_init err h = Some (st, q, tr, err', lg, h')"
    "st = MSEARCH_OK \<longrightarrow> q = p \<and> tr = bcast_trace p \<and> live h' = live h + held p"
    "(\<forall>k. lk_ok lk k) \<and> (\<forall>k. grants env k) \<longrightarrow> st = MSEARCH_OK"
    unfolding if_not_P [OF assms(6)] by blast
  have "arrays_ok p" using assms(1) by (simp add: problem_ok_def)
  from problem_free_spec [OF this, of h'] b r show ?thesis by auto
qed

theorem broadcast_replicates_witness:
  "\<exists>sent err' lg h' tr err'' lg' h''.
    msearch_broadcast_problem \<lparr>lk_root = True, lk_ok = (\<lambda>_. True), lk_data = (\<lambda>_. PInts [])\<rparr> granting tiny_problem None no_heap =
      Some (MSEARCH_OK, tiny_problem, sent, err', lg, h') \<and>
    msearch_broadcast_problem \<lparr>lk_root = False, lk_ok = (\<lambda>_. True), lk_data = (\<lambda>k. sent ! k)\<rparr> granting msearch_problem_init None no_heap =
      Some (MSEARCH_OK, tiny_problem, tr, err'', lg', h'')"
proof -
  let ?rl = "\<lparr>lk_root = True, lk_ok = (\<lambda>_. True), lk_data = (\<lambda>_. PInts [])\<rparr>"
  have l: "num_pictures tiny_problem \<le> MSEARCH_MAX_COUNT" "num_objects tiny_problem \<le> MSEARCH_MAX_COUNT"
    by (simp_all add: tiny_problem_def MSEARCH_MAX_COUNT_def)
  obtain p' sent err' lg h' where r:
    "msearch_broadcast_problem ?rl granting tiny_problem None no_heap = Some (MSEARCH_OK, p', sent, err', lg, h')"
    using broadcast_spec [OF tiny_problem_ok l, of ?rl tiny_problem granting None no_heap] by (auto simp: delivers_def granting_def)
  from broadcast_replicates [OF tiny_problem_ok l _ r, of "\<lparr>lk_root = False, lk_ok = (\<lambda>_. True), lk_data = (\<lambda>k. sent ! k)\<rparr>" granting None no_heap] r
  show ?thesis by (auto simp: granting_def)
qed

end
