(* ===== verification/Options.thy ===== *)
theory Options
  imports Registry Parser
begin

text \<open>
  The command line, \<open>src/cli/options.c\<close>. The parser is a pure function of \<open>argv\<close> and of the build's
  backends: one turn of its loop is \<open>parse_option\<close>, the loop is \<open>parse_from\<close>. Numbers go through the C
  library's \<open>strtol\<close> and \<open>strtod\<close>.
\<close>

section \<open>Version and usage\<close>

text \<open>\<open>MSEARCH_VERSION\<close> as the build defines it, if it does.\<close>

definition msearch_version :: "string option \<Rightarrow> string" where
  "msearch_version version_macro = (case version_macro of None \<Rightarrow> ''0.0.0-dev'' | Some v \<Rightarrow> v)"

definition msearch_print_usage :: "string \<Rightarrow> string" where
  "msearch_print_usage program = concat (map text_line
     [''Hybrid parallel object matching -- find small matrices inside large ones.'',
      [],
      ''Usage: '' @ program @ '' [options] [input]'',
      [],
      ''Options:'',
      ''  -i, --input PATH     problem description to read (default: input.txt)'',
      ''  -o, --output PATH    results file, '' @ [CHR 0x27] @ ''-'' @ [CHR 0x27] @ '' for stdout (default: output.txt)'',
      ''  -b, --backend NAME   serial | openmp | cuda | auto (default: auto)'',
      ''  -t, --threads N      CPU threads for the openmp backend (default: all)'',
      ''  -d, --device N       CUDA device ordinal (default: derived from rank)'',
      ''      --zero-eps EPS   denominator used where a picture element is 0'',
      ''                       (default: '' @ show_g MSEARCH_DEFAULT_ZERO_EPS @ ''; see docs/ARCHITECTURE.md)'',
      ''      --verify         run every available backend and compare results'',
      ''      --bench N        repeat the search N times and report timings'',
      ''      --list-backends  show which backends this binary can use'',
      ''  -q, --quiet          errors only'',
      ''  -v, --verbose        per-picture progress (repeat for debug output)'',
      ''  -h, --help           this message'',
      ''  -V, --version        version string'',
      [],
      ''Examples:'',
      ''  '' @ program @ '' -i tests/data/planted.txt -o -'',
      ''  '' @ program @ '' --backend openmp --threads 8 --bench 5'',
      ''  mpirun -n 4 '' @ program @ '' --backend cuda -i big.txt''])"

section \<open>Arguments\<close>

definition quoted :: "string \<Rightarrow> string" where
  "quoted s = [CHR 0x27] @ s @ [CHR 0x27]"

text \<open>The value that follows a flag, and the index it stands at.\<close>

definition take_value :: "string list \<Rightarrow> nat \<Rightarrow> string \<Rightarrow> errbuf \<Rightarrow> (string \<times> nat) option \<times> errbuf" where
  "take_value argv i flag err =
     (if i + 1 \<ge> length argv then (None, msearch_set_err err (flag @ '' requires a value''))
      else (Some (argv ! (i + 1), i + 1), err))"

text \<open>The target is written only when the text is accepted.\<close>

definition parse_int_arg :: "string \<Rightarrow> string \<Rightarrow> cint \<Rightarrow> errbuf \<Rightarrow> (Status + cint) \<times> errbuf" where
  "parse_int_arg text flag min_value err =
     (let (v, used, erange) = strtol text in
      if used = 0 \<or> used \<noteq> length text \<or> erange \<or> v < min_value \<or> v > 1000000
      then (Inl MSEARCH_ERR_INVALID, msearch_set_err err
              (flag @ '': expected an integer >= '' @ show_int min_value @ '', got '' @ quoted text))
      else (Inr v, err))"

text \<open>A turn of the loop either ends the function or goes on at a later argument.\<close>

datatype turn =
  Done Status Config EarlyAction errbuf
| Next nat cint Config errbuf

definition with_value ::
  "string list \<Rightarrow> nat \<Rightarrow> string \<Rightarrow> Config \<Rightarrow> errbuf \<Rightarrow> (string \<Rightarrow> nat \<Rightarrow> errbuf \<Rightarrow> turn) \<Rightarrow> turn" where
  "with_value argv i arg cfg err f =
     (case take_value argv i arg err of
        (None, err1) \<Rightarrow> Done MSEARCH_ERR_INVALID cfg EARLY_NONE err1
      | (Some (v, j), err1) \<Rightarrow> f v j err1)"

definition with_int ::
  "string list \<Rightarrow> nat \<Rightarrow> string \<Rightarrow> cint \<Rightarrow> Config \<Rightarrow> errbuf \<Rightarrow> cint \<Rightarrow> (cint \<Rightarrow> Config) \<Rightarrow> turn" where
  "with_int argv i arg min_value cfg err vb f =
     with_value argv i arg cfg err (\<lambda>v j err1.
       case parse_int_arg v arg min_value err1 of
         (Inl st, err2) \<Rightarrow> Done st cfg EARLY_NONE err2
       | (Inr n, err2) \<Rightarrow> Next (j + 1) vb (f n) err2)"

definition parse_option :: "build \<Rightarrow> string list \<Rightarrow> nat \<Rightarrow> cint \<Rightarrow> Config \<Rightarrow> errbuf \<Rightarrow> turn" where
  "parse_option bld argv i vb cfg err =
     (let arg = argv ! i in
      if arg = ''-h'' \<or> arg = ''--help'' then Done MSEARCH_OK cfg EARLY_HELP err
      else if arg = ''-V'' \<or> arg = ''--version'' then Done MSEARCH_OK cfg EARLY_VERSION err
      else if arg = ''--list-backends'' then Done MSEARCH_OK cfg EARLY_LIST_BACKENDS err
      else if arg = ''-i'' \<or> arg = ''--input'' then
        with_value argv i arg cfg err (\<lambda>v j err1. Next (j + 1) vb (cfg\<lparr>c_input_path := v\<rparr>) err1)
      else if arg = ''-o'' \<or> arg = ''--output'' then
        with_value argv i arg cfg err (\<lambda>v j err1. Next (j + 1) vb (cfg\<lparr>c_output_path := v\<rparr>) err1)
      else if arg = ''-b'' \<or> arg = ''--backend'' then
        with_value argv i arg cfg err (\<lambda>v j err1.
          if v \<noteq> ''auto'' \<and> msearch_backend_find bld v = None
          then Done MSEARCH_ERR_INVALID cfg EARLY_NONE
                 (msearch_set_err err1 (''unknown backend '' @ quoted v @ '' (try --list-backends)''))
          else Next (j + 1) vb (cfg\<lparr>c_backend_name := v\<rparr>) err1)
      else if arg = ''-t'' \<or> arg = ''--threads'' then
        with_int argv i arg 1 cfg err vb (\<lambda>n. cfg\<lparr>c_threads := n\<rparr>)
      else if arg = ''-d'' \<or> arg = ''--device'' then
        with_int argv i arg 0 cfg err vb (\<lambda>n. cfg\<lparr>c_device := n\<rparr>)
      else if arg = ''--bench'' then
        with_int argv i arg 1 cfg err vb (\<lambda>n. cfg\<lparr>c_bench_reps := n\<rparr>)
      else if arg = ''--zero-eps'' then
        with_value argv i arg cfg err (\<lambda>v j err1.
          let (x, used, erange) = strtod v; cfg' = cfg\<lparr>c_zero_eps := x\<rparr> in
          if used = 0 \<or> used \<noteq> length v \<or> \<not> dlt dzero x
          then Done MSEARCH_ERR_INVALID cfg' EARLY_NONE
                 (msearch_set_err err1 (''--zero-eps: expected a positive number, got '' @ quoted v))
          else Next (j + 1) vb cfg' err1)
      else if arg = ''--verify'' then Next (i + 1) vb (cfg\<lparr>c_verify := True\<rparr>) err
      else if arg = ''-q'' \<or> arg = ''--quiet'' then Next (i + 1) (- 1) cfg err
      else if arg = ''-v'' \<or> arg = ''--verbose'' then Next (i + 1) (if vb < 1 then 1 else 2) cfg err
      else if take 1 arg = ''-'' \<and> 1 < length arg then
        Done MSEARCH_ERR_INVALID cfg EARLY_NONE
          (msearch_set_err err (''unknown option '' @ quoted arg @ '' (try --help)''))
      else Next (i + 1) vb (cfg\<lparr>c_input_path := arg\<rparr>) err)"

definition apply_verbosity :: "cint \<Rightarrow> Config \<Rightarrow> Config" where
  "apply_verbosity vb cfg =
     (if vb < 0 then cfg\<lparr>c_log_level := LOG_ERROR\<rparr>
      else if vb = 1 then cfg\<lparr>c_log_level := LOG_INFO\<rparr>
      else if vb \<ge> 2 then cfg\<lparr>c_log_level := LOG_DEBUG\<rparr>
      else cfg)"

text \<open>Every turn that goes on goes on at a later argument, so the loop ends.\<close>

lemma with_value_Next:
  "with_value argv i arg cfg err f = Next k vb' c' e' \<Longrightarrow> \<exists>v e. i + 1 < length argv \<and> f v (i + 1) e = Next k vb' c' e'"
  by (auto simp: with_value_def take_value_def split: if_splits)

lemma parse_option_later: "parse_option bld argv i vb cfg err = Next k vb' c' e' \<Longrightarrow> i < k"
  by (auto simp: parse_option_def with_int_def Let_def dest!: with_value_Next split: if_splits sum.splits prod.splits)

function parse_from ::
  "build \<Rightarrow> string list \<Rightarrow> nat \<Rightarrow> cint \<Rightarrow> Config \<Rightarrow> errbuf \<Rightarrow> Status \<times> Config \<times> EarlyAction \<times> errbuf" where
  "parse_from bld argv i vb cfg err =
     (if i < length argv then
        (case parse_option bld argv i vb cfg err of
           Done st cfg' action err' \<Rightarrow> (st, cfg', action, err')
         | Next j vb' cfg' err' \<Rightarrow> parse_from bld argv j vb' cfg' err')
      else (MSEARCH_OK, apply_verbosity vb cfg, EARLY_NONE, err))"
  by pat_completeness auto
termination
proof (relation "measure (\<lambda>(bld, argv, i, vb, cfg, err). length argv - i)", goal_cases)
  case (2 bld argv i vb cfg err j vb' cfg' err')
  then show ?case using parse_option_later [of bld argv i vb cfg err j vb' cfg' err'] by simp
qed simp

declare parse_from.simps [simp del]

definition msearch_config_parse ::
  "build \<Rightarrow> Config \<Rightarrow> string list \<Rightarrow> errbuf \<Rightarrow> Status \<times> Config \<times> EarlyAction \<times> errbuf" where
  "msearch_config_parse bld cfg argv err = parse_from bld argv 1 0 cfg err"

section \<open>Well-formed configurations\<close>

definition config_ok :: "build \<Rightarrow> Config \<Rightarrow> bool" where
  "config_ok bld cfg \<longleftrightarrow>
     (c_backend_name cfg = ''auto'' \<or> msearch_backend_find bld (c_backend_name cfg) \<noteq> None) \<and>
     0 \<le> c_threads cfg \<and> c_threads cfg \<le> 1000000 \<and> - 1 \<le> c_device cfg \<and> c_device cfg \<le> 1000000 \<and>
     0 \<le> c_bench_reps cfg \<and> c_bench_reps cfg \<le> 1000000 \<and> eps_ok (c_zero_eps cfg)"

lemma digits_val_nonneg: "list_all isxdigit ds \<Longrightarrow> 0 \<le> b \<Longrightarrow> 0 \<le> digits_val b ds"
proof -
  have "0 \<le> xdigit_val c" if "isxdigit c" for c
    using that by (auto simp: xdigit_val_def isxdigit_def isdigit_def)
  then have "0 \<le> foldl (\<lambda>a c. b * a + xdigit_val c) a ds" if "0 \<le> a" "list_all isxdigit ds" "0 \<le> b" for a
    using that by (induction ds arbitrary: a) auto
  then show "list_all isxdigit ds \<Longrightarrow> 0 \<le> b \<Longrightarrow> 0 \<le> digits_val b ds" by (simp add: digits_val_def)
qed

lemma isdigit_isxdigit: "list_all isdigit ds \<Longrightarrow> list_all isxdigit ds"
  by (auto simp: list_all_iff isxdigit_def)

lemma take_mantissa_digits:
  "take_mantissa dig s = (a, b, c) \<Longrightarrow> list_all dig (a @ b)"
  by (auto simp: take_mantissa_def Let_def list_all_iff dest: set_takeWhileD split: list.splits if_splits)

lemma strtod_ok: "dbl_ok (fst (strtod s))"
proof -
  obtain neg r where sg: "take_sign (dropWhile isspace s) = (neg, r)" by (metis surj_pair)
  obtain hi hf hr where h: "take_mantissa isxdigit (drop 2 r) = (hi, hf, hr)" by (metis prod_cases3)
  obtain ip fp mr where d: "take_mantissa isdigit r = (ip, fp, mr)" by (metis prod_cases3)
  have a: "dbl_ok (round_ratio neg (digits_val 16 (hi @ hf)) 1 k)" for k
    using digits_val_nonneg [OF take_mantissa_digits [OF h], of 16] by (simp add: round_ratio_ok)
  have b: "dbl_ok (fst (pow10_ratio neg (digits_val 10 (ip @ fp)) x))" for x
    using digits_val_nonneg [OF isdigit_isxdigit [OF take_mantissa_digits [OF d]], of 10]
    by (simp add: pow10_ratio_def round_ratio_ok)
  have z: "dbl_ok (Fin False 0 (- 1074))" by simp code_simp
  show ?thesis
    using a b z by (auto simp: strtod_def sg h d Let_def split: prod.splits) (metis fst_conv)+
qed

lemma strtol_show:
  assumes "int32 v"
  shows "strtol (show_int v) = (v, length (show_int v), False)"
proof -
  define ds where "ds = show_digits \<bar>v\<bar>"
  have "list_all (\<lambda>c. isdigit c \<and> graph c \<and> \<not> isspace c \<and> c \<noteq> CHR ''-'' \<and> c \<noteq> CHR ''+'' \<and> c \<noteq> CHR ''#'' \<and> c \<noteq> CHR 0x00) ds"
    unfolding ds_def by (rule show_digits_all) simp
  moreover have "show_int v = (if v < 0 then CHR ''-'' # ds else ds)" by (auto simp: show_int_def ds_def)
  ultimately have "CHR 0x00 \<notin> set (show_int v)" by (auto simp: list_all_iff)
  moreover obtain w u e where "strtol (show_int v) = (w, u, e)" by (metis prod_cases3)
  ultimately show ?thesis using show_int_token(2) [OF assms]
    by (simp add: int_of_token_def Let_def split: if_splits)
qed

definition turn_ok :: "build \<Rightarrow> errbuf \<Rightarrow> turn \<Rightarrow> bool" where
  "turn_ok bld err t \<longleftrightarrow> (case t of
      Done st cfg' act err' \<Rightarrow> (if st = MSEARCH_OK then config_ok bld cfg' \<and> act \<noteq> EARLY_NONE \<and> err' = err
        else st = MSEARCH_ERR_INVALID \<and> act = EARLY_NONE \<and> (\<exists>msg. msg \<noteq> [] \<and> err' = msearch_set_err err msg))
    | Next j vb' cfg' err' \<Rightarrow> config_ok bld cfg' \<and> err' = err)"

lemma turn_ok_if: "turn_ok bld err a \<Longrightarrow> turn_ok bld err b \<Longrightarrow> turn_ok bld err (if c then a else b)"
  by simp

lemma with_value_ok:
  "(\<And>v j. turn_ok bld err (f v j err)) \<Longrightarrow> turn_ok bld err (with_value argv i arg cfg err f)"
  by (auto simp: with_value_def take_value_def turn_ok_def)

lemma with_int_ok:
  assumes "\<And>n. m \<le> n \<Longrightarrow> n \<le> 1000000 \<Longrightarrow> config_ok bld (f n)"
  shows "turn_ok bld err (with_int argv i arg m cfg err vb f)"
  unfolding with_int_def
  by (rule with_value_ok) (auto simp: turn_ok_def parse_int_arg_def Let_def assms split: prod.splits)

lemma parse_option_ok:
  assumes "config_ok bld cfg"
  shows "turn_ok bld err (parse_option bld argv i vb cfg err)"
proof -
  have eps: "eps_ok (fst (strtod s))" if "dlt dzero (fst (strtod s))" for s
    using strtod_ok [of s] that by (simp add: eps_ok_def)
  have e: "turn_ok bld err (with_value argv i arg cfg err (\<lambda>v j err1.
      let (x, used, erange) = strtod v; cfg' = cfg\<lparr>c_zero_eps := x\<rparr> in
      if used = 0 \<or> used \<noteq> length v \<or> \<not> dlt dzero x
      then Done MSEARCH_ERR_INVALID cfg' EARLY_NONE
             (msearch_set_err err1 (''--zero-eps: expected a positive number, got '' @ quoted v))
      else Next (j + 1) vb cfg' err1))" for arg
  proof (rule with_value_ok)
    fix v j
    obtain x u er where "strtod v = (x, u, er)" by (metis prod_cases3)
    with eps [of v] assms show "turn_ok bld err (let (x, used, erange) = strtod v; cfg' = cfg\<lparr>c_zero_eps := x\<rparr> in
      if used = 0 \<or> used \<noteq> length v \<or> \<not> dlt dzero x
      then Done MSEARCH_ERR_INVALID cfg' EARLY_NONE
             (msearch_set_err err (''--zero-eps: expected a positive number, got '' @ quoted v))
      else Next (j + 1) vb cfg' err)"
      by (auto simp: turn_ok_def config_ok_def Let_def)
  qed
  have b: "turn_ok bld err (if v \<noteq> ''auto'' \<and> msearch_backend_find bld v = None
      then Done MSEARCH_ERR_INVALID cfg EARLY_NONE (msearch_set_err err (''unknown backend '' @ quoted v @ '' (try --list-backends)''))
      else Next k vb (cfg\<lparr>c_backend_name := v\<rparr>) err)" for v k
    using assms by (simp add: turn_ok_def config_ok_def) auto
  have h: "turn_ok bld err (Done MSEARCH_OK cfg EARLY_HELP err)" "turn_ok bld err (Done MSEARCH_OK cfg EARLY_VERSION err)"
    "turn_ok bld err (Done MSEARCH_OK cfg EARLY_LIST_BACKENDS err)"
    "turn_ok bld err (Done MSEARCH_ERR_INVALID cfg EARLY_NONE (msearch_set_err err (''unknown option '' @ s)))" for s
    using assms by (auto simp: turn_ok_def)
  have n: "turn_ok bld err (Next k vb' (cfg\<lparr>c_input_path := v\<rparr>) err)" "turn_ok bld err (Next k vb' (cfg\<lparr>c_output_path := v\<rparr>) err)"
    "turn_ok bld err (Next k vb' (cfg\<lparr>c_verify := w\<rparr>) err)" "turn_ok bld err (Next k vb' cfg err)" for k vb' v w
    using assms by (auto simp: turn_ok_def config_ok_def)
  have c: "1 \<le> m \<Longrightarrow> m \<le> 1000000 \<Longrightarrow> config_ok bld (cfg\<lparr>c_threads := m\<rparr>)"
    "1 \<le> m \<Longrightarrow> m \<le> 1000000 \<Longrightarrow> config_ok bld (cfg\<lparr>c_bench_reps := m\<rparr>)"
    "0 \<le> m \<Longrightarrow> m \<le> 1000000 \<Longrightarrow> config_ok bld (cfg\<lparr>c_device := m\<rparr>)" for m
    using assms by (auto simp: config_ok_def)
  show ?thesis
    unfolding parse_option_def Let_def [of "argv ! i"]
    by (intro turn_ok_if h n e with_int_ok c with_value_ok b)
qed

lemma apply_verbosity_ok: "config_ok bld cfg \<Longrightarrow> config_ok bld (apply_verbosity vb cfg)"
  by (simp add: apply_verbosity_def config_ok_def)

lemma parse_from_ok:
  "config_ok bld cfg \<Longrightarrow> parse_from bld argv i vb cfg err = (st, cfg', act, err') \<Longrightarrow>
    (if st = MSEARCH_OK then config_ok bld cfg' \<and> err' = err
     else st = MSEARCH_ERR_INVALID \<and> act = EARLY_NONE \<and> (\<exists>msg. msg \<noteq> [] \<and> err' = msearch_set_err err msg))"
proof (induction bld argv i vb cfg err rule: parse_from.induct)
  case (1 bld argv i vb cfg err)
  show ?case
  proof (cases "i < length argv")
    case False
    with "1.prems" show ?thesis by (subst (asm) parse_from.simps) (auto intro: apply_verbosity_ok)
  next
    case True
    note ok = parse_option_ok [OF "1.prems"(1), of err argv i vb]
    show ?thesis
    proof (cases "parse_option bld argv i vb cfg err")
      case (Done st1 c1 a1 e1)
      with True "1.prems"(2) ok show ?thesis by (subst (asm) parse_from.simps) (auto simp: turn_ok_def split: if_splits)
    next
      case (Next j vb1 c1 e1)
      with True "1.prems"(2) have "parse_from bld argv j vb1 c1 e1 = (st, cfg', act, err')"
        by (subst (asm) parse_from.simps) simp
      with "1.IH" [OF True Next] ok Next show ?thesis by (cases "st = MSEARCH_OK") (simp_all add: turn_ok_def)
    qed
  qed
qed

lemma defaults_ok: "config_ok bld msearch_config_defaults"
  using eps_ok_default by (simp add: config_ok_def msearch_config_defaults_def)

section \<open>What a command line means\<close>

text \<open>The number a text denotes: all of it must be a number, of the sign and size the option takes.\<close>

definition int_text :: "string \<Rightarrow> cint option" where
  "int_text s = (case strtol s of (v, used, erange) \<Rightarrow> if used \<noteq> 0 \<and> used = length s \<and> \<not> erange then Some v else None)"

definition eps_text :: "string \<Rightarrow> dbl option" where
  "eps_text s = (case strtod s of (x, used, erange) \<Rightarrow> if used \<noteq> 0 \<and> used = length s \<and> dlt dzero x then Some x else None)"

text \<open>The options as a user writes them, in the short or the long form, and what each asks for. Every
  option of the usage text is one of these, or one of the three that end the parsing.\<close>

datatype opt = Input string | Output string | Backend string | Threads string | Device string | Bench string | Zero_eps string
  | Verify | Quiet | Verbose | Positional string

fun render_opt :: "bool \<times> opt \<Rightarrow> string list" where
  "render_opt (long, Input f) = [if long then ''--input'' else ''-i'', f]"
| "render_opt (long, Output f) = [if long then ''--output'' else ''-o'', f]"
| "render_opt (long, Backend b) = [if long then ''--backend'' else ''-b'', b]"
| "render_opt (long, Threads n) = [if long then ''--threads'' else ''-t'', n]"
| "render_opt (long, Device n) = [if long then ''--device'' else ''-d'', n]"
| "render_opt (long, Bench n) = [''--bench'', n]"
| "render_opt (long, Zero_eps x) = [''--zero-eps'', x]"
| "render_opt (long, Verify) = [''--verify'']"
| "render_opt (long, Quiet) = [if long then ''--quiet'' else ''-q'']"
| "render_opt (long, Verbose) = [if long then ''--verbose'' else ''-v'']"
| "render_opt (long, Positional f) = [f]"

definition denotes_between :: "cint \<Rightarrow> string \<Rightarrow> bool" where
  "denotes_between m s = (case int_text s of None \<Rightarrow> False | Some v \<Rightarrow> m \<le> v \<and> v \<le> 1000000)"

fun opt_ok :: "build \<Rightarrow> opt \<Rightarrow> bool" where
  "opt_ok bld (Backend b) = (b = ''auto'' \<or> msearch_backend_find bld b \<noteq> None)"
| "opt_ok bld (Threads n) = denotes_between 1 n"
| "opt_ok bld (Device n) = denotes_between 0 n"
| "opt_ok bld (Bench n) = denotes_between 1 n"
| "opt_ok bld (Zero_eps x) = (eps_text x \<noteq> None)"
| "opt_ok bld (Positional f) = (take 1 f \<noteq> ''-'' \<or> f = ''-'')"
| "opt_ok bld _ = True"

fun opt_meaning :: "opt \<Rightarrow> cint \<times> Config \<Rightarrow> cint \<times> Config" where
  "opt_meaning (Input f) (vb, c) = (vb, c\<lparr>c_input_path := f\<rparr>)"
| "opt_meaning (Output f) (vb, c) = (vb, c\<lparr>c_output_path := f\<rparr>)"
| "opt_meaning (Backend b) (vb, c) = (vb, c\<lparr>c_backend_name := b\<rparr>)"
| "opt_meaning (Threads n) (vb, c) = (vb, c\<lparr>c_threads := the (int_text n)\<rparr>)"
| "opt_meaning (Device n) (vb, c) = (vb, c\<lparr>c_device := the (int_text n)\<rparr>)"
| "opt_meaning (Bench n) (vb, c) = (vb, c\<lparr>c_bench_reps := the (int_text n)\<rparr>)"
| "opt_meaning (Zero_eps x) (vb, c) = (vb, c\<lparr>c_zero_eps := the (eps_text x)\<rparr>)"
| "opt_meaning Verify (vb, c) = (vb, c\<lparr>c_verify := True\<rparr>)"
| "opt_meaning Quiet (vb, c) = (- 1, c)"
| "opt_meaning Verbose (vb, c) = ((if vb < 1 then 1 else 2), c)"
| "opt_meaning (Positional f) (vb, c) = (vb, c\<lparr>c_input_path := f\<rparr>)"

definition early_option :: "string \<Rightarrow> EarlyAction option" where
  "early_option s =
     (if s \<in> {''-h'', ''--help''} then Some EARLY_HELP
      else if s \<in> {''-V'', ''--version''} then Some EARLY_VERSION
      else if s = ''--list-backends'' then Some EARLY_LIST_BACKENDS
      else None)"

text \<open>The decimal text of a number denotes it.\<close>

lemma int_text_show: "int32 v \<Longrightarrow> int_text (show_int v) = Some v"
  using strtol_show [of v] show_int_token(1) [of v] by (simp add: int_text_def plain_def)

lemma parse_int_text:
  "denotes_between m s \<Longrightarrow> parse_int_arg s flag m err = (Inr (the (int_text s)), err)"
  by (auto simp: denotes_between_def int_text_def parse_int_arg_def Let_def split: prod.splits if_splits)

lemma with_int_text:
  assumes "denotes_between m s" "argv ! (i + 1) = s" "i + 1 < length argv"
  shows "with_int argv i arg m cfg err vb f = Next (i + 2) vb (f (the (int_text s))) err"
  using assms by (simp add: with_int_def with_value_def take_value_def parse_int_text)

lemma positional_flags:
  assumes "take 1 f \<noteq> ''-'' \<or> f = ''-''"
  shows "\<not> (take 1 f = ''-'' \<and> 1 < length f)"
    "f \<notin> {''-h'', ''--help'', ''-V'', ''--version'', ''--list-backends'', ''-i'', ''--input'', ''-o'', ''--output'',
      ''-b'', ''--backend'', ''-t'', ''--threads'', ''-d'', ''--device'', ''--bench'', ''--zero-eps'', ''--verify'',
      ''-q'', ''--quiet'', ''-v'', ''--verbose''}"
  using assms by auto

lemma parse_rendered:
  assumes "opt_ok bld (snd o1)" "argv = pre @ render_opt o1 @ post" "i = length pre"
  shows "parse_option bld argv i vb cfg err =
    (case opt_meaning (snd o1) (vb, cfg) of (vb', cfg') \<Rightarrow> Next (i + length (render_opt o1)) vb' cfg' err)"
proof (cases o1)
  case (Pair long x)
  have n: "argv ! i = hd (render_opt o1)" using assms(2,3) Pair by (cases x) (auto simp: nth_append)
  show ?thesis
  proof (cases x)
    case (Positional f)
    then show ?thesis using n assms Pair positional_flags [of f] by (simp add: parse_option_def)
  next
    case (Zero_eps s)
    then have e: "eps_text s \<noteq> None" using assms(1) Pair by simp
    obtain v used er where "strtod s = (v, used, er)" by (metis prod_cases3)
    with e n assms(2,3) Pair Zero_eps show ?thesis
      by (simp add: parse_option_def with_value_def take_value_def nth_append eps_text_def Let_def split: if_splits)
  qed (use n assms Pair in \<open>auto simp: parse_option_def with_int_text with_value_def take_value_def nth_append\<close>)
qed

lemma parse_from_prefix:
  "\<forall>o1 \<in> set opts. opt_ok bld (snd o1) \<Longrightarrow> argv = pre @ concat (map render_opt opts) @ post \<Longrightarrow> i = length pre \<Longrightarrow>
    parse_from bld argv i vb cfg err =
      (case fold opt_meaning (map snd opts) (vb, cfg) of (vb', cfg') \<Rightarrow> parse_from bld argv (length argv - length post) vb' cfg' err)"
proof (induction opts arbitrary: pre i vb cfg)
  case Nil
  then show ?case by simp
next
  case (Cons o1 opts)
  have r: "render_opt o1 \<noteq> []" by (cases o1; cases "snd o1") auto
  obtain vb1 cfg1 where m: "opt_meaning (snd o1) (vb, cfg) = (vb1, cfg1)" by (metis surj_pair)
  have argv: "argv = pre @ render_opt o1 @ concat (map render_opt opts) @ post" using Cons.prems(2) by simp
  have "opt_ok bld (snd o1)" using Cons.prems(1) by simp
  from parse_rendered [OF this argv Cons.prems(3), of vb cfg err] m
  have "parse_option bld argv i vb cfg err = Next (i + length (render_opt o1)) vb1 cfg1 err" by simp
  moreover have "i < length argv" using Cons.prems(2,3) r by simp
  moreover have "parse_from bld argv (i + length (render_opt o1)) vb1 cfg1 err =
      (case fold opt_meaning (map snd opts) (vb1, cfg1) of (vb', cfg') \<Rightarrow> parse_from bld argv (length argv - length post) vb' cfg' err)"
    by (rule Cons.IH [of "pre @ render_opt o1"]) (use Cons.prems in auto)
  ultimately show ?case using m by (subst parse_from.simps) simp
qed

lemma parse_from_end: "i = length argv \<Longrightarrow> parse_from bld argv i vb cfg err = (MSEARCH_OK, apply_verbosity vb cfg, EARLY_NONE, err)"
  by (subst parse_from.simps) simp

lemma parse_from_rendered:
  assumes "\<forall>o1 \<in> set opts. opt_ok bld (snd o1)" "argv = pre @ concat (map render_opt opts)" "i = length pre"
  shows "parse_from bld argv i vb cfg err =
      (case fold opt_meaning (map snd opts) (vb, cfg) of (vb', cfg') \<Rightarrow> (MSEARCH_OK, apply_verbosity vb' cfg', EARLY_NONE, err))"
  using parse_from_prefix [OF assms(1) _ assms(3), where post = "[]" and argv = argv and vb = vb and cfg = cfg and err = err] assms(2)
  by (auto simp: parse_from_end split: prod.splits)

lemma parse_early:
  assumes "i < length argv" "early_option (argv ! i) = Some act"
  shows "parse_from bld argv i vb cfg err = (MSEARCH_OK, cfg, act, err)"
proof -
  have "argv ! i \<in> {''-h'', ''--help''} \<and> act = EARLY_HELP \<or> argv ! i \<in> {''-V'', ''--version''} \<and> act = EARLY_VERSION \<or>
      argv ! i = ''--list-backends'' \<and> act = EARLY_LIST_BACKENDS"
    using assms(2) unfolding early_option_def by (simp only: split: if_splits) simp_all
  then have "parse_option bld argv i vb cfg err = Done MSEARCH_OK cfg act err"
    unfolding parse_option_def Let_def [of "argv ! i"] by (elim disjE conjE insertE emptyE) simp_all
  then show ?thesis using assms(1) by (subst parse_from.simps) simp
qed

section \<open>Properties\<close>

text \<open>C29: Whatever the arguments, parsing them over the defaults either succeeds without touching the message
  buffer and leaves a well-formed configuration (a backend the build has or \<open>auto\<close>, thread, device and
  repetition counts in range, a positive \<open>zero_eps\<close> that is not a NaN), or reports
  \<open>MSEARCH_ERR_INVALID\<close> with a message and no early action.\<close>

theorem config_parse_well_formed:
  "case msearch_config_parse bld msearch_config_defaults argv err of (st, cfg, act, err') \<Rightarrow>
    (if st = MSEARCH_OK then config_ok bld cfg \<and> err' = err
     else st = MSEARCH_ERR_INVALID \<and> act = EARLY_NONE \<and> (\<exists>msg. msg \<noteq> [] \<and> err' = msearch_set_err err msg))"
proof -
  obtain st cfg act err' where r: "parse_from bld argv 1 0 msearch_config_defaults err = (st, cfg, act, err')"
    by (metis prod_cases4)
  show ?thesis using parse_from_ok [OF defaults_ok r] unfolding msearch_config_parse_def r by simp
qed

text \<open>C30: A command line means what its options say: for every sequence of valid options, each in its short
  or long form (paths, backend, every text that denotes a thread count, device, repetition count or
  positive \<open>zero_eps\<close>, \<open>--verify\<close>, verbosity, bare paths), parsing succeeds and the configuration is the
  given one changed by the options from left to right. If nothing follows, the verbosity of all the
  \<open>-q\<close> and \<open>-v\<close> is applied at the end; if \<open>--help\<close>, \<open>--version\<close> or \<open>--list-backends\<close> follows, that is the action
  and the rest of the line, whatever it is, is not read.\<close>

theorem config_parse_meaning:
  assumes "\<forall>o1 \<in> set opts. opt_ok bld (snd o1)" "rest = [] \<or> early_option (hd rest) = Some act"
  shows "msearch_config_parse bld cfg (program # concat (map render_opt opts) @ rest) err =
    (case fold opt_meaning (map snd opts) (0, cfg) of (vb, cfg') \<Rightarrow>
       if rest = [] then (MSEARCH_OK, apply_verbosity vb cfg', EARLY_NONE, err) else (MSEARCH_OK, cfg', act, err))"
proof -
  let ?argv = "program # concat (map render_opt opts) @ rest"
  obtain vb cfg' where f: "fold opt_meaning (map snd opts) (0, cfg) = (vb, cfg')" by fastforce
  from parse_from_prefix [OF assms(1), where pre = "[program]" and post = rest and argv = ?argv and i = 1] f
  have r: "msearch_config_parse bld cfg ?argv err = parse_from bld ?argv (length ?argv - length rest) vb cfg' err"
    by (simp add: msearch_config_parse_def)
  show ?thesis
  proof (cases rest)
    case Nil
    then show ?thesis using r f by (simp add: parse_from_end)
  next
    case (Cons a as)
    have "?argv ! (length ?argv - length rest) = a" using Cons by (simp add: nth_append)
    with parse_early [of "length ?argv - length rest" ?argv act] assms(2) Cons r f show ?thesis by simp
  qed
qed

theorem config_parse_meaning_witness:
  "msearch_config_parse \<lparr>have_cuda = None, have_openmp = True\<rparr> msearch_config_defaults
      [''msearch'', ''--input'', ''a.txt'', ''-b'', ''serial'', ''-t'', ''007'', ''--bench'', ''3'', ''--zero-eps'', ''0.5'', ''--verify'', ''-v'', ''-v''] None =
    (MSEARCH_OK, msearch_config_defaults\<lparr>c_input_path := ''a.txt'', c_backend_name := ''serial'', c_threads := 7,
       c_bench_reps := 3, c_zero_eps := the (eps_text ''0.5''), c_verify := True, c_log_level := LOG_DEBUG\<rparr>, EARLY_NONE, None) \<and>
   msearch_config_parse \<lparr>have_cuda = None, have_openmp = True\<rparr> msearch_config_defaults
      [''msearch'', ''-o'', ''b.txt'', ''-V'', ''--nonsense''] None =
    (MSEARCH_OK, msearch_config_defaults\<lparr>c_output_path := ''b.txt''\<rparr>, EARLY_VERSION, None)"
proof
  let ?opts = "[(True, Input ''a.txt''), (False, Backend ''serial''), (False, Threads ''007''), (True, Bench ''3''), (True, Zero_eps ''0.5''),
    (True, Verify), (False, Verbose), (False, Verbose)]" and ?bld = "\<lparr>have_cuda = None, have_openmp = True\<rparr>"
  have t: "int_text ''007'' = Some 7" "int_text ''3'' = Some 3" by code_simp+
  have e: "eps_text ''0.5'' \<noteq> None" by code_simp
  have "\<forall>o1 \<in> set ?opts. opt_ok ?bld (snd o1)"
    using t e by (simp add: msearch_backend_find_def kBackends_def denotes_between_def)
  from config_parse_meaning [OF this, of "[]" EARLY_NONE msearch_config_defaults "''msearch''" None] t
  show "msearch_config_parse ?bld msearch_config_defaults
      [''msearch'', ''--input'', ''a.txt'', ''-b'', ''serial'', ''-t'', ''007'', ''--bench'', ''3'', ''--zero-eps'', ''0.5'', ''--verify'', ''-v'', ''-v''] None =
    (MSEARCH_OK, msearch_config_defaults\<lparr>c_input_path := ''a.txt'', c_backend_name := ''serial'', c_threads := 7,
       c_bench_reps := 3, c_zero_eps := the (eps_text ''0.5''), c_verify := True, c_log_level := LOG_DEBUG\<rparr>, EARLY_NONE, None)"
    by (simp add: apply_verbosity_def msearch_config_defaults_def)
  show "msearch_config_parse ?bld msearch_config_defaults [''msearch'', ''-o'', ''b.txt'', ''-V'', ''--nonsense''] None =
    (MSEARCH_OK, msearch_config_defaults\<lparr>c_output_path := ''b.txt''\<rparr>, EARLY_VERSION, None)"
    using config_parse_meaning [of "[(False, Output ''b.txt'')]" ?bld "[''-V'', ''--nonsense'']" EARLY_VERSION msearch_config_defaults "''msearch''" None]
    by (simp add: early_option_def)
qed

end
