(* ===== verification/Program.thy ===== *)
theory Program
  imports Options Writer Runner_MPI Broadcast
begin

text \<open>
  The composition root, \<open>src/cli/main.c\<close>: one process, from \<open>argv\<close> to its exit code. What the
  process meets outside the repository is a \<open>host\<close>: files, clock, allocator, processors, the \<open>qsort\<close>
  of its C library. What \<open>MSEARCH_HAVE_MPI\<close> selects is a \<open>runtime\<close>: \<open>local_runtime\<close> is the build
  without MPI; in an MPI build the fields are what the broadcast and the distributed run do on this
  rank. \<open>abort_all\<close> ends the process at once, the label \<open>cleanup\<close> releases the problem first. What the
  process prints is handed to buffered standard output, and \<open>at_exit\<close> is what becomes of it when the
  process ends.
\<close>

section \<open>The process and its surroundings\<close>

record host =
  host_fopen :: "string \<Rightarrow> string + in_file"
  host_files :: out_files
  host_clock :: "nat \<Rightarrow> int \<times> int"
  host_env :: env
  host_platform :: platform
  host_schedule :: "nat \<Rightarrow> cint \<Rightarrow> world"
  host_qsort :: "(dbl \<Rightarrow> dbl \<Rightarrow> int) \<Rightarrow> dbl list \<Rightarrow> dbl list"
  host_version :: "string option"
  host_stdout :: "nat option"

record runtime =
  rt_rank :: cint
  rt_world_size :: cint
  rt_node_rank :: cint
  rt_node_count :: cint
  rt_broadcast :: "(Problem \<Rightarrow> errbuf \<Rightarrow> heap \<Rightarrow> bc_outcome option) option"
  rt_run :: "nat \<Rightarrow> MatchBackend \<Rightarrow> Problem \<Rightarrow> Config \<Rightarrow> Match list \<Rightarrow> errbuf \<Rightarrow> heap \<Rightarrow>
    (Status \<times> Match list \<times> errbuf \<times> log_event list \<times> heap) option"

definition local_runtime :: "host \<Rightarrow> runtime" where
  "local_runtime ho =
     \<lparr>rt_rank = 0, rt_world_size = 1, rt_node_rank = 0, rt_node_count = 1, rt_broadcast = None,
      rt_run = (\<lambda>r bk p cfg ms err h. msearch_run_local bk (host_platform ho) (host_env ho) (host_schedule ho r) p cfg ms err h)\<rparr>"

record process =
  ps_stdout :: string
  ps_stderr :: string
  ps_file :: "(string \<times> string) option"
  ps_heap :: heap

text \<open>
  \<open>exit\<close> flushes standard output; the program neither flushes it earlier nor looks at the result. When
  the other end takes no more than \<open>n\<close> bytes (a full device, a closed pipe), the first \<open>n\<close> bytes handed
  to the stream arrive and nobody is told. With no such limit everything arrives.
\<close>

definition arrives_at :: "host \<Rightarrow> string \<Rightarrow> string" where
  "arrives_at ho out = (case host_stdout ho of None \<Rightarrow> out | Some n \<Rightarrow> take n out)"

definition at_exit :: "host \<Rightarrow> process \<Rightarrow> process" where
  "at_exit ho ps = ps\<lparr>ps_stdout := arrives_at ho (ps_stdout ps)\<rparr>"

definition ERR_LEN :: nat where
  "ERR_LEN = 512"

definition err_text :: "errbuf \<Rightarrow> string" where
  "err_text err = (case err of None \<Rightarrow> [] | Some (cap, s) \<Rightarrow> s)"

definition log_to :: "Logger \<Rightarrow> log_event list \<Rightarrow> process \<Rightarrow> process" where
  "log_to lg evs ps = ps\<lparr>ps_stderr := ps_stderr ps @ render_log lg evs\<rparr>"

definition compute_node_topology :: "runtime \<Rightarrow> Config \<Rightarrow> Config" where
  "compute_node_topology rt cfg = cfg\<lparr>c_node_rank := rt_node_rank rt, c_node_ranks := rt_node_count rt\<rparr>"

section \<open>Search\<close>

text \<open>Repetition \<open>r\<close> reads the clock twice.\<close>

definition run_search ::
  "host \<Rightarrow> runtime \<Rightarrow> nat \<Rightarrow> MatchBackend \<Rightarrow> Problem \<Rightarrow> Config \<Rightarrow> Match list \<Rightarrow> errbuf \<Rightarrow> heap \<Rightarrow>
    (Status \<times> Match list \<times> dbl \<times> errbuf \<times> log_event list \<times> heap) option" where
  "run_search ho rt r bk p cfg ms err h = do {
     (st, ms', err', lg, h') \<leftarrow> rt_run rt r bk p cfg ms err h;
     Some (st, ms', dsub (msearch_wtime (host_clock ho (2 * r + 1))) (msearch_wtime (host_clock ho (2 * r))), err', lg, h')
   }"

section \<open>Verification of backends\<close>

definition zero_match :: Match where
  "zero_match = \<lparr>m_picture_id = 0, m_object_id = 0, m_row = 0, m_col = 0\<rparr>"

definition match_array :: "cint \<Rightarrow> Match list" where
  "match_array cnt = replicate (nat (if cnt > 0 then cnt else 1)) zero_match"

text \<open>Compare two result arrays; the first five differences are printed.\<close>

function compare_matches :: "Match list \<Rightarrow> Match list \<Rightarrow> cint \<Rightarrow> cint \<Rightarrow> cint \<Rightarrow> (string \<times> cint) option" where
  "compare_matches ref cand i cnt mismatches =
     (if i < cnt then do {
        a \<leftarrow> load ref i;
        b \<leftarrow> load cand i;
        if a \<noteq> b then do {
          (out, m) \<leftarrow> compare_matches ref cand (i + 1) cnt (mismatches + 1);
          Some ((if mismatches < 5
                 then text_line (''    mismatch: expected '' @ [CHR 0x22] @ msearch_format_match a 128 @ [CHR 0x22] @
                        '', got '' @ [CHR 0x22] @ msearch_format_match b 128 @ [CHR 0x22])
                 else []) @ out, m)
        } else compare_matches ref cand (i + 1) cnt mismatches
      } else Some ([], mismatches))"
  by pat_completeness auto
termination
  by (relation "measure (\<lambda>(ref, cand, i, cnt, mismatches). nat (cnt - i))") auto

declare compare_matches.simps [simp del]

record verify_state =
  vs_out :: string
  vs_log :: "log_event list"
  vs_err :: errbuf
  vs_candidate :: "Match list"
  vs_failures :: cint
  vs_heap :: heap

text \<open>One backend of the loop; \<open>k\<close> numbers the runs.\<close>

definition verify_backend ::
  "host \<Rightarrow> Problem \<Rightarrow> Config \<Rightarrow> Match list \<Rightarrow> nat \<Rightarrow> MatchBackend \<Rightarrow> verify_state \<Rightarrow> verify_state option" where
  "verify_backend ho p cfg ref k bk vs =
     (if b_name bk = ''serial'' then Some vs
      else case b_available bk (host_platform ho) reason_buffer of
        (ok, reason) \<Rightarrow>
          if \<not> ok then Some (vs\<lparr>vs_out := vs_out vs @
            text_line (''  '' @ pad_right 8 (b_name bk) @ '' skipped ('' @ err_text reason @ '')'')\<rparr>)
          else do {
            (st, cand, err, lg, h) \<leftarrow> msearch_run_local bk (host_platform ho) (host_env ho) (host_schedule ho k) p cfg
              (vs_candidate vs) (vs_err vs) (vs_heap vs);
            let vs1 = vs\<lparr>vs_candidate := cand, vs_err := err, vs_log := vs_log vs @ lg, vs_heap := h\<rparr>;
            if st \<noteq> MSEARCH_OK then Some (vs1\<lparr>vs_failures := vs_failures vs + 1, vs_out := vs_out vs @
              text_line (''  '' @ pad_right 8 (b_name bk) @ '' FAILED ('' @ msearch_status_str st @ '': '' @ err_text err @ '')'')\<rparr>)
            else do {
              (out, mismatches) \<leftarrow> compare_matches ref cand 0 (num_pictures p) 0;
              Some (if mismatches = 0 then vs1\<lparr>vs_out := vs_out vs @ out @
                      text_line (''  '' @ pad_right 8 (b_name bk) @ '' OK (identical to serial)'')\<rparr>
                    else vs1\<lparr>vs_failures := vs_failures vs + 1, vs_out := vs_out vs @ out @
                      text_line (''  '' @ pad_right 8 (b_name bk) @ '' MISMATCH on '' @ show_int mismatches @ ''/'' @
                        show_int (num_pictures p) @ '' pictures'')\<rparr>)
            }
          })"

fun verify_backends ::
  "host \<Rightarrow> Problem \<Rightarrow> Config \<Rightarrow> Match list \<Rightarrow> nat \<Rightarrow> MatchBackend list \<Rightarrow> verify_state \<Rightarrow> verify_state option" where
  "verify_backends ho p cfg ref k [] vs = Some vs"
| "verify_backends ho p cfg ref k (bk # bks) vs = do {
     vs' \<leftarrow> verify_backend ho p cfg ref k bk vs;
     verify_backends ho p cfg ref (k + 1) bks vs'
   }"

definition run_verify ::
  "host \<Rightarrow> build \<Rightarrow> Problem \<Rightarrow> Config \<Rightarrow> errbuf \<Rightarrow> heap \<Rightarrow>
    (Status \<times> string \<times> errbuf \<times> log_event list \<times> heap) option" where
  "run_verify ho bld p cfg err h =
     (let (ok1, h1) = mem_alloc (host_env ho) h;
          (ok2, h2) = mem_alloc (host_env ho) h1;
          free_both = (\<lambda>h. mem_free (if ok2 then Some () else None) (mem_free (if ok1 then Some () else None) h))
      in if \<not> ok1 \<or> \<not> ok2
         then Some (MSEARCH_ERR_NOMEM, [], msearch_set_err err ''cannot allocate verification buffers'', [], free_both h2)
         else do {
           serial \<leftarrow> msearch_backend_find bld ''serial'';
           (st, ref, err1, lg1, h3) \<leftarrow> msearch_run_local serial (host_platform ho) (host_env ho) (host_schedule ho 0) p cfg
             (match_array (num_pictures p)) err h2;
           if st \<noteq> MSEARCH_OK then Some (st, [], err1, lg1, free_both h3)
           else do {
             vs \<leftarrow> verify_backends ho p cfg ref 1 (fst (msearch_backend_all bld))
               \<lparr>vs_out = text_line (''reference: serial ('' @ show_int (num_pictures p) @ '' pictures)''), vs_log = lg1,
                vs_err = err1, vs_candidate = match_array (num_pictures p), vs_failures = 0, vs_heap = h3\<rparr>;
             let (st', err') = (if vs_failures vs > 0
               then (MSEARCH_ERR_BACKEND, msearch_set_err (vs_err vs)
                       (show_int (vs_failures vs) @ '' backend(s) disagreed with the serial reference''))
               else (MSEARCH_OK, vs_err vs));
             Some (st', vs_out vs, err', vs_log vs, free_both (vs_heap vs))
           }
         })"

section \<open>Timing reports\<close>

definition compare_double :: "dbl \<Rightarrow> dbl \<Rightarrow> int" where
  "compare_double lhs rhs = (if dlt rhs lhs then 1 else 0) - (if dlt lhs rhs then 1 else 0)"

definition report_bench ::
  "host \<Rightarrow> dbl list \<Rightarrow> cint \<Rightarrow> string \<Rightarrow> cint \<Rightarrow> heap \<Rightarrow> (string \<times> heap) option" where
  "report_bench ho samples cnt backend_name world_size h =
     (let (ok, h1) = mem_alloc (host_env ho) h in
      if \<not> ok then Some ([], h1)
      else do {
        let sorted = host_qsort ho compare_double samples;
        let tot = foldl dadd dzero sorted;
        mn \<leftarrow> load sorted 0;
        mid \<leftarrow> c_div cnt 2;
        med \<leftarrow> load sorted mid;
        mx \<leftarrow> load sorted (cnt - 1);
        Some (text_line (''backend='' @ backend_name @ '' ranks='' @ show_int world_size @ '' reps='' @ show_int cnt @
                '' min='' @ show_f6 mn @ ''s median='' @ show_f6 med @ ''s mean='' @
                show_f6 (ddiv tot (dof_int cnt)) @ ''s max='' @ show_f6 mx @ ''s''),
              mem_free (Some ()) h1)
      })"

section \<open>The main function\<close>

type_synonym exit = "cint \<times> process"

text \<open>The label \<open>cleanup\<close>.\<close>

definition cleanup :: "cint \<Rightarrow> Problem \<Rightarrow> process \<Rightarrow> exit option" where
  "cleanup code p ps = do {
     (q, h) \<leftarrow> msearch_problem_free (Some p) (ps_heap ps);
     Some (code, ps\<lparr>ps_heap := h\<rparr>)
   }"

text \<open>The repetitions; the first that fails aborts the run.\<close>

function run_reps ::
  "host \<Rightarrow> runtime \<Rightarrow> Logger \<Rightarrow> MatchBackend \<Rightarrow> Problem \<Rightarrow> Config \<Rightarrow> cint \<Rightarrow> cint \<Rightarrow> Match list \<Rightarrow> dbl list \<Rightarrow> errbuf \<Rightarrow>
    process \<Rightarrow> (exit + Match list \<times> dbl list \<times> errbuf \<times> process) option" where
  "run_reps ho rt lg bk p cfg r reps ms samples err ps =
     (if r < reps then do {
        (st, ms', elapsed, err', evs, h) \<leftarrow> run_search ho rt (nat r) bk p cfg ms err (ps_heap ps);
        let ps1 = log_to lg evs (ps\<lparr>ps_heap := h\<rparr>);
        if st \<noteq> MSEARCH_OK
        then Some (Inl (6, log_to lg [(LOG_ERROR, ''search failed: '' @ err_text err')] ps1))
        else run_reps ho rt lg bk p cfg (r + 1) reps ms' (samples @ [elapsed]) err' ps1
      } else Some (Inr (ms, samples, err, ps)))"
  by pat_completeness auto
termination
  by (relation "measure (\<lambda>(ho, rt, lg, bk, p, cfg, r, reps, ms, samples, err, ps). nat (reps - r))") auto

declare run_reps.simps [simp del]

text \<open>After the repetitions: timing to \<open>stderr\<close>, results to their file, from rank 0.\<close>

definition main_report ::
  "host \<Rightarrow> runtime \<Rightarrow> Logger \<Rightarrow> string \<Rightarrow> Problem \<Rightarrow> Config \<Rightarrow> cint \<Rightarrow> Match list \<Rightarrow> dbl list \<Rightarrow> errbuf \<Rightarrow> process \<Rightarrow>
    exit option" where
  "main_report ho rt lg backend_name p cfg reps ms samples err ps =
     (if rt_rank rt = 0 then do {
        ps1 \<leftarrow> (if c_bench_reps cfg > 0 then do {
            (t, h) \<leftarrow> report_bench ho samples reps backend_name (rt_world_size rt) (ps_heap ps);
            Some (ps\<lparr>ps_stderr := ps_stderr ps @ t, ps_heap := h\<rparr>)
          } else do {
            t0 \<leftarrow> load samples 0;
            Some (ps\<lparr>ps_stderr := ps_stderr ps @ text_line (''TotalTime = '' @ show_f6 t0 @ '' seconds'')\<rparr>)
          });
        (st, out, err1) \<leftarrow> msearch_write_results (host_files ho) (c_output_path cfg) ms (num_pictures p) err;
        let ps2 = (if c_output_path cfg = ''-'' then ps1\<lparr>ps_stdout := ps_stdout ps1 @ out\<rparr>
                   else if open_error (host_files ho) (c_output_path cfg) \<noteq> None then ps1
                   else ps1\<lparr>ps_file := Some (c_output_path cfg, out)\<rparr>);
        Some (if st \<noteq> MSEARCH_OK then (1, log_to lg [(LOG_ERROR, err_text err1)] ps2)
              else (0, log_to lg [(LOG_INFO, ''wrote '' @ show_int (num_pictures p) @ '' results to '' @ c_output_path cfg)] ps2))
      } else Some (0, ps))"

definition main_search ::
  "host \<Rightarrow> build \<Rightarrow> runtime \<Rightarrow> Logger \<Rightarrow> Problem \<Rightarrow> Config \<Rightarrow> errbuf \<Rightarrow> process \<Rightarrow> exit option" where
  "main_search ho bld rt lg p cfg err ps = do {
     bk \<leftarrow> (if c_backend_name cfg = ''auto'' then Some (msearch_backend_auto bld (host_platform ho))
            else msearch_backend_find bld (c_backend_name cfg));
     let (usable, reason) = b_available bk (host_platform ho) reason_buffer;
     if \<not> usable
     then Some (4, log_to lg [(LOG_ERROR, ''backend '' @ quoted (b_name bk) @ '' is not usable: '' @ err_text reason)] ps)
     else do {
       let ps1 = (if rt_rank rt = 0
         then log_to lg [(LOG_INFO, ''backend='' @ b_name bk @ '' ranks='' @ show_int (rt_world_size rt))] ps else ps);
       let (ok1, h1) = mem_alloc (host_env ho) (ps_heap ps1);
       if \<not> ok1 then Some (5, log_to lg [(LOG_ERROR, ''cannot allocate result array'')] (ps1\<lparr>ps_heap := h1\<rparr>))
       else do {
         let reps = (if c_bench_reps cfg > 0 then c_bench_reps cfg else 1);
         let (ok2, h2) = mem_alloc (host_env ho) h1;
         if \<not> ok2 then Some (5, log_to lg [(LOG_ERROR, ''cannot allocate timing buffer'')] (ps1\<lparr>ps_heap := h2\<rparr>))
         else do {
           r \<leftarrow> run_reps ho rt lg bk p cfg 0 reps (match_array (num_pictures p)) [] err (ps1\<lparr>ps_heap := h2\<rparr>);
           case r of
             Inl ended \<Rightarrow> Some ended
           | Inr (ms, samples, err1, ps2) \<Rightarrow> do {
               (code, ps3) \<leftarrow> main_report ho rt lg (b_name bk) p cfg reps ms samples err1 ps2;
               cleanup code p (ps3\<lparr>ps_heap := mem_free (Some ()) (mem_free (Some ()) (ps_heap ps3))\<rparr>)
             }
         }
       }
     }
   }"

text \<open>From the loaded problem on: the broadcast, then verification or search.\<close>

definition main_loaded ::
  "host \<Rightarrow> build \<Rightarrow> runtime \<Rightarrow> Logger \<Rightarrow> Problem \<Rightarrow> Config \<Rightarrow> errbuf \<Rightarrow> process \<Rightarrow> exit option" where
  "main_loaded ho bld rt lg p cfg err ps =
     (if c_verify cfg then
        if rt_world_size rt > 1 then
          cleanup 2 p (if rt_rank rt = 0
            then log_to lg [(LOG_ERROR, ''--verify compares backends in one process; run without mpirun'')] ps else ps)
        else do {
          (st, out, err1, evs, h) \<leftarrow> run_verify ho bld p cfg err (ps_heap ps);
          let ps1 = log_to lg evs (ps\<lparr>ps_stdout := ps_stdout ps @ out, ps_heap := h\<rparr>);
          if st \<noteq> MSEARCH_OK then cleanup 1 p (log_to lg [(LOG_ERROR, err_text err1)] ps1)
          else cleanup 0 p ps1
        }
      else main_search ho bld rt lg p cfg err ps)"

definition main_problem ::
  "host \<Rightarrow> build \<Rightarrow> runtime \<Rightarrow> Logger \<Rightarrow> Config \<Rightarrow> errbuf \<Rightarrow> process \<Rightarrow> exit option" where
  "main_problem ho bld rt lg cfg err ps = do {
     (st, p, err1, evs, h) \<leftarrow>
       (if rt_rank rt = 0 then msearch_read_problem (host_fopen ho) (host_env ho) (c_input_path cfg) err (ps_heap ps)
        else Some (MSEARCH_OK, msearch_problem_init, err, [], ps_heap ps));
     let ps1 = log_to lg evs (ps\<lparr>ps_heap := h\<rparr>);
     if st \<noteq> MSEARCH_OK
     then Some (2, log_to lg [(LOG_ERROR, msearch_status_str st @ '': '' @ err_text err1)] ps1)
     else do {
       let ps2 = (if rt_rank rt = 0
         then log_to lg [(LOG_INFO, ''loaded '' @ show_int (num_pictures p) @ '' pictures and '' @ show_int (num_objects p) @
                '' objects (threshold '' @ show_g (threshold p) @ '') from '' @ c_input_path cfg)] ps1
         else ps1);
       case rt_broadcast rt of
         None \<Rightarrow> main_loaded ho bld rt lg p cfg err1 ps2
       | Some bcast \<Rightarrow> do {
           (st, p2, tr, err2, evs2, h2) \<leftarrow> bcast p err1 (ps_heap ps2);
           let ps3 = log_to lg evs2 (ps2\<lparr>ps_heap := h2\<rparr>);
           if st \<noteq> MSEARCH_OK then Some (3, log_to lg [(LOG_ERROR, ''broadcast failed: '' @ err_text err2)] ps3)
           else main_loaded ho bld rt lg p2 cfg err2 ps3
         }
     }
   }"

definition main_run :: "host \<Rightarrow> build \<Rightarrow> runtime \<Rightarrow> string list \<Rightarrow> heap \<Rightarrow> exit option" where
  "main_run ho bld rt argv h =
     (let ps = \<lparr>ps_stdout = [], ps_stderr = [], ps_file = None, ps_heap = h\<rparr>;
          (st, cfg, action, err) = msearch_config_parse bld msearch_config_defaults argv (Some (ERR_LEN, []));
          lg = msearch_log_init (c_log_level cfg) (if rt_world_size rt > 1 then rt_rank rt else - 1)
      in if st \<noteq> MSEARCH_OK
         then Some (2, if rt_rank rt = 0 then log_to lg [(LOG_ERROR, err_text err)] ps else ps)
         else if action \<noteq> EARLY_NONE
         then Some (0, if rt_rank rt = 0 then ps\<lparr>ps_stdout :=
                (case action of
                   EARLY_HELP \<Rightarrow> msearch_print_usage (if argv \<noteq> [] then argv ! 0 else ''msearch'')
                 | EARLY_VERSION \<Rightarrow> text_line (''msearch '' @ msearch_version (host_version ho))
                 | EARLY_LIST_BACKENDS \<Rightarrow> msearch_backend_print_list bld (host_platform ho)
                 | EARLY_NONE \<Rightarrow> [])\<rparr> else ps)
         else main_problem ho bld rt lg (compute_node_topology rt cfg) err ps)"

definition main_program :: "host \<Rightarrow> build \<Rightarrow> runtime \<Rightarrow> string list \<Rightarrow> heap \<Rightarrow> exit option" where
  "main_program ho bld rt argv h = do {
     (code, ps) \<leftarrow> main_run ho bld rt argv h;
     Some (code, at_exit ho ps)
   }"

section \<open>A run of the build without MPI\<close>

lemma at_exit_fields [simp]:
  "ps_stderr (at_exit ho ps) = ps_stderr ps" "ps_file (at_exit ho ps) = ps_file ps" "ps_heap (at_exit ho ps) = ps_heap ps"
  "ps_stdout (at_exit ho ps) = arrives_at ho (ps_stdout ps)"
  by (simp_all add: at_exit_def)

lemma arrives_nothing [simp]: "arrives_at ho [] = []"
  by (simp add: arrives_at_def split: option.splits)

lemma log_to_fields [simp]:
  "ps_stdout (log_to lg evs ps) = ps_stdout ps" "ps_file (log_to lg evs ps) = ps_file ps" "ps_heap (log_to lg evs ps) = ps_heap ps"
  by (simp_all add: log_to_def)

lemma canonical_match_ok:
  assumes "problem_ok p" "pic \<in> set (pictures p)"
  shows "match_ok (canonical_match p eps pic)"
proof -
  have pic: "int32 (p_id pic)" "0 < p_n pic" "p_n pic \<le> 46340"
    using assms by (auto simp: problem_ok_def list_all_iff picture_ok_def elim: matrix_okE)
  have none: "match_ok (msearch_match_none (p_id pic))" using pic by (simp add: match_ok_def msearch_match_none_def int_ranges)
  have obj: "int32 (o_id q) \<and> 0 < o_m q" if "q \<in> set (objects p)" for q
    using assms that by (auto simp: problem_ok_def list_all_iff object_ok_def elim: matrix_okE)
  have c: "contract p eps pic (canonical_match p eps pic)"
    using assms(1) obj by (intro canonical_match_contract) (auto simp: problem_ok_def)
  show ?thesis
  proof (cases "\<exists>q \<in> set (objects p). \<exists>row col. occurs (threshold p) eps pic q row col")
    case True
    with c obtain q where q: "q \<in> set (objects p)" "m_picture_id (canonical_match p eps pic) = p_id pic"
      "m_object_id (canonical_match p eps pic) = o_id q"
      "occurs (threshold p) eps pic q (m_row (canonical_match p eps pic)) (m_col (canonical_match p eps pic))"
      unfolding contract_def Let_def if_P [OF True] by blast
    then show ?thesis using obj [OF q(1)] pic by (auto simp: match_ok_def occurs_def int_ranges)
  next
    case False
    with c none show ?thesis unfolding contract_def Let_def if_not_P [OF False] by simp
  qed
qed

text \<open>The bytes of the results file.\<close>

definition result_lines :: "Match list \<Rightarrow> string" where
  "result_lines ms = concat (map (\<lambda>mt. match_line mt @ newline) ms)"

definition writable :: "out_files \<Rightarrow> string \<Rightarrow> bool" where
  "writable os path \<longleftrightarrow> path \<noteq> ''-'' \<and> open_error os path = None \<and> (\<forall>k. write_error os path k = None) \<and> close_error os path = None"

lemma write_lines_more:
  "i \<le> length ms \<Longrightarrow> \<forall>k. write_error os path k = None \<Longrightarrow>
    write_lines os path (ms @ rest) (int i) (int (length ms)) out err =
      Some (MSEARCH_OK, out @ concat (map (\<lambda>mt. msearch_format_match mt 128 @ newline) (drop i ms)), err)"
proof (induction i arbitrary: out rule: inc_induct)
  case base
  then show ?case by (subst write_lines.simps) simp
next
  case (step i)
  have "write_lines os path (ms @ rest) (int i) (int (length ms)) out err =
      write_lines os path (ms @ rest) (int (Suc i)) (int (length ms)) (out @ msearch_format_match (ms ! i) 128 @ newline) err"
    using step(2,4) by (subst write_lines.simps) (simp add: nth_append add.commute)
  also have "\<dots> = Some (MSEARCH_OK, (out @ msearch_format_match (ms ! i) 128 @ newline) @
      concat (map (\<lambda>mt. msearch_format_match mt 128 @ newline) (drop (Suc i) ms)), err)"
    by (rule step(3) [OF step(4)])
  finally show ?case using step(2) by (simp add: drop_nth_Cons)
qed

lemma write_results_written:
  assumes "list_all match_ok ms" "writable os path"
  shows "msearch_write_results os path (ms @ rest) (int (length ms)) err = Some (MSEARCH_OK, result_lines ms, err)"
proof -
  have l: "map (\<lambda>mt. msearch_format_match mt 128 @ newline) ms = map (\<lambda>mt. match_line mt @ newline) ms"
    using assms(1) by (simp add: list_all_iff format_match_line)
  show ?thesis
    using assms(2) write_lines_more [of 0 ms os path rest "[]" err]
    by (simp add: msearch_write_results_def writable_def result_lines_def l)
qed

lemma auto_from_in: "auto_from pf bks \<in> insert msearch_backend_serial (set bks)"
  by (induction bks) auto

lemma report_bench_local:
  assumes "\<forall>f xs. length (host_qsort ho f xs) = length xs" "0 < cnt" "int (length samples) = cnt"
  shows "\<exists>t h'. report_bench ho samples cnt nm ws h = Some (t, h') \<and> live h' = live h"
proof -
  have "load (host_qsort ho compare_double samples) i \<noteq> None" if "0 \<le> i" "i < cnt" for i
    using that assms(1,3) by (simp add: load_def)
  then have "load (host_qsort ho compare_double samples) 0 \<noteq> None" "load (host_qsort ho compare_double samples) (cnt div 2) \<noteq> None"
    "load (host_qsort ho compare_double samples) (cnt - 1) \<noteq> None"
    using assms(2) by simp_all
  then show ?thesis using assms(2) by (auto simp: report_bench_def mem_alloc_def Let_def)
qed

lemma cleanup_spec:
  assumes "problem_ok p" "live (ps_heap ps) = base + held p"
  shows "\<exists>ps'. cleanup code p ps = Some (code, ps') \<and> ps_stdout ps' = ps_stdout ps \<and> ps_file ps' = ps_file ps \<and> live (ps_heap ps') = base"
  using problem_free_spec [of p "ps_heap ps"] assms by (auto simp: cleanup_def problem_ok_def)

section \<open>The runtime as main uses it\<close>

text \<open>
  What main relies on, whatever \<open>MSEARCH_HAVE_MPI\<close> is, for the CPU backends and with memory granted: a run
  on the array main allocated succeeds, rank 0's array then holds the canonical matches, the other
  ranks' arrays are left alone, and what the run allocated is given back; the broadcast on rank 0
  leaves its problem as it is.
\<close>

locale search_runtime =
  fixes mk :: "host \<Rightarrow> runtime"
  assumes run_matches:
    "\<forall>k. grants (host_env ho) k \<Longrightarrow> problem_ok p \<Longrightarrow> num_pictures p \<le> MSEARCH_MAX_COUNT \<Longrightarrow> eps_ok (c_zero_eps cfg) \<Longrightarrow>
      bk \<in> cpu_backends \<Longrightarrow> length ms = length (match_array (num_pictures p)) \<Longrightarrow>
      \<exists>err' l h'. rt_run (mk ho) r bk p cfg ms err h = Some (MSEARCH_OK,
        if rt_rank (mk ho) = 0 then canonical_matches p cfg @ drop (length (pictures p)) ms else ms, err', l, h') \<and> live h' = live h"
  and root_keeps:
    "\<forall>k. grants (host_env ho) k \<Longrightarrow> rt_rank (mk ho) = 0 \<Longrightarrow> rt_broadcast (mk ho) = Some bcast \<Longrightarrow> problem_ok p \<Longrightarrow>
      num_pictures p \<le> MSEARCH_MAX_COUNT \<Longrightarrow> num_objects p \<le> MSEARCH_MAX_COUNT \<Longrightarrow>
      \<exists>tr err' l h'. bcast p err h = Some (MSEARCH_OK, p, tr, err', l, h') \<and> live h' = live h"
begin

lemma run_reps_all:
  assumes mem: "\<forall>k. grants (host_env ho) k" and ok: "problem_ok p" "num_pictures p \<le> MSEARCH_MAX_COUNT" "eps_ok (c_zero_eps cfg)"
    "bk \<in> cpu_backends"
  shows "0 \<le> r \<Longrightarrow> length ms = length (match_array (num_pictures p)) \<Longrightarrow>
    \<exists>ms' samples' err' ps'. run_reps ho (mk ho) lg bk p cfg r reps ms samples err ps =
        Some (Inr (ms', samples', err', ps')) \<and>
      ms' = (if r < reps \<and> rt_rank (mk ho) = 0 then canonical_matches p cfg @ drop (length (pictures p)) ms else ms) \<and>
      int (length samples') = int (length samples) + (if r < reps then reps - r else 0) \<and>
      ps_stdout ps' = ps_stdout ps \<and> ps_file ps' = ps_file ps \<and> live (ps_heap ps') = live (ps_heap ps)"
proof (induction "nat (reps - r)" arbitrary: r ms samples err ps)
  case 0
  then show ?case by (subst run_reps.simps) auto
next
  case (Suc k)
  then have r: "r < reps" by simp
  define ms1 where "ms1 = (if rt_rank (mk ho) = 0 then canonical_matches p cfg @ drop (length (pictures p)) ms else ms)"
  obtain err1 l h1 where run: "rt_run (mk ho) (nat r) bk p cfg ms err (ps_heap ps) = Some (MSEARCH_OK, ms1, err1, l, h1)"
    "live h1 = live (ps_heap ps)"
    using run_matches [OF mem ok Suc.prems(2)] unfolding ms1_def by blast
  have lm: "length (pictures p) \<le> length (match_array (num_pictures p))"
    using problem_okD(1) [OF ok(1)] by (simp add: match_array_def)
  then have len: "length ms1 = length (match_array (num_pictures p))"
    using Suc.prems(2) by (simp add: ms1_def canonical_matches_def)
  define e where "e = dsub (msearch_wtime (host_clock ho (2 * nat r + 1))) (msearch_wtime (host_clock ho (2 * nat r)))"
  define ps1 where "ps1 = log_to lg l (ps\<lparr>ps_heap := h1\<rparr>)"
  have step: "run_reps ho (mk ho) lg bk p cfg r reps ms samples err ps =
      run_reps ho (mk ho) lg bk p cfg (r + 1) reps ms1 (samples @ [e]) err1 ps1"
    using r run(1) by (subst run_reps.simps) (simp add: run_search_def e_def ps1_def)
  have "k = nat (reps - (r + 1))" "0 \<le> r + 1" using Suc by simp_all
  from Suc.hyps(1) [OF this len, of "samples @ [e]" err1 ps1] obtain ms' samples' err' ps' where
    IH: "run_reps ho (mk ho) lg bk p cfg (r + 1) reps ms1 (samples @ [e]) err1 ps1 = Some (Inr (ms', samples', err', ps'))"
    "ms' = (if r + 1 < reps \<and> rt_rank (mk ho) = 0 then canonical_matches p cfg @ drop (length (pictures p)) ms1 else ms1)"
    "int (length samples') = int (length (samples @ [e])) + (if r + 1 < reps then reps - (r + 1) else 0)"
    "ps_stdout ps' = ps_stdout ps1" "ps_file ps' = ps_file ps1" "live (ps_heap ps') = live (ps_heap ps1)"
    by blast
  have "canonical_matches p cfg @ drop (length (pictures p)) (canonical_matches p cfg @ drop (length (pictures p)) ms) =
      canonical_matches p cfg @ drop (length (pictures p)) ms"
    by (simp add: canonical_matches_def)
  with IH(2) r have "ms' = ms1" by (auto simp: ms1_def)
  with IH r run(2) show ?case unfolding step by (auto simp: ms1_def ps1_def)
qed

lemma main_search_all:
  assumes p: "problem_ok p" and few: "num_pictures p \<le> MSEARCH_MAX_COUNT" and cfg: "config_ok bld cfg" and bld: "have_cuda bld = None"
    and mem: "\<forall>k. grants (host_env ho) k" and qs: "\<forall>f xs. length (host_qsort ho f xs) = length xs"
    and out: "rt_rank (mk ho) = 0 \<Longrightarrow> writable (host_files ho) (c_output_path cfg)" and h: "live (ps_heap ps) = base + held p"
  shows "\<exists>ps'. main_search ho bld (mk ho) lg p cfg err ps = Some (0, ps') \<and>
    ps_file ps' = (if rt_rank (mk ho) = 0 then Some (c_output_path cfg, result_lines (canonical_matches p cfg)) else ps_file ps) \<and> ps_stdout ps' = ps_stdout ps \<and>
    live (ps_heap ps') = base"
proof -
  have eps: "eps_ok (c_zero_eps cfg)" using cfg by (simp add: config_ok_def)
  have all: "set (kBackends bld) \<subseteq> cpu_backends" using bld by (auto simp: kBackends_def cpu_backends_def)
  obtain bk where bk: "(if c_backend_name cfg = ''auto'' then Some (msearch_backend_auto bld (host_platform ho))
      else msearch_backend_find bld (c_backend_name cfg)) = Some bk" "bk \<in> cpu_backends"
  proof (cases "c_backend_name cfg = ''auto''")
    case True
    have "msearch_backend_auto bld (host_platform ho) \<in> cpu_backends"
      using auto_from_in [of "host_platform ho" "kBackends bld"] all
      by (auto simp: msearch_backend_auto_def cpu_backends_def)
    with True that show ?thesis by simp
  next
    case False
    with cfg obtain b where b: "msearch_backend_find bld (c_backend_name cfg) = Some b" by (auto simp: config_ok_def)
    then have "b \<in> set (kBackends bld)" using find_from_SomeD by (fastforce simp: msearch_backend_find_def)
    with False that b all show ?thesis by auto
  qed
  define reps where "reps = (if c_bench_reps cfg > 0 then c_bench_reps cfg else 1)"
  have reps: "0 < reps" by (simp add: reps_def)
  define ms where "ms = (if rt_rank (mk ho) = 0 then canonical_matches p cfg @ drop (length (pictures p)) (match_array (num_pictures p))
    else match_array (num_pictures p))"
  have av: "b_available bk (host_platform ho) reason_buffer = (True, reason_buffer)"
    using bk(2) by (auto simp: cpu_backends_def)
  define ps1 where "ps1 = (if rt_rank (mk ho) = 0
    then log_to lg [(LOG_INFO, ''backend='' @ b_name bk @ '' ranks='' @ show_int (rt_world_size (mk ho)))] ps else ps)"
  have ps1: "ps_stdout ps1 = ps_stdout ps" "ps_file ps1 = ps_file ps" "ps_heap ps1 = ps_heap ps" by (simp_all add: ps1_def)
  define ps2 where "ps2 = ps1\<lparr>ps_heap := snd (mem_alloc (host_env ho) (snd (mem_alloc (host_env ho) (ps_heap ps))))\<rparr>"
  obtain samples err1 ps3 where rr:
    "run_reps ho (mk ho) lg bk p cfg 0 reps (match_array (num_pictures p)) [] err ps2 = Some (Inr (ms, samples, err1, ps3))"
    "int (length samples) = reps" "ps_stdout ps3 = ps_stdout ps2" "ps_file ps3 = ps_file ps2" "live (ps_heap ps3) = live (ps_heap ps2)"
    using run_reps_all [OF mem p few eps bk(2), of 0 "match_array (num_pictures p)" lg reps "[]" err ps2] reps
    by (auto simp: ms_def)
  obtain ps4 where rep: "main_report ho (mk ho) lg (b_name bk) p cfg reps ms samples err1 ps3 = Some (0, ps4)"
    "ps_file ps4 = (if rt_rank (mk ho) = 0 then Some (c_output_path cfg, result_lines (canonical_matches p cfg)) else ps_file ps3)" "ps_stdout ps4 = ps_stdout ps3"
    "live (ps_heap ps4) = live (ps_heap ps3)"
  proof (cases "rt_rank (mk ho) = 0")
    case False
    with that show ?thesis by (simp add: main_report_def)
  next
    case root: True
    have oks: "list_all match_ok (canonical_matches p cfg)"
      using canonical_match_ok [OF p] by (simp add: canonical_matches_def list_all_iff)
    have "int (length (canonical_matches p cfg)) = num_pictures p"
      using problem_okD(1) [OF p] by (simp add: canonical_matches_def)
    then have w: "msearch_write_results (host_files ho) (c_output_path cfg) ms (num_pictures p) err1 =
        Some (MSEARCH_OK, result_lines (canonical_matches p cfg), err1)"
      using write_results_written [OF oks out [OF root]] root unfolding ms_def by simp
    have o: "c_output_path cfg \<noteq> ''-''" "open_error (host_files ho) (c_output_path cfg) = None"
      using out [OF root] by (simp_all add: writable_def)
    obtain t h' where b: "report_bench ho samples reps (b_name bk) (rt_world_size (mk ho)) (ps_heap ps3) = Some (t, h')" "live h' = live (ps_heap ps3)"
      using report_bench_local [OF qs reps rr(2)] by blast
    have s: "load samples 0 = Some (samples ! 0)" using rr(2) reps by (simp add: load_def)
    show ?thesis
      using that w o b s root
      by (cases "c_bench_reps cfg > 0") (simp_all add: main_report_def)
  qed
  have "live (mem_free (Some ()) (mem_free (Some ()) (ps_heap ps4))) = base + held p"
    using rep(4) rr(5) h mem by (simp add: ps2_def ps1 mem_alloc_def)
  then obtain ps5 where cl: "cleanup 0 p (ps4\<lparr>ps_heap := mem_free (Some ()) (mem_free (Some ()) (ps_heap ps4))\<rparr>) = Some (0, ps5)"
    "ps_stdout ps5 = ps_stdout ps4" "ps_file ps5 = ps_file ps4" "live (ps_heap ps5) = base"
    using cleanup_spec [OF p, of "ps4\<lparr>ps_heap := mem_free (Some ()) (mem_free (Some ()) (ps_heap ps4))\<rparr>"] by auto
  have "main_search ho bld (mk ho) lg p cfg err ps = Some (0, ps5)"
    unfolding main_search_def bk(1)
    using av mem rr(1) rep(1) cl(1)
    by (simp add: mem_alloc_def reps_def [symmetric] ps1_def [symmetric] ps1 ps2_def)
  with cl rep rr(3,4) show ?thesis by (auto simp: ps1 ps2_def)
qed

end

section \<open>Verification of backends\<close>

text \<open>
  What the verification should amount to: the runs it makes, one per usable backend other than the
  reference, in the order of the registry and each on what the one before left, with the status and
  the array of each; and which of them count against it.
\<close>

definition compared :: "host \<Rightarrow> MatchBackend \<Rightarrow> bool" where
  "compared ho bk \<longleftrightarrow> b_name bk \<noteq> ''serial'' \<and> fst (b_available bk (host_platform ho) reason_buffer)"

fun verify_runs ::
  "host \<Rightarrow> Problem \<Rightarrow> Config \<Rightarrow> nat \<Rightarrow> MatchBackend list \<Rightarrow> Match list \<Rightarrow> errbuf \<Rightarrow> heap \<Rightarrow>
    ((string \<times> Status \<times> Match list) list \<times> heap) option" where
  "verify_runs ho p cfg k [] cand err h = Some ([], h)"
| "verify_runs ho p cfg k (bk # bks) cand err h =
     (if compared ho bk then do {
        (st, cand', err', lg, h') \<leftarrow> msearch_run_local bk (host_platform ho) (host_env ho) (host_schedule ho k) p cfg cand err h;
        (rs, h'') \<leftarrow> verify_runs ho p cfg (k + 1) bks cand' err' h';
        Some ((b_name bk, st, cand') # rs, h'')
      } else verify_runs ho p cfg (k + 1) bks cand err h)"

definition differs :: "Match list \<Rightarrow> cint \<Rightarrow> string \<times> Status \<times> Match list \<Rightarrow> bool" where
  "differs ref n r = (case r of (nm, st, cand) \<Rightarrow> st \<noteq> MSEARCH_OK \<or> take (nat n) cand \<noteq> take (nat n) ref)"

text \<open>The comparison finds a difference exactly where there is one.\<close>

lemma compare_matches_count:
  "0 \<le> i \<Longrightarrow> cnt \<le> int (length ref) \<Longrightarrow> cnt \<le> int (length cand) \<Longrightarrow>
    \<exists>out. compare_matches ref cand i cnt m = Some (out, m + int (length (filter (\<lambda>j. ref ! j \<noteq> cand ! j) [nat i..<nat cnt])))"
proof (induction "nat (cnt - i)" arbitrary: i m)
  case 0
  then show ?case by (subst compare_matches.simps) simp
next
  case (Suc k)
  then have i: "i < cnt" "k = nat (cnt - (i + 1))" "0 \<le> i + 1" by simp_all
  have l: "load ref i = Some (ref ! nat i)" "load cand i = Some (cand ! nat i)" using Suc.prems i by (simp_all add: load_def)
  have "[nat i..<nat cnt] = nat i # [nat (i + 1)..<nat cnt]" using i(1) Suc.prems(1) by (simp add: upt_conv_Cons nat_add_distrib)
  moreover obtain out where "compare_matches ref cand (i + 1) cnt m =
      Some (out, m + int (length (filter (\<lambda>j. ref ! j \<noteq> cand ! j) [nat (i + 1)..<nat cnt])))"
    using Suc.hyps(1) [OF i(2,3) Suc.prems(2,3), of m] by blast
  moreover obtain out' where "compare_matches ref cand (i + 1) cnt (m + 1) =
      Some (out', m + 1 + int (length (filter (\<lambda>j. ref ! j \<noteq> cand ! j) [nat (i + 1)..<nat cnt])))"
    using Suc.hyps(1) [OF i(2,3) Suc.prems(2,3), of "m + 1"] by blast
  ultimately show ?case
    using i(1) l by (cases "ref ! nat i = cand ! nat i") (subst compare_matches.simps, simp)+
qed

lemma take_differs:
  assumes "cnt \<le> int (length ref)" "cnt \<le> int (length cand)"
  shows "(filter (\<lambda>j. ref ! j \<noteq> cand ! j) [0..<nat cnt] = []) = (take (nat cnt) cand = take (nat cnt) ref)"
proof -
  have len: "nat cnt \<le> length ref" "nat cnt \<le> length cand" using assms by simp_all
  have "(take (nat cnt) cand = take (nat cnt) ref) = (\<forall>j < nat cnt. cand ! j = ref ! j)"
    using len by (subst list_eq_iff_nth_eq) simp
  then show ?thesis by (auto simp: filter_empty_conv)
qed

lemma local_loop_length: "local_loop bk ctx ws p i ms err = Some (st', ms', err', lg) \<Longrightarrow> length ms' = length ms"
proof (induction bk ctx ws p i ms err arbitrary: st' ms' err' lg rule: local_loop.induct)
  case (1 bk ctx ws p i ms err)
  show ?case
  proof (cases "i < num_pictures p")
    case False
    with "1.prems" show ?thesis by (subst (asm) local_loop.simps) simp
  next
    case True
    obtain pic st1 mt e1 ms1 where s: "load (pictures p) i = Some pic" "b_search bk ctx (ws i) pic err = Some (st1, mt, e1)"
      "store ms i mt = Some ms1"
      using "1.prems" True by (subst (asm) local_loop.simps) (auto split: bind_splits)
    have len: "length ms1 = length ms" using s(3) by (auto simp: store_def split: if_splits)
    show ?thesis
    proof (cases "st1 = MSEARCH_OK")
      case False
      with "1.prems" True s len show ?thesis by (subst (asm) local_loop.simps) simp
    next
      case ok: True
      then obtain st2 ms2 e2 lg1 where l: "local_loop bk ctx ws p (i + 1) ms1 e1 = Some (st2, ms2, e2, lg1)" "ms' = ms2"
        using "1.prems" [unfolded local_loop.simps [of bk ctx ws p i ms err]] True s by (auto split: bind_splits)
      from "1.IH" [OF True s(1,2) _ _ s(3) _ l(1)] ok l(2) len show ?thesis by simp
    qed
  qed
qed

lemma run_local_length: "msearch_run_local bk pf env ws p cfg ms err h = Some (st, ms', err', lg, h') \<Longrightarrow> length ms' = length ms"
  by (auto simp: msearch_run_local_def dest: local_loop_length split: prod.splits if_splits bind_splits)

lemma verify_backend_step:
  assumes "num_pictures p \<le> int (length ref)" "length (vs_candidate vs) = length ref"
  shows "if compared ho bk then
      (case msearch_run_local bk (host_platform ho) (host_env ho) (host_schedule ho k) p cfg (vs_candidate vs) (vs_err vs) (vs_heap vs) of
         None \<Rightarrow> verify_backend ho p cfg ref k bk vs = None
       | Some (st, cand, err, lg, h) \<Rightarrow> \<exists>vs'. verify_backend ho p cfg ref k bk vs = Some vs' \<and> vs_candidate vs' = cand \<and>
           vs_err vs' = err \<and> vs_heap vs' = h \<and>
           vs_failures vs' = vs_failures vs + (if differs ref (num_pictures p) (b_name bk, st, cand) then 1 else 0))
    else \<exists>vs'. verify_backend ho p cfg ref k bk vs = Some vs' \<and> vs_candidate vs' = vs_candidate vs \<and> vs_err vs' = vs_err vs \<and>
      vs_heap vs' = vs_heap vs \<and> vs_failures vs' = vs_failures vs"
proof (cases "compared ho bk")
  case False
  then show ?thesis by (cases "b_available bk (host_platform ho) reason_buffer") (auto simp: compared_def verify_backend_def)
next
  case cmp: True
  then obtain reason where av: "b_available bk (host_platform ho) reason_buffer = (True, reason)" "b_name bk \<noteq> ''serial''"
    by (cases "b_available bk (host_platform ho) reason_buffer") (auto simp: compared_def)
  show ?thesis
  proof (cases "msearch_run_local bk (host_platform ho) (host_env ho) (host_schedule ho k) p cfg (vs_candidate vs) (vs_err vs) (vs_heap vs)")
    case None
    with cmp av show ?thesis by (simp add: verify_backend_def)
  next
    case (Some r)
    obtain st cand err lg h where r: "r = (st, cand, err, lg, h)" by (cases r) auto
    have len: "num_pictures p \<le> int (length cand)" using run_local_length [OF Some [unfolded r]] assms by simp
    obtain out where c: "compare_matches ref cand 0 (num_pictures p) 0 =
        Some (out, int (length (filter (\<lambda>j. ref ! j \<noteq> cand ! j) [0..<nat (num_pictures p)])))"
      using compare_matches_count [of 0 "num_pictures p" ref cand 0] assms(1) len by auto
    show ?thesis
    proof (cases "st = MSEARCH_OK")
      case False
      with cmp av Some r show ?thesis by (simp add: verify_backend_def differs_def)
    next
      case True
      with cmp av Some r c take_differs [OF assms(1) len] show ?thesis by (auto simp: verify_backend_def differs_def)
    qed
  qed
qed

lemma verify_backends_count:
  "num_pictures p \<le> int (length ref) \<Longrightarrow> length (vs_candidate vs) = length ref \<Longrightarrow>
    map_option (\<lambda>vs'. (vs_failures vs', vs_heap vs')) (verify_backends ho p cfg ref k bks vs) =
    map_option (\<lambda>(rs, h'). (vs_failures vs + int (length (filter (differs ref (num_pictures p)) rs)), h'))
      (verify_runs ho p cfg k bks (vs_candidate vs) (vs_err vs) (vs_heap vs))"
proof (induction bks arbitrary: k vs)
  case (Cons bk bks)
  note step = verify_backend_step [OF Cons.prems, where ho = ho and bk = bk and k = k and cfg = cfg]
  show ?case
  proof (cases "compared ho bk")
    case False
    with step obtain vs1 where v: "verify_backend ho p cfg ref k bk vs = Some vs1" "vs_candidate vs1 = vs_candidate vs"
      "vs_err vs1 = vs_err vs" "vs_heap vs1 = vs_heap vs" "vs_failures vs1 = vs_failures vs" by auto
    with Cons.IH [OF Cons.prems(1), of vs1 "k + 1"] Cons.prems(2) False show ?thesis by simp
  next
    case True
    show ?thesis
    proof (cases "msearch_run_local bk (host_platform ho) (host_env ho) (host_schedule ho k) p cfg (vs_candidate vs) (vs_err vs) (vs_heap vs)")
      case None
      with step True show ?thesis by simp
    next
      case (Some r)
      obtain st cand err lg h where r: "r = (st, cand, err, lg, h)" by (cases r) auto
      with step True Some obtain vs1 where v: "verify_backend ho p cfg ref k bk vs = Some vs1" "vs_candidate vs1 = cand" "vs_err vs1 = err"
        "vs_heap vs1 = h" "vs_failures vs1 = vs_failures vs + (if differs ref (num_pictures p) (b_name bk, st, cand) then 1 else 0)" by auto
      have "length (vs_candidate vs1) = length ref" using run_local_length [OF Some [unfolded r]] Cons.prems(2) v(2) by simp
      from Cons.IH [OF Cons.prems(1) this, of "k + 1"] v True Some r show ?thesis
        by (cases "verify_runs ho p cfg (k + 1) bks cand err h") (auto simp: add.assoc)
    qed
  qed
qed simp

text \<open>The runs of backends that keep the contract.\<close>

lemma verify_runs_contract:
  assumes p: "problem_ok p" "eps_ok (c_zero_eps cfg)"
  shows "\<forall>bk \<in> set bks. match_backend bk \<Longrightarrow> length cand = length (match_array (num_pictures p)) \<Longrightarrow>
    \<exists>rs h'. verify_runs ho p cfg k bks cand err h = Some (rs, h') \<and> live h' = live h \<and>
      map fst rs = map b_name (filter (compared ho) bks) \<and>
      (\<forall>(nm, st, ms) \<in> set rs. st = MSEARCH_OK \<longrightarrow> take (length (pictures p)) ms = canonical_matches p cfg) \<and>
      (\<forall>(nm, st, ms) \<in> set rs. st \<noteq> MSEARCH_OK \<longrightarrow> \<not> (\<forall>k. grants (host_env ho) k) \<or> (\<exists>bk \<in> set bks. bk \<notin> cpu_backends \<and> nm = b_name bk))"
proof (induction bks arbitrary: k cand err h)
  case (Cons bk bks)
  show ?case
  proof (cases "compared ho bk")
    case False
    with Cons.IH [of cand "k + 1" err h] Cons.prems show ?thesis by fastforce
  next
    case True
    have lc: "length (pictures p) \<le> length cand" using problem_okD(1) [OF p(1)] Cons.prems(2) by (simp add: match_array_def)
    have "match_backend bk" using Cons.prems(1) by simp
    then obtain st ms err1 l h1 where r: "msearch_run_local bk (host_platform ho) (host_env ho) (host_schedule ho k) p cfg cand err h = Some (st, ms, err1, l, h1)"
      "st = MSEARCH_OK \<longrightarrow> ms = canonical_matches p cfg @ drop (length (pictures p)) cand" "length ms = length cand" "live h1 = live h"
      using match_backend.run_local_spec [OF _ p lc] by blast
    have good: "st = MSEARCH_OK \<longrightarrow> take (length (pictures p)) ms = canonical_matches p cfg"
      using r(2) by (simp add: canonical_matches_def)
    have blame: "bk \<notin> cpu_backends" if "st \<noteq> MSEARCH_OK" "\<forall>k. grants (host_env ho) k"
      using cpu_run_local [OF p lc, of bk "host_platform ho" "host_env ho" "host_schedule ho k" err h] r(1) that by auto
    from Cons.IH [of ms "k + 1" err1 h1] Cons.prems r(3) obtain rs h' where
      IH: "verify_runs ho p cfg (k + 1) bks ms err1 h1 = Some (rs, h')" "live h' = live h1" "map fst rs = map b_name (filter (compared ho) bks)"
      "\<forall>(nm, st, ms) \<in> set rs. st = MSEARCH_OK \<longrightarrow> take (length (pictures p)) ms = canonical_matches p cfg"
      "\<forall>(nm, st, ms) \<in> set rs. st \<noteq> MSEARCH_OK \<longrightarrow> \<not> (\<forall>k. grants (host_env ho) k) \<or> (\<exists>bk \<in> set bks. bk \<notin> cpu_backends \<and> nm = b_name bk)"
      by auto
    have "verify_runs ho p cfg k (bk # bks) cand err h = Some ((b_name bk, st, ms) # rs, h')" using True r(1) IH(1) by simp
    moreover have "\<forall>(nm, st, ms) \<in> set ((b_name bk, st, ms) # rs). st \<noteq> MSEARCH_OK \<longrightarrow>
        \<not> (\<forall>k. grants (host_env ho) k) \<or> (\<exists>bk \<in> set (bk # bks). bk \<notin> cpu_backends \<and> nm = b_name bk)"
      using blame IH(5) by fastforce
    ultimately show ?thesis using IH(2-4) r(4) True good by (intro exI [of _ "(b_name bk, st, ms) # rs"] exI [of _ h']) simp
  qed
qed simp

lemma run_verify_any:
  assumes bld: "devices_ok bld" and mem: "\<forall>k. grants (host_env ho) k" and p: "problem_ok p" "eps_ok (c_zero_eps cfg)"
  shows "\<exists>ref err1 lg1 h1 rs h2 st out err' lg h'.
    msearch_run_local msearch_backend_serial (host_platform ho) (host_env ho) (host_schedule ho 0) p cfg (match_array (num_pictures p)) err
      (snd (mem_alloc (host_env ho) (snd (mem_alloc (host_env ho) h)))) = Some (MSEARCH_OK, ref, err1, lg1, h1) \<and>
    take (length (pictures p)) ref = canonical_matches p cfg \<and>
    verify_runs ho p cfg 1 (kBackends bld) (match_array (num_pictures p)) err1 h1 = Some (rs, h2) \<and>
    map fst rs = map b_name (filter (compared ho) (kBackends bld)) \<and>
    (\<forall>(nm, st, ms) \<in> set rs. if st = MSEARCH_OK then take (length (pictures p)) ms = canonical_matches p cfg else nm = ''cuda'') \<and>
    run_verify ho bld p cfg err h = Some (st, out, err', lg, h') \<and> live h' = live h \<and>
    st = (if \<exists>r \<in> set rs. differs ref (num_pictures p) r then MSEARCH_ERR_BACKEND else MSEARCH_OK)"
proof -
  have reg: "\<forall>bk \<in> set (kBackends bld). match_backend bk" using registry_match_backend bld by blast
  have serial: "msearch_backend_find bld ''serial'' = Some msearch_backend_serial" "msearch_backend_serial \<in> cpu_backends"
    by (auto simp: msearch_backend_find_def kBackends_def cpu_backends_def split: option.splits)
  define ms0 where "ms0 = match_array (num_pictures p)"
  define h2 where "h2 = snd (mem_alloc (host_env ho) (snd (mem_alloc (host_env ho) h)))"
  have lm: "length (pictures p) \<le> length ms0" using problem_okD(1) [OF p(1)] by (simp add: match_array_def ms0_def)
  define ref where "ref = canonical_matches p cfg @ drop (length (pictures p)) ms0"
  have ref: "length ref = length ms0" "take (length (pictures p)) ref = canonical_matches p cfg" "num_pictures p \<le> int (length ref)"
    using lm problem_okD(1) [OF p(1)] by (simp_all add: ref_def canonical_matches_def)
  obtain err1 l h3 where r: "msearch_run_local msearch_backend_serial (host_platform ho) (host_env ho) (host_schedule ho 0) p cfg ms0 err h2 =
      Some (MSEARCH_OK, ref, err1, l, h3)" "live h3 = live h2"
    using cpu_run_local [OF p lm serial(2), of "host_platform ho" "host_env ho" "host_schedule ho 0" err h2] mem by (auto simp: ref_def)
  obtain rs h4 where rs: "verify_runs ho p cfg 1 (kBackends bld) ms0 err1 h3 = Some (rs, h4)" "live h4 = live h3"
    "map fst rs = map b_name (filter (compared ho) (kBackends bld))"
    "\<forall>(nm, st, ms) \<in> set rs. st = MSEARCH_OK \<longrightarrow> take (length (pictures p)) ms = canonical_matches p cfg"
    "\<forall>(nm, st, ms) \<in> set rs. st \<noteq> MSEARCH_OK \<longrightarrow> \<not> (\<forall>k. grants (host_env ho) k) \<or> (\<exists>bk \<in> set (kBackends bld). bk \<notin> cpu_backends \<and> nm = b_name bk)"
    using verify_runs_contract [OF p reg, of ms0 ho 1 err1 h3] by (auto simp: ms0_def)
  have "b_name bk = ''cuda''" if "bk \<in> set (kBackends bld)" "bk \<notin> cpu_backends" for bk
    using that by (cases "have_cuda bld") (auto simp: kBackends_def cpu_backends_def split: if_splits)
  with rs(4,5) mem have which: "\<forall>(nm, st, ms) \<in> set rs. if st = MSEARCH_OK then take (length (pictures p)) ms = canonical_matches p cfg else nm = ''cuda''"
    by fastforce
  define vs0 where "vs0 = \<lparr>vs_out = text_line (''reference: serial ('' @ show_int (num_pictures p) @ '' pictures)''), vs_log = l,
                vs_err = err1, vs_candidate = ms0, vs_failures = 0, vs_heap = h3\<rparr>"
  obtain vs where v: "verify_backends ho p cfg ref 1 (kBackends bld) vs0 = Some vs" "vs_heap vs = h4"
    "vs_failures vs = int (length (filter (differs ref (num_pictures p)) rs))"
    using verify_backends_count [OF ref(3), of vs0 ho cfg 1 "kBackends bld"] rs(1) ref(1)
    by (cases "verify_backends ho p cfg ref 1 (kBackends bld) vs0") (auto simp: vs0_def)
  have "run_verify ho bld p cfg err h = do {
      let (st', err') = (if vs_failures vs > 0
               then (MSEARCH_ERR_BACKEND, msearch_set_err (vs_err vs)
                       (show_int (vs_failures vs) @ '' backend(s) disagreed with the serial reference''))
               else (MSEARCH_OK, vs_err vs));
      Some (st', vs_out vs, err', vs_log vs, mem_free (Some ()) (mem_free (Some ()) (vs_heap vs)))
    }"
    using mem serial(1) r v(1)
    by (simp add: run_verify_def mem_alloc_def h2_def ms0_def [symmetric] msearch_backend_all_def vs0_def Let_def)
  moreover have "(0 < vs_failures vs) = (\<exists>r \<in> set rs. differs ref (num_pictures p) r)"
    using v(3) by (auto simp: filter_empty_conv)
  moreover have "live (mem_free (Some ()) (mem_free (Some ()) (vs_heap vs))) = live h"
    using v(2) rs(2) r(2) mem by (simp add: h2_def mem_alloc_def)
  ultimately have "\<exists>st out err' lg h'. run_verify ho bld p cfg err h = Some (st, out, err', lg, h') \<and> live h' = live h \<and>
    st = (if \<exists>r \<in> set rs. differs ref (num_pictures p) r then MSEARCH_ERR_BACKEND else MSEARCH_OK)" by (cases "0 < vs_failures vs") auto
  with r(1) rs(1,3) which ref(2) show ?thesis unfolding h2_def ms0_def by blast
qed

section \<open>The whole process\<close>

lemma t_problem_counts: "t_problem ts = Inr (p, ts') \<Longrightarrow> num_pictures p \<le> MSEARCH_MAX_COUNT \<and> num_objects p \<le> MSEARCH_MAX_COUNT"
  by (auto simp: t_problem_def t_tail_def elim!: tbind_InrE split: if_splits dest!: t_matrices_ok t_count_range)

lemma parsed_config:
  assumes "msearch_config_parse bld msearch_config_defaults argv (Some (ERR_LEN, [])) = (MSEARCH_OK, cfg, EARLY_NONE, err)"
    and "\<not> c_verify cfg" "cfg' = compute_node_topology rt cfg"
  shows "config_ok bld cfg'" "c_output_path cfg' = c_output_path cfg" "c_input_path cfg' = c_input_path cfg" "\<not> c_verify cfg'"
    "canonical_matches p cfg' = canonical_matches p cfg" "err = Some (ERR_LEN, [])"
proof -
  have ok: "config_ok bld cfg" and err: "err = Some (ERR_LEN, [])"
    using parse_from_ok [OF defaults_ok, of bld argv 1 0 "Some (ERR_LEN, [])" MSEARCH_OK cfg EARLY_NONE err] assms(1)
    by (simp_all add: msearch_config_parse_def)
  then show "config_ok bld cfg'" "c_output_path cfg' = c_output_path cfg" "c_input_path cfg' = c_input_path cfg" "\<not> c_verify cfg'"
    "canonical_matches p cfg' = canonical_matches p cfg" "err = Some (ERR_LEN, [])"
    using assms(2,3) by (simp_all add: compute_node_topology_def config_ok_def canonical_matches_def)
qed

context search_runtime
begin

lemma main_root:
  assumes rank: "rt_rank (mk ho) = 0"
    and bld: "have_cuda bld = None" and mem: "\<forall>k. grants (host_env ho) k" and qs: "\<forall>f xs. length (host_qsort ho f xs) = length xs"
    and parse: "msearch_config_parse bld msearch_config_defaults argv (Some (ERR_LEN, [])) = (MSEARCH_OK, cfg, EARLY_NONE, err)"
    and verify: "\<not> c_verify cfg" and inp: "host_fopen ho (c_input_path cfg) = Inr file" and out: "writable (host_files ho) (c_output_path cfg)"
  shows "\<exists>code ps. main_program ho bld (mk ho) argv h = Some (code, ps) \<and>
    ps_stdout ps = [] \<and> live (ps_heap ps) = live h \<and>
    (case t_problem (tokens (fgetc_bytes file)) of
       Inr (p, rest) \<Rightarrow> code = 0 \<and> ps_file ps = Some (c_output_path cfg, result_lines (canonical_matches p cfg))
     | Inl st \<Rightarrow> code = 2 \<and> ps_file ps = None \<and> ps_stderr ps \<noteq> [])"
proof -
  define input where "input = fgetc_bytes file"
  define lg where "lg = msearch_log_init (c_log_level cfg) (if rt_world_size (mk ho) > 1 then rt_rank (mk ho) else - 1)"
  define cfg' where "cfg' = compute_node_topology (mk ho) cfg"
  define ps where "ps = \<lparr>ps_stdout = [], ps_stderr = [], ps_file = None, ps_heap = h\<rparr>"
  note c' = parsed_config [OF parse verify cfg'_def]
  have main: "main_run ho bld (mk ho) argv h = main_problem ho bld (mk ho) lg cfg' err ps"
    using parse by (simp add: main_run_def lg_def cfg'_def ps_def)
  have "\<exists>code ps'. main_run ho bld (mk ho) argv h = Some (code, ps') \<and> ps_stdout ps' = [] \<and> live (ps_heap ps') = live h \<and>
    (case t_problem (tokens input) of
       Inr (p, rest) \<Rightarrow> code = 0 \<and> ps_file ps' = Some (c_output_path cfg, result_lines (canonical_matches p cfg))
     | Inl st \<Rightarrow> code = 2 \<and> ps_file ps' = None \<and> ps_stderr ps' \<noteq> [])" (is ?run)
  proof -
    obtain st q err1 evs h1 where rd: "msearch_read_problem_stream (host_env ho) input (c_input_path cfg) err h = Some (st, q, err1, evs, h1)"
      "live h1 - held q = live h" "st = MSEARCH_OK \<longrightarrow> (\<exists>ts. t_problem (tokens input) = Inr (q, ts))"
      "st \<noteq> MSEARCH_OK \<longrightarrow> q = msearch_problem_init \<and> t_problem (tokens input) = Inl st"
      using read_stream_outcome [of "host_env ho" h input "c_input_path cfg" err] mem by (auto simp: read_outcome_def)
    show ?thesis
    proof (cases "st = MSEARCH_OK")
      case True
      with rd(3) obtain ts where t: "t_problem (tokens input) = Inr (q, ts)" by blast
      have q: "problem_ok q" "num_pictures q \<le> MSEARCH_MAX_COUNT" "num_objects q \<le> MSEARCH_MAX_COUNT"
        using t_problem_ok [OF t] t_problem_counts [OF t] by simp_all
      define ps2 where "ps2 = log_to lg [(LOG_INFO, ''loaded '' @ show_int (num_pictures q) @ '' pictures and '' @ show_int (num_objects q) @
                  '' objects (threshold '' @ show_g (threshold q) @ '') from '' @ c_input_path cfg)] (log_to lg evs (ps\<lparr>ps_heap := h1\<rparr>))"
      have ps2: "ps_stdout ps2 = []" "ps_file ps2 = None" "live (ps_heap ps2) = live h + held q"
        using rd(2) by (simp_all add: ps2_def ps_def)
      obtain ps3 err3 where bc: "main_problem ho bld (mk ho) lg cfg' err ps = main_search ho bld (mk ho) lg q cfg' err3 ps3"
        "ps_stdout ps3 = []" "ps_file ps3 = None" "live (ps_heap ps3) = live h + held q"
      proof (cases "rt_broadcast (mk ho)")
        case None
        then have "main_problem ho bld (mk ho) lg cfg' err ps = main_search ho bld (mk ho) lg q cfg' err1 ps2"
          using rd(1) True inp input_def c'(2-4) rank
          by (simp add: main_problem_def msearch_read_problem_def main_loaded_def ps2_def ps_def)
        with ps2 that show ?thesis by blast
      next
        case (Some bcast)
        from root_keeps [OF mem rank Some q] obtain tr err2 l h2 where b:
          "bcast q err1 (ps_heap ps2) = Some (MSEARCH_OK, q, tr, err2, l, h2)" "live h2 = live (ps_heap ps2)" by blast
        have "main_problem ho bld (mk ho) lg cfg' err ps = main_search ho bld (mk ho) lg q cfg' err2 (log_to lg l (ps2\<lparr>ps_heap := h2\<rparr>))"
          using rd(1) True inp input_def c'(2-4) rank Some b(1)
          by (simp add: main_problem_def msearch_read_problem_def main_loaded_def ps2_def ps_def)
        with ps2 b(2) that show ?thesis by simp
      qed
      show ?thesis
        using main_search_all [OF q(1,2) c'(1) bld mem qs _ bc(4), of lg err3] out c'(2,5) t main bc rank by auto
    next
      case False
      have "held msearch_problem_init = 0" by (simp add: held_def msearch_problem_init_def held_pictures_def held_objects_def)
      moreover have "msearch_log lg LOG_ERROR m \<noteq> []" for m
        by (rule msearch_log_speaks) (simp add: lg_def msearch_log_init_def less_eq_LogLevel_def, cases "c_log_level cfg", simp_all)
      ultimately show ?thesis
        using main rd False inp input_def c'(3) rank
        by (auto simp: main_problem_def msearch_read_problem_def ps_def log_to_def render_log_def)
    qed
  qed
  then obtain code ps' where r: "main_run ho bld (mk ho) argv h = Some (code, ps')" "ps_stdout ps' = []" "live (ps_heap ps') = live h"
    "case t_problem (tokens input) of
       Inr (p, rest) \<Rightarrow> code = 0 \<and> ps_file ps' = Some (c_output_path cfg, result_lines (canonical_matches p cfg))
     | Inl st \<Rightarrow> code = 2 \<and> ps_file ps' = None \<and> ps_stderr ps' \<noteq> []" by blast
  then show ?thesis
    by (intro exI [of _ code] exI [of _ "at_exit ho ps'"]) (cases "t_problem (tokens input)"; auto simp: main_program_def input_def)
qed

text \<open>A rank other than 0 that the broadcast hands a problem: it searches along and reports nothing.\<close>

lemma main_other:
  assumes rank: "rt_rank (mk ho) \<noteq> 0"
    and bld: "have_cuda bld = None" and mem: "\<forall>k. grants (host_env ho) k" and qs: "\<forall>f xs. length (host_qsort ho f xs) = length xs"
    and parse: "msearch_config_parse bld msearch_config_defaults argv (Some (ERR_LEN, [])) = (MSEARCH_OK, cfg, EARLY_NONE, err)"
    and verify: "\<not> c_verify cfg" and p: "problem_ok p" "num_pictures p \<le> MSEARCH_MAX_COUNT"
    and bc: "rt_broadcast (mk ho) = Some bcast"
      "\<And>err h. \<exists>tr err' l h'. bcast msearch_problem_init err h = Some (MSEARCH_OK, p, tr, err', l, h') \<and> live h' = live h + held p"
  shows "\<exists>ps. main_program ho bld (mk ho) argv h = Some (0, ps) \<and> ps_stdout ps = [] \<and> ps_file ps = None \<and> live (ps_heap ps) = live h"
proof -
  define lg where "lg = msearch_log_init (c_log_level cfg) (if rt_world_size (mk ho) > 1 then rt_rank (mk ho) else - 1)"
  define cfg' where "cfg' = compute_node_topology (mk ho) cfg"
  define ps where "ps = \<lparr>ps_stdout = [], ps_stderr = [], ps_file = None, ps_heap = h\<rparr>"
  note c' = parsed_config [OF parse verify cfg'_def]
  obtain tr err2 l h2 where b: "bcast msearch_problem_init err h = Some (MSEARCH_OK, p, tr, err2, l, h2)" "live h2 = live h + held p"
    using bc(2) by blast
  have "main_run ho bld (mk ho) argv h = main_search ho bld (mk ho) lg p cfg' err2 (log_to lg l (log_to lg [] ps\<lparr>ps_heap := h2\<rparr>))"
    using parse c'(4) bc(1) b(1) rank
    by (simp add: main_run_def main_problem_def main_loaded_def lg_def cfg'_def ps_def log_to_def)
  then show ?thesis
    using main_search_all [OF p c'(1) bld mem qs _ , of "log_to lg l (log_to lg [] ps\<lparr>ps_heap := h2\<rparr>)" "live h" lg err2] b(2) rank
    by (auto simp: ps_def main_program_def)
qed

end

text \<open>The build without MPI.\<close>

interpretation local: search_runtime local_runtime
proof unfold_locales
  fix ho :: host and p :: Problem and cfg :: Config and bk and ms :: "Match list" and r err h
  assume "\<forall>k. grants (host_env ho) k" "problem_ok p" "eps_ok (c_zero_eps cfg)" "bk \<in> cpu_backends"
    and len: "length ms = length (match_array (num_pictures p))"
  moreover have "length (pictures p) \<le> length ms" using problem_okD(1) [OF \<open>problem_ok p\<close>] len by (simp add: match_array_def)
  ultimately show "\<exists>err' l h'. rt_run (local_runtime ho) r bk p cfg ms err h = Some (MSEARCH_OK,
      if rt_rank (local_runtime ho) = 0 then canonical_matches p cfg @ drop (length (pictures p)) ms else ms, err', l, h') \<and> live h' = live h"
    using cpu_run_local [of p cfg ms bk "host_platform ho" "host_env ho" "host_schedule ho r" err h] by (auto simp: local_runtime_def)
qed (simp add: local_runtime_def)

section \<open>Properties\<close>

text \<open>C8: The program, run without \<open>--verify\<close> in a build without MPI and without CUDA, when memory is granted,
  the input file can be read to its end and the results file can be written. If the input file is in
  the input format, the process exits with 0 and has written, for every picture in input order, the
  line of its canonical match, and nothing to standard output; if it is not, the process exits with 2,
  a message on standard error and no results file. Either way all memory is given back. This holds for
  every choice of CPU backend, repetitions, team and schedule.\<close>

theorem main_end_to_end:
  assumes "have_cuda bld = None" "\<forall>k. grants (host_env ho) k" "\<forall>f xs. length (host_qsort ho f xs) = length xs"
    and "msearch_config_parse bld msearch_config_defaults argv (Some (ERR_LEN, [])) = (MSEARCH_OK, cfg, EARLY_NONE, err)"
    and "\<not> c_verify cfg" "host_fopen ho (c_input_path cfg) = Inr (input, None)" "writable (host_files ho) (c_output_path cfg)"
  shows "\<exists>code ps. main_program ho bld (local_runtime ho) argv h = Some (code, ps) \<and>
    ps_stdout ps = [] \<and> live (ps_heap ps) = live h \<and>
    (case t_problem (tokens input) of
       Inr (p, rest) \<Rightarrow> code = 0 \<and> ps_file ps = Some (c_output_path cfg, result_lines (canonical_matches p cfg))
     | Inl st \<Rightarrow> code = 2 \<and> ps_file ps = None \<and> ps_stderr ps \<noteq> [])"
  using local.main_root [OF _ assms, of h] by (simp add: local_runtime_def fgetc_bytes_def)

text \<open>A machine on which nothing fails.\<close>

definition calm_host :: "string \<Rightarrow> host" where
  "calm_host content =
     \<lparr>host_fopen = (\<lambda>_. Inr (content, None)), host_files = quiet_files, host_clock = (\<lambda>k. (int k, 0)), host_env = granting,
      host_platform = \<lparr>omp_num_threads_set = False, omp_max_threads = 8\<rparr>,
      host_schedule = (\<lambda>_ _. \<lparr>w_team = (\<lambda>_. 3), w_sched = (\<lambda>_ t. t * t), w_stale = (\<lambda>_ _. 0), w_cuda = (\<lambda>_ _. None)\<rparr>),
      host_qsort = (\<lambda>cmp xs. xs), host_version = None, host_stdout = None\<rparr>"

lemma calm_host_simps [simp]:
  "\<forall>k. grants (host_env (calm_host s)) k" "\<forall>f xs. length (host_qsort (calm_host s) f xs) = length xs"
  "host_fopen (calm_host s) path = Inr (s, None)" "path \<noteq> ''-'' \<Longrightarrow> writable (host_files (calm_host s)) path"
  by (simp_all add: calm_host_def granting_def writable_def quiet_files_def)

lemma parse_output: 
  "msearch_config_parse bld msearch_config_defaults [''msearch'', ''-o'', ''results''] err =
    (MSEARCH_OK, msearch_config_defaults\<lparr>c_output_path := ''results''\<rparr>, EARLY_NONE, err)"
  using parse_from_rendered [of "[(False, Output ''results'')]" bld "[''msearch'', ''-o'', ''results'']" "[''msearch'']" 1 0 msearch_config_defaults err]
  by (simp add: msearch_config_parse_def apply_verbosity_def)

theorem main_end_to_end_witness:
  "\<exists>ps ps'. main_program (calm_host small_file) \<lparr>have_cuda = None, have_openmp = True\<rparr> (local_runtime (calm_host small_file))
      [''msearch'', ''-o'', ''results''] no_heap = Some (0, ps) \<and>
    ps_file ps = Some (''results'', ''Picture 7 found Object 9 in Position(1,0)'' @ newline) \<and>
    main_program (calm_host ''1 x'') \<lparr>have_cuda = None, have_openmp = True\<rparr> (local_runtime (calm_host ''1 x''))
      [''msearch'', ''-o'', ''results''] no_heap = Some (2, ps') \<and> ps_stderr ps' \<noteq> []"
proof -
  let ?bld = "\<lparr>have_cuda = None, have_openmp = True\<rparr>" and ?cfg = "msearch_config_defaults\<lparr>c_output_path := ''results''\<rparr>"
  have b: "have_cuda ?bld = None" "\<not> c_verify ?cfg" "writable (host_files (calm_host s)) (c_output_path ?cfg)" for s
    by (simp_all add: msearch_config_defaults_def)
  note m = main_end_to_end [OF b(1) calm_host_simps(1,2) parse_output b(2) calm_host_simps(3) b(3)]
  have "t_problem (tokens small_file) = Inr (small_problem, [])" using small_file_tokens by (simp add: small_problem_def)
  moreover have "result_lines (canonical_matches small_problem ?cfg) = ''Picture 7 found Object 9 in Position(1,0)'' @ newline"
    by code_simp
  moreover have "t_problem (tokens ''1 x'') = Inl MSEARCH_ERR_PARSE" by code_simp
  ultimately show ?thesis using m [of small_file no_heap] m [of "''1 x''" no_heap] by (auto simp: msearch_config_defaults_def)
qed

text \<open>C31: \<open>--verify\<close> compares and is not fooled. First, for any list of backends, right or wrong: every backend
  that is usable and not the reference is run, and the number of failures grows by one for exactly
  those of these runs that report a failure or whose array differs from the reference for some picture.
  Second, on any build, for a well-formed problem and when memory is granted: the reference holds the
  canonical matches; a run is made for each usable backend but the serial one; of these runs only one on
  the CUDA device can report a failure, and every other leaves the canonical matches; the verification
  reports success exactly when no run failed or differed, and gives all memory back.\<close>

theorem verify_compares_every_backend:
  assumes "devices_ok bld" "\<forall>k. grants (host_env ho) k" "problem_ok p" "config_ok bld cfg"
  shows "(\<forall>bks ref k vs. num_pictures p \<le> int (length ref) \<and> length (vs_candidate vs) = length ref \<longrightarrow>
      map_option (\<lambda>vs'. (vs_failures vs', vs_heap vs')) (verify_backends ho p cfg ref k bks vs) =
      map_option (\<lambda>(rs, h'). (vs_failures vs + int (length (filter (differs ref (num_pictures p)) rs)), h'))
        (verify_runs ho p cfg k bks (vs_candidate vs) (vs_err vs) (vs_heap vs))) \<and>
    (\<exists>ref err1 lg1 h1 rs h2 st out err' lg h'.
      msearch_run_local msearch_backend_serial (host_platform ho) (host_env ho) (host_schedule ho 0) p cfg (match_array (num_pictures p)) err
        (snd (mem_alloc (host_env ho) (snd (mem_alloc (host_env ho) h)))) = Some (MSEARCH_OK, ref, err1, lg1, h1) \<and>
      take (length (pictures p)) ref = canonical_matches p cfg \<and>
      verify_runs ho p cfg 1 (kBackends bld) (match_array (num_pictures p)) err1 h1 = Some (rs, h2) \<and>
      map fst rs = map b_name (filter (compared ho) (kBackends bld)) \<and>
      (\<forall>(nm, st, ms) \<in> set rs. if st = MSEARCH_OK then take (length (pictures p)) ms = canonical_matches p cfg else nm = ''cuda'') \<and>
      run_verify ho bld p cfg err h = Some (st, out, err', lg, h') \<and> live h' = live h \<and>
      st = (if \<exists>r \<in> set rs. differs ref (num_pictures p) r then MSEARCH_ERR_BACKEND else MSEARCH_OK))"
proof (intro conjI)
  show "\<forall>bks ref k vs. num_pictures p \<le> int (length ref) \<and> length (vs_candidate vs) = length ref \<longrightarrow>
      map_option (\<lambda>vs'. (vs_failures vs', vs_heap vs')) (verify_backends ho p cfg ref k bks vs) =
      map_option (\<lambda>(rs, h'). (vs_failures vs + int (length (filter (differs ref (num_pictures p)) rs)), h'))
        (verify_runs ho p cfg k bks (vs_candidate vs) (vs_err vs) (vs_heap vs))"
    using verify_backends_count by blast
qed (rule run_verify_any [OF assms(1-3)], use assms(4) in \<open>simp add: config_ok_def\<close>)

text \<open>The OpenMP backend is run, agrees, and the verification succeeds.\<close>

theorem verify_compares_every_backend_witness:
  "\<exists>err1 h1 rs h2 st ms out err' lg h'. verify_runs (calm_host []) tiny_problem msearch_config_defaults 1
      (kBackends \<lparr>have_cuda = None, have_openmp = True\<rparr>) (match_array 1) err1 h1 = Some (rs, h2) \<and>
    rs = [(''openmp'', MSEARCH_OK, ms)] \<and>
    run_verify (calm_host []) \<lparr>have_cuda = None, have_openmp = True\<rparr> tiny_problem msearch_config_defaults None no_heap =
      Some (MSEARCH_OK, out, err', lg, h') \<and> live h' = 0"
proof -
  let ?bld = "\<lparr>have_cuda = None, have_openmp = True\<rparr>" and ?ho = "calm_host []"
  have d: "devices_ok ?bld" by (simp add: devices_ok_def)
  have n: "num_pictures tiny_problem = 1" "length (pictures tiny_problem) = 1" by (simp_all add: tiny_problem_def)
  have c: "map b_name (filter (compared ?ho) (kBackends ?bld)) = [''openmp'']" by (simp add: kBackends_def compared_def)
  from conjunct2 [OF verify_compares_every_backend [OF d calm_host_simps(1) tiny_problem_ok defaults_ok, of "[]" None no_heap], unfolded c n]
  obtain ref err1 h1 rs h2 st out err' lg h' where
    v: "verify_runs ?ho tiny_problem msearch_config_defaults 1 (kBackends ?bld) (match_array 1) err1 h1 = Some (rs, h2)"
      "map fst rs = [''openmp'']" "take 1 ref = canonical_matches tiny_problem msearch_config_defaults"
      "\<forall>(nm, st, ms) \<in> set rs. if st = MSEARCH_OK then take 1 ms = canonical_matches tiny_problem msearch_config_defaults else nm = ''cuda''"
      "run_verify ?ho ?bld tiny_problem msearch_config_defaults None no_heap = Some (st, out, err', lg, h')" "live h' = live no_heap"
      "st = (if \<exists>r \<in> set rs. differs ref 1 r then MSEARCH_ERR_BACKEND else MSEARCH_OK)"
    by (elim exE conjE) (rule that, assumption+)
  from v(2) obtain s ms where rs: "rs = [(''openmp'', s, ms)]" by (cases rs) auto
  with v(4) have "s = MSEARCH_OK" "take 1 ms = canonical_matches tiny_problem msearch_config_defaults" by (auto split: if_splits)
  with v rs show ?thesis by (auto simp: differs_def no_heap_def)
qed

text \<open>The build without CUDA.\<close>

theorem verify_finds_no_difference:
  assumes "have_cuda bld = None" "\<forall>k. grants (host_env ho) k" "problem_ok p" "config_ok bld cfg"
  shows "\<exists>out err' lg h'. run_verify ho bld p cfg err h = Some (MSEARCH_OK, out, err', lg, h') \<and> live h' = live h"
proof -
  have "devices_ok bld" "eps_ok (c_zero_eps cfg)" using assms(1,4) by (simp_all add: devices_ok_def config_ok_def)
  from run_verify_any [OF this(1) assms(2,3) this(2), of err h] obtain ref rs st out err' lg h' where
    v: "map fst rs = map b_name (filter (compared ho) (kBackends bld))" "take (length (pictures p)) ref = canonical_matches p cfg"
      "\<forall>(nm, st, ms) \<in> set rs. if st = MSEARCH_OK then take (length (pictures p)) ms = canonical_matches p cfg else nm = ''cuda''"
      "run_verify ho bld p cfg err h = Some (st, out, err', lg, h')" "live h' = live h"
      "st = (if \<exists>r \<in> set rs. differs ref (num_pictures p) r then MSEARCH_ERR_BACKEND else MSEARCH_OK)" by blast
  have "''cuda'' \<notin> set (map fst rs)" using v(1) assms(1) by (auto simp: kBackends_def)
  with v(2,3) have "\<not> differs ref (num_pictures p) r" if "r \<in> set rs" for r
    using that problem_okD(1) [OF assms(3)] by (cases r) (fastforce simp: differs_def image_iff split: if_splits)
  with v(4-6) show ?thesis by auto
qed

theorem verify_finds_no_difference_witness:
  "\<exists>out err' lg h'. run_verify (calm_host []) \<lparr>have_cuda = None, have_openmp = True\<rparr> tiny_problem msearch_config_defaults None no_heap =
    Some (MSEARCH_OK, out, err', lg, h') \<and> live h' = 0"
  using verify_finds_no_difference [OF _ calm_host_simps(1) tiny_problem_ok defaults_ok, of "\<lparr>have_cuda = None, have_openmp = True\<rparr>" "[]" None no_heap]
  by (auto simp: no_heap_def)

lemma local_loop_logs:
  "local_loop bk ctx ws p i ms err = Some (st', ms', err', lg) \<Longrightarrow> \<forall>ev \<in> set lg. fst ev = LOG_DEBUG"
proof (induction bk ctx ws p i ms err arbitrary: st' ms' err' lg rule: local_loop.induct)
  case (1 bk ctx ws p i ms err)
  show ?case
  proof (cases "i < num_pictures p")
    case False
    with "1.prems" show ?thesis by (subst (asm) local_loop.simps) simp
  next
    case True
    obtain pic st1 mt e1 ms1 where s: "load (pictures p) i = Some pic" "b_search bk ctx (ws i) pic err = Some (st1, mt, e1)"
      "store ms i mt = Some ms1"
      using "1.prems" True by (subst (asm) local_loop.simps) (auto split: bind_splits)
    show ?thesis
    proof (cases "st1 = MSEARCH_OK")
      case False
      with "1.prems" True s show ?thesis by (subst (asm) local_loop.simps) simp
    next
      case ok: True
      then obtain st2 ms2 e2 lg1 m where l: "local_loop bk ctx ws p (i + 1) ms1 e1 = Some (st2, ms2, e2, lg1)" "lg = (LOG_DEBUG, m) # lg1"
        using "1.prems" [unfolded local_loop.simps [of bk ctx ws p i ms err]] True s by (auto split: bind_splits)
      from "1.IH" [OF True s(1,2) _ _ s(3) _ l(1)] ok l(2) show ?thesis by simp
    qed
  qed
qed

text \<open>C33: The usage text promises per-picture progress under \<open>-v\<close>, but \<open>-v\<close> selects the default level and the
  runner reports its progress at the debug level: with a single \<open>-v\<close> the configuration is the default
  one and none of the messages of a run's picture loop reaches standard error.\<close>

theorem verbose_shows_no_progress:
  assumes "msearch_config_parse bld msearch_config_defaults [program, ''-v''] err0 = (st, cfg, act, err1)"
    and "local_loop bk ctx ws p i ms err = Some (st', ms', err', lg)"
  shows "cfg = msearch_config_defaults \<and> render_log (msearch_log_init (c_log_level cfg) rank) lg = []"
proof -
  have c: "cfg = msearch_config_defaults"
    using assms(1) parse_from_rendered [of "[(False, Verbose)]" bld "[program, ''-v'']" "[program]" 1 0 msearch_config_defaults err0]
    by (simp add: msearch_config_parse_def apply_verbosity_def msearch_config_defaults_def)
  have "\<forall>ev \<in> set lg. fst ev = LOG_DEBUG" by (rule local_loop_logs [OF assms(2)])
  then have "render_log (msearch_log_init LOG_INFO rank) lg = []"
    by (induction lg) (auto simp: render_log_def msearch_log_def msearch_log_init_def less_LogLevel_def)
  then show ?thesis by (simp add: c msearch_config_defaults_def)
qed

theorem verbose_shows_no_progress_witness:
  "\<exists>st' ms' err' lg. local_loop msearch_backend_serial (SerialCtx tiny_problem MSEARCH_DEFAULT_ZERO_EPS)
      (\<lambda>_. \<lparr>w_team = (\<lambda>_. 1), w_sched = (\<lambda>_ t. t), w_stale = (\<lambda>_ _. 0), w_cuda = (\<lambda>_ _. None)\<rparr>) tiny_problem 0 [msearch_match_none 0] None = Some (st', ms', err', lg) \<and>
    lg \<noteq> [] \<and> render_log (msearch_log_init LOG_INFO (- 1)) lg = []"
proof -
  let ?run = "local_loop msearch_backend_serial (SerialCtx tiny_problem MSEARCH_DEFAULT_ZERO_EPS)
      (\<lambda>_. \<lparr>w_team = (\<lambda>_. 1), w_sched = (\<lambda>_ t. t), w_stale = (\<lambda>_ _. 0), w_cuda = (\<lambda>_ _. None)\<rparr>) tiny_problem 0 [msearch_match_none 0] None"
  have "case ?run of None \<Rightarrow> False | Some (st', ms', err', lg) \<Rightarrow> lg \<noteq> []" by code_simp
  then obtain st' ms' err' lg where r: "?run = Some (st', ms', err', lg)" "lg \<noteq> []" by (auto split: option.splits)
  obtain st cfg act err1 where p: "msearch_config_parse \<lparr>have_cuda = None, have_openmp = True\<rparr> msearch_config_defaults [''m'', ''-v''] None =
      (st, cfg, act, err1)" by (metis prod_cases4)
  from verbose_shows_no_progress [OF p r(1), of "- 1"] r show ?thesis by (auto simp: msearch_config_defaults_def)
qed

end
