(* ===== verification/Program_MPI.thy ===== *)
theory Program_MPI
  imports Program
begin

text \<open>
  The MPI build of the program as one job: \<open>main\<close> of \<open>src/cli/main.c\<close> on every rank, over the broadcast
  and the distributed run. \<open>mpi_runtime\<close> is what \<open>MSEARCH_HAVE_MPI\<close> selects, for one rank; what that rank
  does not determine itself, the other ranks' states when they enter a run and the interleaving of
  the claims, is part of an \<open>mpi_world\<close>. The lemmas of the locale \<open>search_runtime\<close> then hold of it.
\<close>

section \<open>The runtime of an MPI build\<close>

record mpi_world =
  mw_mpi :: mpi
  mw_node :: "nat \<Rightarrow> cint \<times> cint"
  mw_link :: "nat \<Rightarrow> bc_link"
  mw_peers :: "nat \<Rightarrow> nat \<Rightarrow> rank_in list"
  mw_claims :: "nat \<Rightarrow> nat \<Rightarrow> MatchBackend \<Rightarrow> rank_in list \<Rightarrow> mpi_state"
  mw_size :: nat

text \<open>Repetition \<open>r\<close> of the run on rank \<open>k\<close>: the peers have the same problem and the same options, and differ
  in machine, place within the node, message buffer and heap.\<close>

definition mpi_ranks :: "mpi_world \<Rightarrow> nat \<Rightarrow> host \<Rightarrow> nat \<Rightarrow> Problem \<Rightarrow> Config \<Rightarrow> errbuf \<Rightarrow> heap \<Rightarrow> rank_in list" where
  "mpi_ranks W k ho r p cfg err h =
     (let own = \<lparr>ri_pf = host_platform ho, ri_env = host_env ho, ri_ws = host_schedule ho r, ri_problem = p, ri_cfg = cfg,
            ri_err = err, ri_heap = h\<rparr>;
          peers = map (\<lambda>ri. ri\<lparr>ri_problem := p,
            ri_cfg := cfg\<lparr>c_node_rank := c_node_rank (ri_cfg ri), c_node_ranks := c_node_ranks (ri_cfg ri)\<rparr>\<rparr>) (mw_peers W k r)
      in take k peers @ own # drop k peers)"

definition mpi_runtime :: "mpi_world \<Rightarrow> nat \<Rightarrow> host \<Rightarrow> runtime" where
  "mpi_runtime W k ho =
     \<lparr>rt_rank = int k, rt_world_size = int (mw_size W), rt_node_rank = fst (mw_node W k), rt_node_count = snd (mw_node W k),
      rt_broadcast = Some (\<lambda>p err h. msearch_broadcast_problem (mw_link W k) (host_env ho) p err h),
      rt_run = (\<lambda>r bk p cfg ms err h. do {
        let ris = mpi_ranks W k ho r p cfg err h;
        (outs, ms') \<leftarrow> msearch_run_mpi (mw_mpi W) bk ris ms (mw_claims W k r bk ris);
        (st, err', lg, h') \<leftarrow> load outs (int k);
        Some (st, if k = 0 then ms' else ms, err', lg, h')
      })\<rparr>"

text \<open>A world without failures, seen from rank \<open>k\<close>: the library conforms, every call of the broadcast
  succeeds, the peers' memory is granted, and the claims are an interleaving that has ended.\<close>

definition mpi_world_ok :: "mpi_world \<Rightarrow> nat \<Rightarrow> bool" where
  "mpi_world_ok W k \<longleftrightarrow> k < mw_size W \<and> mpi_conforms (mw_mpi W) \<and>
     lk_root (mw_link W k) = (k = 0) \<and> (\<forall>i. lk_ok (mw_link W k) i) \<and>
     (\<forall>r. length (mw_peers W k r) + 1 = mw_size W) \<and>
     (\<forall>r. \<forall>ri \<in> set (mw_peers W k r). \<forall>i. grants (ri_env ri) i) \<and>
     (\<forall>r bk p eps ris. bk \<in> cpu_backends \<longrightarrow> mpi_job p eps ris \<longrightarrow>
        mpi_reach (mw_mpi W) bk ris (mw_claims W k r bk ris) \<and> all_finished (mw_claims W k r bk ris))"

section \<open>The distributed run on the array of main\<close>

text \<open>Without pictures main still allocates one element, which the run leaves alone.\<close>

lemma gather_records_none:
  assumes "num_pictures p = 0" "gather_records M p env rks [] = Some (None, [])"
  shows "gather_records M p env rks ms = Some (None, ms)"
  using assms
  by (auto simp: gather_records_def scatter.simps clear_matches.simps Let_def size_t_def
      split: Option.bind_splits if_splits prod.splits)

lemma finish_none:
  assumes "num_pictures (ri_problem (hd ris)) = 0" "mpi_finish M bk ris rks [] = Some (outs, [])"
    and "gather_records M (ri_problem (hd ris)) (ri_env (hd ris)) rks [] = Some (None, [])"
  shows "mpi_finish M bk ris rks ms = Some (outs, ms)"
proof -
  obtain ok h0 freed where b: "gather_buffers (ri_env (hd ris)) (num_pictures (ri_problem (hd ris))) (rk_heap (hd rks)) = (ok, h0, freed)"
    by (cases "gather_buffers (ri_env (hd ris)) (num_pictures (ri_problem (hd ris))) (rk_heap (hd rks))") auto
  from assms(2) show ?thesis
    unfolding mpi_finish_def Let_def b gather_records_none [OF assms(1,3)] assms(3) by (simp split: if_splits)
qed

text \<open>The run of two or more ranks on main's array, for any backend: without room to gather rank 0 has no
  defined continuation; otherwise all ranks report success and the array is filled, or none does.\<close>

context match_backend
begin

lemma finish_array:
  assumes job: "mpi_job p (c_zero_eps cfg) ris" and conf: "mpi_conforms M" and two: "2 \<le> length ris"
    and run: "mpi_reach M bk ris s" "all_finished s" and ms: "length ms = length (match_array (num_pictures p))"
  shows "mpi_finish M bk ris (ranks s) ms = None \<and> \<not> (\<forall>k. grants (ri_env (hd ris)) k) \<or>
    (\<exists>outs ms'. mpi_finish M bk ris (ranks s) ms = Some (outs, ms') \<and> length outs = length ris \<and> length ms' = length ms \<and>
      map (live \<circ> snd \<circ> snd \<circ> snd) outs = map (live \<circ> ri_heap) ris \<and>
      (if no_failure s then list_all (\<lambda>out. fst out = MSEARCH_OK) outs \<and> ms' = canonical_matches p cfg @ drop (length (pictures p)) ms
       else list_all (\<lambda>out. fst out \<noteq> MSEARCH_OK) outs))"
proof -
  note jb = mpi_jobD [OF job]
  have hd: "hd ris \<in> set ris" "ri_problem (hd ris) = p" using jb(5,6) by simp_all
  have inv: "mpi_inv bk p (c_zero_eps cfg) ris s" by (rule reach_inv [OF run(1) job conf])
  show ?thesis
  proof (cases "gather_room bk ris")
    case False
    then have "\<not> (\<forall>k. grants (ri_env (hd ris)) k)" using gather_room_granted by blast
    with finish_no_room [OF job conf two run(1) False] show ?thesis by blast
  next
    case room: True
    then have room: "fst (gather_buffers (ri_env (hd ris)) (num_pictures p) (rk_heap (rank_start bk (hd ris))))"
      by (simp add: gather_room_def hd(2))
    show ?thesis
    proof (cases "num_pictures p = 0")
      case False
      then have l: "length ms = length (pictures p)" using ms jb(3) by (simp add: match_array_def)
      then have d: "drop (length (pictures p)) ms = []" by simp
      from finish_spec [OF job conf run l room] show ?thesis unfolding canonical_matches_def d append_Nil2 by blast
    next
      case True
      then have e: "pictures p = []" using jb(3) by simp
      from finish_spec [OF job conf run _ room, of "[]"] e obtain outs where
        o: "mpi_finish M bk ris (ranks s) [] = Some (outs, [])" "length outs = length ris"
          "map (live \<circ> snd \<circ> snd \<circ> snd) outs = map (live \<circ> ri_heap) ris"
          "if no_failure s then list_all (\<lambda>out. fst out = MSEARCH_OK) outs else list_all (\<lambda>out. fst out \<noteq> MSEARCH_OK) outs"
        by (auto split: if_splits)
      have "gather_records M p (ri_env (hd ris)) (ranks s) [] = Some (None, [])"
        using gather_finished [OF job conf inv run(2), of "[]"] e by auto
      with finish_none [of ris M bk "ranks s" outs ms] o True e hd(2) show ?thesis by (auto simp: canonical_matches_def)
    qed
  qed
qed

end


lemma run_mpi_array:
  assumes bk: "bk \<in> cpu_backends" and conf: "mpi_conforms M" and job: "mpi_job p (c_zero_eps cfg) ris"
    and run: "mpi_reach M bk ris s" "all_finished s" and ms: "length ms = length (match_array (num_pictures p))"
    and mem: "\<forall>ri \<in> set ris. \<forall>k. grants (ri_env ri) k"
  shows "\<exists>outs. msearch_run_mpi M bk ris ms s = Some (outs, canonical_matches p cfg @ drop (length (pictures p)) ms) \<and>
    length outs = length ris \<and> list_all (\<lambda>out. fst out = MSEARCH_OK) outs \<and>
    map (live \<circ> snd \<circ> snd \<circ> snd) outs = map (live \<circ> ri_heap) ris"
proof -
  note jb = mpi_jobD [OF job]
  have le: "length (pictures p) \<le> length ms" using ms jb(3) by (simp add: match_array_def)
  show ?thesis
  proof (cases "length ris = 1")
    case True
    then obtain ri where ris: "ris = [ri]" by (cases ris) auto
    have "c_zero_eps (ri_cfg ri) = c_zero_eps cfg" "ri_problem ri = p" using jb(6,7) ris by simp_all
    with cpu_run_local [OF jb(1) _ le bk, of "ri_cfg ri" "ri_pf ri" "ri_env ri" "ri_ws ri" "ri_err ri" "ri_heap ri"] jb(2) mem ris
    show ?thesis by (auto simp: msearch_run_mpi_def canonical_matches_def)
  next
    case False
    with jb(5) have two: "2 \<le> length ris" by (cases ris; cases "tl ris") auto
    have "no_failure s" using cpu_no_failure [OF bk run(1)] mem by (simp add: list_all_iff starts_ok_def)
    moreover have "\<forall>k. grants (ri_env (hd ris)) k" using mem jb(5) by simp
    moreover have "match_backend bk" by (rule cpu_match_backend [OF bk])
    ultimately show ?thesis
      using match_backend.finish_array [OF _ job conf two run ms] two by (fastforce simp: msearch_run_mpi_def)
  qed
qed

section \<open>The interface of main\<close>

lemma mpi_ranks_job:
  assumes "mpi_world_ok W k" "\<forall>i. grants (host_env ho) i" "problem_ok p" "num_pictures p \<le> MSEARCH_MAX_COUNT" "eps_ok (c_zero_eps cfg)"
    and ris_def: "ris = mpi_ranks W k ho r p cfg err h"
  shows "mpi_job p (c_zero_eps cfg) ris" "length ris = mw_size W" "ri_heap (ris ! k) = h" "k < length ris"
    "\<forall>ri \<in> set ris. \<forall>i. grants (ri_env ri) i"
proof -
  have len: "length (mw_peers W k r) + 1 = mw_size W" "k \<le> length (mw_peers W k r)"
    using assms(1) by (auto simp: mpi_world_ok_def dest: spec [of _ r])
  show "length ris = mw_size W" "k < length ris" using len by (simp_all add: ris_def mpi_ranks_def Let_def)
  show "ri_heap (ris ! k) = h" using len by (simp add: ris_def mpi_ranks_def Let_def nth_append)
  have peers: "\<forall>i. grants (ri_env ri) i" if "ri \<in> set (mw_peers W k r)" for ri
    using assms(1) that by (auto simp: mpi_world_ok_def)
  show "mpi_job p (c_zero_eps cfg) ris" using assms(3-5)
    by (auto simp: mpi_job_def ris_def mpi_ranks_def Let_def list_all_iff dest!: in_set_takeD in_set_dropD)
  show "\<forall>ri \<in> set ris. \<forall>i. grants (ri_env ri) i" using peers assms(2)
    by (auto simp: ris_def mpi_ranks_def Let_def dest!: in_set_takeD in_set_dropD)
qed

lemma mpi_search_runtime:
  assumes W: "mpi_world_ok W k"
  shows "search_runtime (mpi_runtime W k)"
proof unfold_locales
  fix ho :: host and p :: Problem and cfg :: Config and bk and ms :: "Match list" and r err h
  assume mem: "\<forall>k. grants (host_env ho) k" and p: "problem_ok p" "num_pictures p \<le> MSEARCH_MAX_COUNT" and eps: "eps_ok (c_zero_eps cfg)"
    and bk: "bk \<in> cpu_backends" and len: "length ms = length (match_array (num_pictures p))"
  let ?ris = "mpi_ranks W k ho r p cfg err h" and ?s = "mw_claims W k r bk (mpi_ranks W k ho r p cfg err h)"
  note ris = mpi_ranks_job [OF W mem p eps refl, of r err h]
  have conf: "mpi_conforms (mw_mpi W)" and run: "mpi_reach (mw_mpi W) bk ?ris ?s" "all_finished ?s"
    using W bk ris(1) unfolding mpi_world_ok_def by blast+
  obtain outs where o: "msearch_run_mpi (mw_mpi W) bk ?ris ms ?s = Some (outs, canonical_matches p cfg @ drop (length (pictures p)) ms)"
    "length outs = length ?ris" "list_all (\<lambda>out. fst out = MSEARCH_OK) outs"
    "map (live \<circ> snd \<circ> snd \<circ> snd) outs = map (live \<circ> ri_heap) ?ris"
    using run_mpi_array [OF bk conf ris(1) run len ris(5)] by blast
  have k: "k < length outs" using o(2) ris(4) by simp
  obtain st err' l h' where out: "outs ! k = (st, err', l, h')" by (cases "outs ! k") auto
  have "st = MSEARCH_OK" using o(3) k out by (auto simp: list_all_length dest: spec [of _ k])
  moreover have "live h' = live h" using arg_cong [OF o(4), of "\<lambda>xs. xs ! k"] k ris(3,4) out by simp
  ultimately show "\<exists>err' l h'. rt_run (mpi_runtime W k ho) r bk p cfg ms err h = Some (MSEARCH_OK,
      if rt_rank (mpi_runtime W k ho) = 0 then canonical_matches p cfg @ drop (length (pictures p)) ms else ms, err', l, h') \<and> live h' = live h"
    using o(1) k out by (simp add: mpi_runtime_def)
next
  fix ho :: host and p :: Problem and bcast err h
  assume mem: "\<forall>k. grants (host_env ho) k" and root: "rt_rank (mpi_runtime W k ho) = 0" and bc: "rt_broadcast (mpi_runtime W k ho) = Some bcast"
    and p: "problem_ok p" "num_pictures p \<le> MSEARCH_MAX_COUNT" "num_objects p \<le> MSEARCH_MAX_COUNT"
  have lk: "lk_root (mw_link W k)" "\<forall>i. lk_ok (mw_link W k) i" using W root by (auto simp: mpi_world_ok_def mpi_runtime_def)
  have "bcast p err h = msearch_broadcast_problem (mw_link W k) (host_env ho) p err h" using bc by (simp add: mpi_runtime_def)
  with broadcast_spec [OF p, of "mw_link W k" p "host_env ho" err h] lk mem
  show "\<exists>tr err' l h'. bcast p err h = Some (MSEARCH_OK, p, tr, err', l, h') \<and> live h' = live h"
    by (auto simp: delivers_def)
qed

text \<open>C3: The whole MPI job, run without \<open>--verify\<close>, without CUDA and without failures: for any number of ranks,
  any interleaving of their claims and any teams and schedules, when rank 0's input can be read to its
  end and is in the input format and the broadcasts deliver what rank 0 sent, every rank exits with 0 and
  gives back its memory, nothing is written to standard output, and rank 0, and no other rank, writes a
  results file: byte for byte the one the build without MPI writes, the line of the canonical match of
  every picture in input order.\<close>

theorem mpi_job_end_to_end:
  assumes "have_cuda bld = None" "\<forall>k < mw_size W. mpi_world_ok W k"
    and "\<forall>k. (\<forall>i. grants (host_env (hosts k)) i) \<and> (\<forall>f xs. length (host_qsort (hosts k) f xs) = length xs)"
    and "msearch_config_parse bld msearch_config_defaults argv (Some (ERR_LEN, [])) = (MSEARCH_OK, cfg, EARLY_NONE, err)"
    and "\<not> c_verify cfg" "host_fopen (hosts 0) (c_input_path cfg) = Inr (input, None)" "writable (host_files (hosts 0)) (c_output_path cfg)"
    and "t_problem (tokens input) = Inr (p, rest)" "\<forall>k. delivers (mw_link W k) (bcast_trace p)"
  shows "\<exists>out. out = result_lines (canonical_matches p cfg) \<and>
    (\<exists>ps. main_program (hosts 0) bld (local_runtime (hosts 0)) argv (heaps 0) = Some (0, ps) \<and> ps_file ps = Some (c_output_path cfg, out)) \<and>
    (\<forall>k < mw_size W. \<exists>ps. main_program (hosts k) bld (mpi_runtime W k (hosts k)) argv (heaps k) = Some (0, ps) \<and>
      ps_stdout ps = [] \<and> live (ps_heap ps) = live (heaps k) \<and>
      ps_file ps = (if k = 0 then Some (c_output_path cfg, out) else None))"
proof (rule exI [of _ "result_lines (canonical_matches p cfg)"], intro conjI allI impI)
  have h: "\<forall>i. grants (host_env (hosts k)) i" "\<forall>f xs. length (host_qsort (hosts k) f xs) = length xs" for k using assms(3) by blast+
  have p: "problem_ok p" "num_pictures p \<le> MSEARCH_MAX_COUNT" "num_objects p \<le> MSEARCH_MAX_COUNT"
    using t_problem_ok [OF assms(8)] t_problem_counts [OF assms(8)] by simp_all
  let ?out = "result_lines (canonical_matches p cfg)"
  show "?out = ?out" by (rule refl)
  show "\<exists>ps. main_program (hosts 0) bld (local_runtime (hosts 0)) argv (heaps 0) = Some (0, ps) \<and> ps_file ps = Some (c_output_path cfg, ?out)"
    using local.main_root [OF _ assms(1) h assms(4-7), of "heaps 0"] assms(8)
    by (auto simp: local_runtime_def [of "hosts 0"] fgetc_bytes_def)
  fix k assume k: "k < mw_size W"
  then have W: "mpi_world_ok W k" using assms(2) by blast
  note rt = mpi_search_runtime [OF W]
  show "\<exists>ps. main_program (hosts k) bld (mpi_runtime W k (hosts k)) argv (heaps k) = Some (0, ps) \<and>
      ps_stdout ps = [] \<and> live (ps_heap ps) = live (heaps k) \<and> ps_file ps = (if k = 0 then Some (c_output_path cfg, ?out) else None)"
  proof (cases "k = 0")
    case True
    have "rt_rank (mpi_runtime W k (hosts k)) = 0" using True by (simp add: mpi_runtime_def)
    from search_runtime.main_root [OF rt this assms(1) h assms(4,5), of "(input, None)" "heaps k"] assms(6-8) True show ?thesis
      by (auto simp: fgetc_bytes_def)
  next
    case False
    have r: "rt_rank (mpi_runtime W k (hosts k)) \<noteq> 0"
      "rt_broadcast (mpi_runtime W k (hosts k)) = Some (\<lambda>p err h. msearch_broadcast_problem (mw_link W k) (host_env (hosts k)) p err h)"
      using False by (simp_all add: mpi_runtime_def)
    have lk: "\<not> lk_root (mw_link W k)" "\<forall>i. lk_ok (mw_link W k) i" using W False by (auto simp: mpi_world_ok_def)
    have "\<exists>tr err' l h'. msearch_broadcast_problem (mw_link W k) (host_env (hosts k)) msearch_problem_init err h =
        Some (MSEARCH_OK, p, tr, err', l, h') \<and> live h' = live h + held p" for err h
      using broadcast_spec [OF p, of "mw_link W k" msearch_problem_init "host_env (hosts k)" err h] lk assms(9) h(1) [of k] by auto
    from search_runtime.main_other [OF rt r(1) assms(1) h assms(4,5) p(1,2) r(2) this, of "heaps k"] False show ?thesis by auto
  qed
qed

text \<open>Two ranks on one kind of machine, with a library that conforms.\<close>

lemma claims_exist: "\<exists>f. \<forall>bk p eps ris. match_backend bk \<longrightarrow> mpi_job p eps ris \<longrightarrow>
    mpi_reach plain_mpi bk ris (f bk ris) \<and> all_finished (f bk ris)"
proof -
  have "\<exists>s. \<forall>p eps. match_backend bk \<longrightarrow> mpi_job p eps ris \<longrightarrow> mpi_reach plain_mpi bk ris s \<and> all_finished s" for bk ris
  proof (cases "match_backend bk \<and> (\<exists>p eps. mpi_job p eps ris)")
    case True
    then obtain p eps where "match_backend bk" "mpi_job p eps ris" by blast
    then obtain s where "(mpi_step plain_mpi bk ris)\<^sup>*\<^sup>* (mpi_start bk ris) s" "all_finished s"
      using match_backend.reach_finish [OF _ at_start _ plain_mpi_conforms, of bk p eps ris] by blast
    with reach_trans at_start show ?thesis by metis
  qed blast
  then show ?thesis by metis
qed

theorem mpi_job_end_to_end_witness:
  "\<exists>W. mw_size W = 2 \<and> (\<forall>k < 2. \<exists>ps. main_program (calm_host small_file) \<lparr>have_cuda = None, have_openmp = True\<rparr>
      (mpi_runtime W k (calm_host small_file)) [''msearch'', ''-o'', ''results''] no_heap = Some (0, ps) \<and>
    ps_file ps = (if k = 0 then Some (''results'', ''Picture 7 found Object 9 in Position(1,0)'' @ newline) else None))"
proof -
  obtain f where f: "\<forall>bk p eps ris. bk \<in> cpu_backends \<longrightarrow> mpi_job p eps ris \<longrightarrow>
      mpi_reach plain_mpi bk ris (f bk ris) \<and> all_finished (f bk ris)" using claims_exist cpu_match_backend by metis
  define W where "W = \<lparr>mw_mpi = plain_mpi, mw_node = (\<lambda>k. (int k, 2)),
    mw_link = (\<lambda>k. \<lparr>lk_root = (k = 0), lk_ok = (\<lambda>_. True), lk_data = (\<lambda>i. bcast_trace small_problem ! i)\<rparr>),
    mw_peers = (\<lambda>k r. [hd two_ranks]), mw_claims = (\<lambda>k r. f), mw_size = 2\<rparr>"
  have "\<forall>i. grants (ri_env (hd two_ranks)) i" by (simp add: two_ranks_def numeral_2_eq_2 granting_def)
  then have W: "\<forall>k < mw_size W. mpi_world_ok W k"
    using f plain_mpi_conforms by (simp add: mpi_world_ok_def W_def)
  let ?bld = "\<lparr>have_cuda = None, have_openmp = True\<rparr>" and ?cfg = "msearch_config_defaults\<lparr>c_output_path := ''results''\<rparr>"
  have b: "have_cuda ?bld = None" "\<not> c_verify ?cfg" "writable (host_files (calm_host s)) (c_output_path ?cfg)" for s
    by (simp_all add: msearch_config_defaults_def)
  have t: "t_problem (tokens small_file) = Inr (small_problem, [])" using small_file_tokens by (simp add: small_problem_def)
  have d: "\<forall>k. delivers (mw_link W k) (bcast_trace small_problem)" by (simp add: delivers_def W_def)
  have o: "result_lines (canonical_matches small_problem ?cfg) = ''Picture 7 found Object 9 in Position(1,0)'' @ newline" by code_simp
  have h: "\<forall>k::nat. (\<forall>i. grants (host_env (calm_host small_file)) i) \<and> (\<forall>f xs. length (host_qsort (calm_host small_file) f xs) = length xs)" by simp
  have path: "c_output_path ?cfg = ''results''" by simp
  have size: "mw_size W = 2" by (simp add: W_def)
  from mpi_job_end_to_end [where hosts = "\<lambda>_. calm_host small_file" and heaps = "\<lambda>_. no_heap",
      OF b(1) W h parse_output b(2) calm_host_simps(3) b(3) t d] show ?thesis
    unfolding o path size using size by blast
qed

end
