(* ===== verification/Program_Safety.thy ===== *)
theory Program_Safety
  imports Program_MPI
begin

text \<open>
  The program when anything may fail: a refused allocation, a call of the CUDA device, of the
  broadcast or of the file system, another rank. The locale \<open>runtime_contract\<close> is what \<open>main\<close> still
  has from its runtime then; the build without MPI interprets it and rank 0 of every MPI job satisfies it
  (\<open>mpi_runtime_contract\<close>). \<open>main_outcome\<close> lists the ways in which the process can end.
\<close>

section \<open>What a failed write leaves\<close>

definition write_fault :: "out_files \<Rightarrow> string \<Rightarrow> nat \<Rightarrow> bool" where
  "write_fault os path n \<longleftrightarrow> path \<noteq> ''-'' \<and> (open_error os path \<noteq> None \<or> close_error os path \<noteq> None) \<or>
     (\<exists>k. 0 \<le> k \<and> k < int n \<and> write_error os path k \<noteq> None)"

lemma result_lines_append: "result_lines (xs @ ys) = result_lines xs @ result_lines ys"
  by (simp add: result_lines_def)

lemma write_lines_handed:
  "i \<le> length ms \<Longrightarrow> \<exists>st k err'. write_lines os path (ms @ rest) (int i) (int (length ms)) out err =
      Some (st, out @ concat (map (\<lambda>mt. msearch_format_match mt 128 @ newline) (take k (drop i ms))), err') \<and>
    (if st = MSEARCH_OK then length ms \<le> i + k \<and> (\<forall>j. int i \<le> j \<and> j < int (length ms) \<longrightarrow> write_error os path j = None)
     else \<exists>j. int i \<le> j \<and> j < int (length ms) \<and> write_error os path j \<noteq> None)"
proof (induction i arbitrary: out rule: inc_induct)
  case base
  then show ?case by (subst write_lines.simps) (intro exI [of _ MSEARCH_OK] exI [of _ 0], auto)
next
  case (step i)
  have drop: "drop i ms = ms ! i # drop (Suc i) ms" using step(2) by (simp add: drop_nth_Cons)
  have ld: "load (ms @ rest) (int i) = Some (ms ! i)" using step(2) by (simp add: nth_append)
  show ?case
  proof (cases "write_error os path (int i)")
    case (Some msg)
    with step(2) ld show ?thesis unfolding drop
      by (subst write_lines.simps) (auto simp: Let_def intro!: exI [of _ MSEARCH_ERR_IO] exI [of _ 1] exI [of _ "int i"])
  next
    case None
    let ?line = "msearch_format_match (ms ! i) 128 @ newline"
    from step(3) [of "out @ ?line"] obtain st k err' where
      w: "write_lines os path (ms @ rest) (int (Suc i)) (int (length ms)) (out @ ?line) err =
        Some (st, (out @ ?line) @ concat (map (\<lambda>mt. msearch_format_match mt 128 @ newline) (take k (drop (Suc i) ms))), err')"
      "if st = MSEARCH_OK then length ms \<le> Suc i + k \<and> (\<forall>j. int (Suc i) \<le> j \<and> j < int (length ms) \<longrightarrow> write_error os path j = None)
       else \<exists>j. int (Suc i) \<le> j \<and> j < int (length ms) \<and> write_error os path j \<noteq> None"
      by blast
    have "write_lines os path (ms @ rest) (int i) (int (length ms)) out err =
        write_lines os path (ms @ rest) (int (Suc i)) (int (length ms)) (out @ ?line) err"
      using None step(2) ld by (subst write_lines.simps) (simp add: add.commute Let_def)
    also note w(1)
    finally have run: "write_lines os path (ms @ rest) (int i) (int (length ms)) out err =
        Some (st, out @ concat (map (\<lambda>mt. msearch_format_match mt 128 @ newline) (take (Suc k) (drop i ms))), err')"
      unfolding drop by simp
    have "(if st = MSEARCH_OK then length ms \<le> i + Suc k \<and> (\<forall>j. int i \<le> j \<and> j < int (length ms) \<longrightarrow> write_error os path j = None)
       else \<exists>j. int i \<le> j \<and> j < int (length ms) \<and> write_error os path j \<noteq> None)"
    proof (cases "st = MSEARCH_OK")
      case True
      have "write_error os path j = None" if "int i \<le> j" "j < int (length ms)" for j
        using w(2) True None that by (cases "j = int i") simp_all
      with w(2) True show ?thesis by simp
    next
      case False
      with w(2) obtain j where "int (Suc i) \<le> j" "j < int (length ms)" "write_error os path j \<noteq> None" by auto
      with False show ?thesis by (auto intro!: exI [of _ j])
    qed
    with run show ?thesis by blast
  qed
qed

text \<open>What the writer leaves is a prefix of the bytes it was to write; it is all of them, and success is
  reported, exactly when no call of the library reported an error.\<close>

lemma write_results_prefix:
  assumes "list_all match_ok ms"
  shows "\<exists>st n err'. msearch_write_results os path (ms @ rest) (int (length ms)) err = Some (st, take n (result_lines ms), err') \<and>
    (if st = MSEARCH_OK then \<not> write_fault os path (length ms) \<and> take n (result_lines ms) = result_lines ms
     else write_fault os path (length ms))"
proof -
  have l: "concat (map (\<lambda>mt. msearch_format_match mt 128 @ newline) (take k ms)) = result_lines (take k ms)" for k
  proof -
    have "match_ok mt" if "mt \<in> set (take k ms)" for mt using assms that in_set_takeD by (metis list_all_iff)
    then show ?thesis by (simp add: result_lines_def format_match_line cong: map_cong)
  qed
  have pre: "result_lines (take k ms) = take (length (result_lines (take k ms))) (result_lines ms)" for k
    using result_lines_append [of "take k ms" "drop k ms"] by simp
  from write_lines_handed [OF le0, where ms = ms and os = os and path = path and rest = rest and out = "[]" and err = err, unfolded drop_0 append_Nil add_0 of_nat_0 l] obtain st k err' where
    w: "write_lines os path (ms @ rest) 0 (int (length ms)) [] err = Some (st, result_lines (take k ms), err')"
    "if st = MSEARCH_OK then length ms \<le> k \<and> (\<forall>j. 0 \<le> j \<and> j < int (length ms) \<longrightarrow> write_error os path j = None)
     else \<exists>j. 0 \<le> j \<and> j < int (length ms) \<and> write_error os path j \<noteq> None"
    by blast
  define n where "n = length (result_lines (take k ms))"
  have n: "result_lines (take k ms) = take n (result_lines ms)" unfolding n_def by (rule pre)
  consider (no_open) "path \<noteq> ''-''" "open_error os path \<noteq> None" | (bad_line) "path = ''-'' \<or> open_error os path = None" "st \<noteq> MSEARCH_OK"
    | (no_close) "path \<noteq> ''-''" "open_error os path = None" "st = MSEARCH_OK" "close_error os path \<noteq> None"
    | (fine) "path = ''-'' \<or> open_error os path = None \<and> close_error os path = None" "st = MSEARCH_OK"
    by (cases "path = ''-''"; cases "open_error os path"; cases "close_error os path"; cases "st = MSEARCH_OK") simp_all
  then show ?thesis
  proof cases
    case no_open
    then show ?thesis
      by (auto simp: msearch_write_results_def write_fault_def intro!: exI [of _ MSEARCH_ERR_IO] exI [of _ 0])
  next
    case bad_line
    then have "msearch_write_results os path (ms @ rest) (int (length ms)) err =
        Some (st, take (if path = ''-'' then n else min (taken os path) n) (result_lines ms), err')"
      using w(1) by (auto simp: msearch_write_results_def Let_def n)
    with w(2) bad_line show ?thesis by (auto simp: write_fault_def)
  next
    case no_close
    then show ?thesis using w
      by (auto simp: msearch_write_results_def write_fault_def Let_def intro!: exI [of _ MSEARCH_ERR_IO] exI [of _ "taken os path"])
  next
    case fine
    then have "msearch_write_results os path (ms @ rest) (int (length ms)) err = Some (st, take n (result_lines ms), err')"
      using w(1) by (auto simp: msearch_write_results_def Let_def n)
    moreover have "take n (result_lines ms) = result_lines ms" using w(2) fine(2) n by simp
    ultimately show ?thesis using w(2) fine
      by (intro exI [of _ st] exI [of _ n] exI [of _ err']) (auto simp: write_fault_def)
  qed
qed


section \<open>What main relies on when anything may fail\<close>

text \<open>The surroundings that make every step possible: memory is granted and \<open>qsort\<close> permutes.\<close>

definition orderly :: "host \<Rightarrow> bool" where
  "orderly ho \<longleftrightarrow> (\<forall>k. grants (host_env ho) k) \<and> (\<forall>f xs. length (host_qsort ho f xs) = length xs)"

text \<open>
  The contract of a runtime on the rank that reports, for every backend that keeps the contract of
  \<open>backend.h\<close>, whatever fails: a run either stops the process, which takes a refused allocation, or keeps
  the array's length and the heap's balance, and has filled the array with the canonical matches if it
  reports success; a broadcast that reports success leaves the problem as it was.
\<close>

locale runtime_contract =
  fixes mk :: "host \<Rightarrow> runtime"
  assumes reports: "rt_rank (mk ho) = 0"
  and run_outcome:
    "match_backend bk \<Longrightarrow> problem_ok p \<Longrightarrow> num_pictures p \<le> MSEARCH_MAX_COUNT \<Longrightarrow> eps_ok (c_zero_eps cfg) \<Longrightarrow>
      length ms = length (match_array (num_pictures p)) \<Longrightarrow>
      rt_run (mk ho) r bk p cfg ms err h = None \<and> \<not> (\<forall>k. grants (host_env ho) k) \<or>
      (\<exists>st ms' err' l h'. rt_run (mk ho) r bk p cfg ms err h = Some (st, ms', err', l, h') \<and> live h' = live h \<and>
        length ms' = length ms \<and> (st = MSEARCH_OK \<longrightarrow> ms' = canonical_matches p cfg @ drop (length (pictures p)) ms))"
  and bcast_outcome:
    "rt_broadcast (mk ho) = Some bcast \<Longrightarrow> problem_ok p \<Longrightarrow> num_pictures p \<le> MSEARCH_MAX_COUNT \<Longrightarrow> num_objects p \<le> MSEARCH_MAX_COUNT \<Longrightarrow>
      \<exists>st p' tr err' l h'. bcast p err h = Some (st, p', tr, err', l, h') \<and> (st = MSEARCH_OK \<longrightarrow> p' = p \<and> live h' = live h)"

lemma error_least: "LOG_ERROR \<le> level"
  by (cases level) (simp_all add: less_eq_LogLevel_def)

lemma log_error_speaks [simp]: "ps_stderr (log_to lg [(LOG_ERROR, m)] ps) \<noteq> []"
  using msearch_log_speaks [of LOG_ERROR lg m] by (simp add: log_to_def render_log_def error_least)

text \<open>What a process has put out: nothing, or these bytes where the option \<open>--output\<close> sends them.\<close>

definition silent :: "process \<Rightarrow> bool" where
  "silent ps \<longleftrightarrow> ps_stdout ps = [] \<and> ps_file ps = None"

definition wrote :: "string \<Rightarrow> string \<Rightarrow> process \<Rightarrow> bool" where
  "wrote path out ps \<longleftrightarrow>
     (if path = ''-'' then ps_stdout ps = out \<and> ps_file ps = None else ps_stdout ps = [] \<and> ps_file ps = Some (path, out))"

text \<open>The problem in the input file, if it can be opened and what \<open>fgetc\<close> delivers is in the input format.\<close>

definition input_problem :: "host \<Rightarrow> string \<Rightarrow> Problem option" where
  "input_problem ho path =
     (case host_fopen ho path of
        Inl msg \<Rightarrow> None
      | Inr f \<Rightarrow> (case t_problem (tokens (fgetc_bytes f)) of Inl st \<Rightarrow> None | Inr (p, rest) \<Rightarrow> Some p))"

text \<open>How a process that has loaded \<open>p\<close> may end: with all the lines handed over, with a failed write after
  a prefix of them, or with a failure named on standard error and nothing put out.\<close>

definition exit_ok :: "host \<Rightarrow> build \<Rightarrow> runtime \<Rightarrow> Config \<Rightarrow> Problem \<Rightarrow> int \<Rightarrow> cint \<Rightarrow> process \<Rightarrow> bool" where
  "exit_ok ho bld rt cfg p base code ps \<longleftrightarrow>
     code = 0 \<and> wrote (c_output_path cfg) (result_lines (canonical_matches p cfg)) ps \<and> live (ps_heap ps) = base \<or>
     ps_stderr ps \<noteq> [] \<and>
       (code = 1 \<and> live (ps_heap ps) = base \<and> write_fault (host_files ho) (c_output_path cfg) (length (pictures p)) \<and>
          (silent ps \<or> (\<exists>n. wrote (c_output_path cfg) (take n (result_lines (canonical_matches p cfg))) ps)) \<or>
        silent ps \<and> (code = 3 \<and> rt_broadcast rt \<noteq> None \<or> code = 4 \<and> have_cuda bld \<noteq> None \<or> code = 5 \<and> \<not> orderly ho \<or> code = 6))"

text \<open>
  The exit code, read off the calls main makes: reading the input, the broadcast, the backend's own word on
  its availability, the repetitions of the run, the calls of the file system. \<open>runs_status\<close> is the status of the
  first repetition that fails, or success; each repetition starts from what the one before has left.
\<close>

fun runs_status ::
  "runtime \<Rightarrow> MatchBackend \<Rightarrow> Problem \<Rightarrow> Config \<Rightarrow> nat \<Rightarrow> nat \<Rightarrow> Match list \<Rightarrow> errbuf \<Rightarrow> heap \<Rightarrow> Status option" where
  "runs_status rt bk p cfg r 0 ms err h = Some MSEARCH_OK"
| "runs_status rt bk p cfg r (Suc n) ms err h = do {
     (st, ms', err', lg, h') \<leftarrow> rt_run rt r bk p cfg ms err h;
     if st = MSEARCH_OK then runs_status rt bk p cfg (Suc r) n ms' err' h' else Some st
   }"

definition chosen_backend :: "host \<Rightarrow> build \<Rightarrow> Config \<Rightarrow> MatchBackend option" where
  "chosen_backend ho bld cfg =
     (if c_backend_name cfg = ''auto'' then Some (msearch_backend_auto bld (host_platform ho))
      else msearch_backend_find bld (c_backend_name cfg))"

definition search_ends :: "host \<Rightarrow> build \<Rightarrow> runtime \<Rightarrow> Config \<Rightarrow> Problem \<Rightarrow> errbuf \<Rightarrow> heap \<Rightarrow> cint \<Rightarrow> bool" where
  "search_ends ho bld rt cfg p err h code \<longleftrightarrow>
     (\<exists>bk. chosen_backend ho bld cfg = Some bk \<and>
       (if \<not> fst (b_available bk (host_platform ho) reason_buffer) then code = 4
        else \<exists>st. runs_status rt bk p cfg 0 (if c_bench_reps cfg > 0 then nat (c_bench_reps cfg) else 1)
            (match_array (num_pictures p)) err (snd (mem_alloc (host_env ho) (snd (mem_alloc (host_env ho) h)))) = Some st \<and>
          code = (if st \<noteq> MSEARCH_OK then 6
                  else if write_fault (host_files ho) (c_output_path cfg) (length (pictures p)) then 1 else 0)))"

definition job_ends :: "host \<Rightarrow> build \<Rightarrow> runtime \<Rightarrow> Config \<Rightarrow> errbuf \<Rightarrow> heap \<Rightarrow> cint \<Rightarrow> bool" where
  "job_ends ho bld rt cfg err h code \<longleftrightarrow>
     (\<exists>st p err1 lg h1. msearch_read_problem (host_fopen ho) (host_env ho) (c_input_path cfg) err h = Some (st, p, err1, lg, h1) \<and>
       (if st \<noteq> MSEARCH_OK then code = 2
        else case rt_broadcast rt of
          None \<Rightarrow> search_ends ho bld rt cfg p err1 h1 code
        | Some bcast \<Rightarrow> \<exists>st2 p2 tr err2 lg2 h2. bcast p err1 h1 = Some (st2, p2, tr, err2, lg2, h2) \<and>
            (if st2 \<noteq> MSEARCH_OK then code = 3 else search_ends ho bld rt cfg p2 err2 h2 code)))"

lemma run_reps_status:
  "0 \<le> r \<Longrightarrow> run_reps ho rt lg bk p cfg r reps ms samples err ps = Some z \<Longrightarrow>
    \<exists>st. runs_status rt bk p cfg (nat r) (nat (reps - r)) ms err (ps_heap ps) = Some st \<and> (st = MSEARCH_OK \<longleftrightarrow> \<not> isl z)"
proof (induction "nat (reps - r)" arbitrary: r ms samples err ps)
  case 0
  then show ?case by (subst (asm) run_reps.simps) auto
next
  case (Suc k)
  then have r: "r < reps" "nat (reps - r) = Suc k" "k = nat (reps - (r + 1))" "nat (r + 1) = Suc (nat r)" by simp_all
  show ?case
  proof (cases "rt_run rt (nat r) bk p cfg ms err (ps_heap ps)")
    case None
    with Suc.prems(2) r(1) show ?thesis by (subst (asm) run_reps.simps) (simp add: run_search_def)
  next
    case (Some out)
    obtain st ms1 err1 l h1 where out: "out = (st, ms1, err1, l, h1)" by (cases out) auto
    show ?thesis
    proof (cases "st = MSEARCH_OK")
      case False
      with Suc.prems(2) r Some out show ?thesis by (subst (asm) run_reps.simps) (auto simp: run_search_def)
    next
      case True
      define e where "e = dsub (msearch_wtime (host_clock ho (2 * nat r + 1))) (msearch_wtime (host_clock ho (2 * nat r)))"
      have "run_reps ho rt lg bk p cfg (r + 1) reps ms1 (samples @ [e]) err1 (log_to lg l (ps\<lparr>ps_heap := h1\<rparr>)) = Some z"
        using Suc.prems(2) r(1) Some out True by (subst (asm) run_reps.simps) (simp add: run_search_def e_def)
      from Suc.hyps(1) [OF r(3) _ this] Suc.prems(1) r Some out True show ?thesis by simp
    qed
  qed
qed

lemma log_to_output [simp]: "silent (log_to lg evs ps) = silent ps" "wrote path out (log_to lg evs ps) = wrote path out ps"
  by (simp_all add: silent_def wrote_def)

lemma heap_output [simp]: "silent (ps\<lparr>ps_heap := h\<rparr>) = silent ps" "wrote path out (ps\<lparr>ps_heap := h\<rparr>) = wrote path out ps"
  by (simp_all add: silent_def wrote_def)

lemma stderr_output [simp]: "silent (ps\<lparr>ps_stderr := e\<rparr>) = silent ps" "wrote path out (ps\<lparr>ps_stderr := e\<rparr>) = wrote path out ps"
  by (simp_all add: silent_def wrote_def)

lemma report_bench_outcome:
  assumes "0 < cnt" "int (length samples) = cnt"
  shows "case report_bench ho samples cnt nm ws h of None \<Rightarrow> \<not> orderly ho | Some (t, h') \<Rightarrow> live h' = live h"
proof (cases "length (host_qsort ho compare_double samples) = length samples")
  case True
  then have "load (host_qsort ho compare_double samples) 0 \<noteq> None" "load (host_qsort ho compare_double samples) (cnt div 2) \<noteq> None"
    "load (host_qsort ho compare_double samples) (cnt - 1) \<noteq> None"
    using assms by (simp_all add: load_def)
  then show ?thesis using assms(1) by (auto simp: report_bench_def mem_alloc_def Let_def)
next
  case False
  then have "\<not> orderly ho" by (auto simp: orderly_def)
  then show ?thesis by (auto simp: report_bench_def mem_alloc_def Let_def split: option.splits bind_splits)
qed

lemma granted_live: "mem_alloc env h = (True, h') \<Longrightarrow> live h' = live h + 1"
  by (auto simp: mem_alloc_def split: if_splits)

lemma chosen_registered:
  assumes cfg: "config_ok bld cfg"
  obtains bk where "chosen_backend ho bld cfg = Some bk" "bk \<in> set (kBackends bld)"
proof (cases "c_backend_name cfg = ''auto''")
  case True
  have "msearch_backend_serial \<in> set (kBackends bld)" by (simp add: kBackends_def)
  then have "msearch_backend_auto bld (host_platform ho) \<in> set (kBackends bld)"
    using auto_from_in [of "host_platform ho" "kBackends bld"] by (auto simp: msearch_backend_auto_def)
  with True that show ?thesis by (simp add: chosen_backend_def)
next
  case False
  with cfg obtain b where b: "msearch_backend_find bld (c_backend_name cfg) = Some b" by (auto simp: config_ok_def)
  then have "b \<in> set (kBackends bld)" using find_from_SomeD by (fastforce simp: msearch_backend_find_def)
  with False that b show ?thesis by (simp add: chosen_backend_def)
qed

text \<open>On a CPU, without MPI and with memory no repetition fails.\<close>

lemma local_runs_succeed:
  assumes mem: "\<forall>k. grants (host_env ho) k" and p: "problem_ok p" "num_pictures p \<le> MSEARCH_MAX_COUNT" "eps_ok (c_zero_eps cfg)"
    and bk: "bk \<in> cpu_backends"
  shows "length ms = length (match_array (num_pictures p)) \<Longrightarrow> runs_status (local_runtime ho) bk p cfg r n ms err h = Some MSEARCH_OK"
proof (induction n arbitrary: r ms err h)
  case (Suc n)
  have "length (pictures p) \<le> length (match_array (num_pictures p))" using problem_okD(1) [OF p(1)] by (simp add: match_array_def)
  with local.run_matches [OF mem p bk Suc.prems, of r err h] Suc show ?case
    by (auto simp: local_runtime_def canonical_matches_def)
qed simp

lemma search_ends_local:
  assumes "search_ends ho bld (local_runtime ho) cfg p err h code" "orderly ho" "problem_ok p" "num_pictures p \<le> MSEARCH_MAX_COUNT"
    "config_ok bld cfg" "have_cuda bld = None"
  shows "code \<in> {0, 1}"
proof -
  obtain bk where bk: "chosen_backend ho bld cfg = Some bk" "bk \<in> set (kBackends bld)" by (rule chosen_registered [OF assms(5)])
  then have cpu: "bk \<in> cpu_backends" using assms(6) by (auto simp: kBackends_def cpu_backends_def split: if_splits)
  then have "fst (b_available bk (host_platform ho) reason_buffer)" by (auto simp: cpu_backends_def)
  with assms bk(1) local_runs_succeed [OF _ assms(3,4) _ cpu refl, of ho cfg] show ?thesis
    by (auto simp: search_ends_def orderly_def config_ok_def)
qed

context runtime_contract
begin

lemma reps_outcome:
  assumes bk: "match_backend bk" and p: "problem_ok p" "num_pictures p \<le> MSEARCH_MAX_COUNT" "eps_ok (c_zero_eps cfg)"
  shows "0 \<le> r \<Longrightarrow> length ms = length (match_array (num_pictures p)) \<Longrightarrow>
    (case run_reps ho (mk ho) lg bk p cfg r reps ms samples err ps of
       None \<Rightarrow> \<not> orderly ho
     | Some (Inl (code, ps')) \<Rightarrow> code = 6 \<and> ps_stderr ps' \<noteq> [] \<and> ps_stdout ps' = ps_stdout ps \<and> ps_file ps' = ps_file ps
     | Some (Inr (ms', samples', err', ps')) \<Rightarrow>
         ms' = (if r < reps then canonical_matches p cfg @ drop (length (pictures p)) ms else ms) \<and>
         int (length samples') = int (length samples) + (if r < reps then reps - r else 0) \<and>
         ps_stdout ps' = ps_stdout ps \<and> ps_file ps' = ps_file ps \<and> live (ps_heap ps') = live (ps_heap ps))"
proof (induction "nat (reps - r)" arbitrary: r ms samples err ps)
  case 0
  then show ?case by (subst run_reps.simps) auto
next
  case (Suc k)
  then have r: "r < reps" by simp
  from run_outcome [OF bk p Suc.prems(2), of ho "nat r" err "ps_heap ps"] show ?case
  proof (elim disjE exE conjE)
    assume "rt_run (mk ho) (nat r) bk p cfg ms err (ps_heap ps) = None" "\<not> (\<forall>k. grants (host_env ho) k)"
    with r show ?case by (subst run_reps.simps) (simp add: run_search_def orderly_def)
  next
    fix st ms1 err1 l h1
    assume run: "rt_run (mk ho) (nat r) bk p cfg ms err (ps_heap ps) = Some (st, ms1, err1, l, h1)" "live h1 = live (ps_heap ps)"
      "length ms1 = length ms" "st = MSEARCH_OK \<longrightarrow> ms1 = canonical_matches p cfg @ drop (length (pictures p)) ms"
    show ?case
    proof (cases "st = MSEARCH_OK")
      case False
      with r run(1) show ?thesis by (subst run_reps.simps) (simp add: run_search_def)
    next
      case True
      define e where "e = dsub (msearch_wtime (host_clock ho (2 * nat r + 1))) (msearch_wtime (host_clock ho (2 * nat r)))"
      define ps1 where "ps1 = log_to lg l (ps\<lparr>ps_heap := h1\<rparr>)"
      have step: "run_reps ho (mk ho) lg bk p cfg r reps ms samples err ps =
          run_reps ho (mk ho) lg bk p cfg (r + 1) reps ms1 (samples @ [e]) err1 ps1"
        using r run(1) True by (subst run_reps.simps) (simp add: run_search_def e_def ps1_def)
      have "k = nat (reps - (r + 1))" "0 \<le> r + 1" "length ms1 = length (match_array (num_pictures p))"
        using Suc run(3) by simp_all
      note IH = Suc.hyps(1) [OF this, where samples = "samples @ [e]" and err = err1 and ps = ps1]
      have "canonical_matches p cfg @ drop (length (pictures p)) ms1 = ms1" using run(4) True by (simp add: canonical_matches_def)
      with IH r run(2,4) True show ?thesis unfolding step
        by (auto simp: ps1_def split: option.splits sum.splits)
    qed
  qed
qed

lemma report_outcome:
  assumes p: "problem_ok p" and ms: "ms = canonical_matches p cfg @ drop (length (pictures p)) ms0"
    and reps: "0 < reps" "int (length samples) = reps" and ps: "silent ps"
  shows "case main_report ho (mk ho) lg nm p cfg reps ms samples err ps of
      None \<Rightarrow> \<not> orderly ho
    | Some (code, ps') \<Rightarrow> live (ps_heap ps') = live (ps_heap ps) \<and>
       code = (if write_fault (host_files ho) (c_output_path cfg) (length (pictures p)) then 1 else 0) \<and>
       (code = 0 \<and> wrote (c_output_path cfg) (result_lines (canonical_matches p cfg)) ps' \<or>
        code = 1 \<and> ps_stderr ps' \<noteq> [] \<and>
          (silent ps' \<or> (\<exists>n. wrote (c_output_path cfg) (take n (result_lines (canonical_matches p cfg))) ps')))"
proof -
  define timing where "timing = (if c_bench_reps cfg > 0 then do {
            (t, h) \<leftarrow> report_bench ho samples reps nm (rt_world_size (mk ho)) (ps_heap ps);
            Some (ps\<lparr>ps_stderr := ps_stderr ps @ t, ps_heap := h\<rparr>)
          } else do {
            t0 \<leftarrow> load samples 0;
            Some (ps\<lparr>ps_stderr := ps_stderr ps @ text_line (''TotalTime = '' @ show_f6 t0 @ '' seconds'')\<rparr>)
          })"
  have t: "case timing of None \<Rightarrow> \<not> orderly ho | Some ps1 \<Rightarrow> silent ps1 \<and> live (ps_heap ps1) = live (ps_heap ps)"
    using report_bench_outcome [OF reps, where ho = ho and nm = nm and ws = "rt_world_size (mk ho)" and h = "ps_heap ps"] reps ps
    by (auto simp: timing_def load_def split: option.splits bind_splits)
  have oks: "list_all match_ok (canonical_matches p cfg)"
    using canonical_match_ok [OF p] by (simp add: canonical_matches_def list_all_iff)
  have n: "num_pictures p = int (length (canonical_matches p cfg))" "length (canonical_matches p cfg) = length (pictures p)"
    using problem_okD(1) [OF p] by (simp_all add: canonical_matches_def)
  obtain st j err' where w: "msearch_write_results (host_files ho) (c_output_path cfg) ms (num_pictures p) err =
      Some (st, take j (result_lines (canonical_matches p cfg)), err')"
    "if st = MSEARCH_OK then \<not> write_fault (host_files ho) (c_output_path cfg) (length (pictures p)) \<and>
        take j (result_lines (canonical_matches p cfg)) = result_lines (canonical_matches p cfg)
     else write_fault (host_files ho) (c_output_path cfg) (length (pictures p))"
    using write_results_prefix [OF oks, of "host_files ho" "c_output_path cfg" "drop (length (pictures p)) ms0" err]
    unfolding ms n by blast
  have opens: "c_output_path cfg = ''-'' \<or> open_error (host_files ho) (c_output_path cfg) = None" if "st = MSEARCH_OK"
    using w(1) that by (cases "open_error (host_files ho) (c_output_path cfg)") (auto simp: msearch_write_results_def Let_def split: if_splits)
  show ?thesis
  proof (cases timing)
    case None
    with t reports show ?thesis by (simp add: main_report_def timing_def [symmetric])
  next
    case (Some ps1)
    with t have ps1: "silent ps1" "live (ps_heap ps1) = live (ps_heap ps)" by simp_all
    show ?thesis
    proof (cases "st = MSEARCH_OK")
      case True
      then have "\<not> write_fault (host_files ho) (c_output_path cfg) (length (pictures p))"
        "msearch_write_results (host_files ho) (c_output_path cfg) ms (num_pictures p) err =
          Some (MSEARCH_OK, result_lines (canonical_matches p cfg), err')" using w by simp_all
      with opens True ps1 Some reports show ?thesis
        by (auto simp: main_report_def timing_def [symmetric] wrote_def silent_def)
    next
      case False
      with w ps1 Some reports show ?thesis
        by (auto simp: main_report_def timing_def [symmetric] wrote_def silent_def)
    qed
  qed
qed

lemma search_outcome:
  assumes p: "problem_ok p" and few: "num_pictures p \<le> MSEARCH_MAX_COUNT" and cfg: "config_ok bld cfg" and bld: "devices_ok bld"
    and ps: "silent ps" "live (ps_heap ps) = base + held p"
  shows "case main_search ho bld (mk ho) lg p cfg err ps of None \<Rightarrow> \<not> orderly ho
    | Some (code, ps') \<Rightarrow> exit_ok ho bld (mk ho) cfg p base code ps' \<and>
        (orderly ho \<longrightarrow> search_ends ho bld (mk ho) cfg p err (ps_heap ps) code)"
proof -
  have eps: "eps_ok (c_zero_eps cfg)" using cfg by (simp add: config_ok_def)
  obtain bk where chosen: "chosen_backend ho bld cfg = Some bk" "bk \<in> set (kBackends bld)" by (rule chosen_registered [OF cfg])
  note bk = chosen(1) [unfolded chosen_backend_def]
  have contract: "match_backend bk" by (rule registry_match_backend [OF chosen(2) bld])
  obtain usable reason where av: "b_available bk (host_platform ho) reason_buffer = (usable, reason)" by fastforce
  show ?thesis
  proof (cases usable)
    case False
    have "have_cuda bld \<noteq> None"
    proof
      assume "have_cuda bld = None"
      with chosen(2) have "bk \<in> cpu_backends" by (auto simp: kBackends_def cpu_backends_def split: if_splits)
      with av False show False by (auto simp: cpu_backends_def)
    qed
    with False av ps(1) show ?thesis unfolding main_search_def bk by (simp add: exit_ok_def search_ends_def chosen(1))
  next
    case True
    define reps where "reps = (if c_bench_reps cfg > 0 then c_bench_reps cfg else 1)"
    have reps: "0 < reps" by (simp add: reps_def)
    define ps1 where "ps1 = log_to lg [(LOG_INFO, ''backend='' @ b_name bk @ '' ranks='' @ show_int (rt_world_size (mk ho)))] ps"
    define h1 where "h1 = snd (mem_alloc (host_env ho) (ps_heap ps))"
    define h2 where "h2 = snd (mem_alloc (host_env ho) h1)"
    define ps2 where "ps2 = ps1\<lparr>ps_heap := h2\<rparr>"
    have ps1: "silent ps1" "ps_heap ps1 = ps_heap ps" using ps(1) by (simp_all add: ps1_def)
    show ?thesis
    proof (cases "grants (host_env ho) (requests (ps_heap ps)) \<and> grants (host_env ho) (requests h1)")
      case False
      then have "\<not> orderly ho" by (auto simp: orderly_def)
      with False True av ps(1) show ?thesis unfolding main_search_def bk
        by (cases "grants (host_env ho) (requests (ps_heap ps))") (simp_all add: exit_ok_def reports mem_alloc_def h1_def)
    next
      case granted: True
      have h2': "h2 = snd (mem_alloc (host_env ho) (snd (mem_alloc (host_env ho) (ps_heap ps))))" by (simp add: h2_def h1_def)
      have n: "(if c_bench_reps cfg > 0 then nat (c_bench_reps cfg) else 1) = nat reps" by (simp add: reps_def)
      have h1: "mem_alloc (host_env ho) (ps_heap ps) = (True, h1)" using granted by (simp add: h1_def mem_alloc_def)
      have h2: "mem_alloc (host_env ho) h1 = (True, h2)" using granted by (simp add: h2_def mem_alloc_def)
      have live2: "live (ps_heap ps2) = base + held p + 2"
        using granted_live [OF h1] granted_live [OF h2] ps(2) by (simp add: ps2_def)
      have sil2: "silent ps2" using ps1 by (simp add: ps2_def)
      have run: "main_search ho bld (mk ho) lg p cfg err ps = do {
           r \<leftarrow> run_reps ho (mk ho) lg bk p cfg 0 reps (match_array (num_pictures p)) [] err ps2;
           case r of
             Inl ended \<Rightarrow> Some ended
           | Inr (ms, samples, err1, ps3) \<Rightarrow> do {
               (code, ps4) \<leftarrow> main_report ho (mk ho) lg (b_name bk) p cfg reps ms samples err1 ps3;
               cleanup code p (ps4\<lparr>ps_heap := mem_free (Some ()) (mem_free (Some ()) (ps_heap ps4))\<rparr>)
             }
         }"
        unfolding main_search_def bk using True av h1 h2
        by (simp add: reports ps2_def ps1_def reps_def [symmetric] Let_def)
      note rr = reps_outcome [OF contract p few eps order_refl refl, where ho = ho and lg = lg and reps = reps and samples = "[]" and err = err and ps = ps2]
      show ?thesis
      proof (cases "run_reps ho (mk ho) lg bk p cfg 0 reps (match_array (num_pictures p)) [] err ps2")
        case None
        with rr show ?thesis by (simp add: run)
      next
        case (Some r)
        from run_reps_status [OF order_refl Some] obtain st where
          st: "runs_status (mk ho) bk p cfg 0 (nat reps) (match_array (num_pictures p)) err h2 = Some st" "st = MSEARCH_OK \<longleftrightarrow> \<not> isl r"
          by (auto simp: ps2_def)
        have ends: "search_ends ho bld (mk ho) cfg p err (ps_heap ps) (if st \<noteq> MSEARCH_OK then 6
            else if write_fault (host_files ho) (c_output_path cfg) (length (pictures p)) then 1 else 0)"
          unfolding search_ends_def n h2' [symmetric] using True av st(1) chosen(1) by simp
        show ?thesis
        proof (cases r)
          case (Inl ended)
          with rr Some sil2 ends st(2) show ?thesis by (cases ended) (simp add: run exit_ok_def silent_def)
        next
          case (Inr z)
          obtain ms samples err1 ps3 where z: "z = (ms, samples, err1, ps3)" by (cases z) auto
          have o: "ms = canonical_matches p cfg @ drop (length (pictures p)) (match_array (num_pictures p))" "int (length samples) = reps"
            "silent ps3" "live (ps_heap ps3) = base + held p + 2"
            using rr Some Inr z reps sil2 live2 by (simp_all add: silent_def)
          note rep = report_outcome [OF p o(1) reps o(2,3), where ho = ho and lg = lg and nm = "b_name bk" and err = err1]
          show ?thesis
          proof (cases "main_report ho (mk ho) lg (b_name bk) p cfg reps ms samples err1 ps3")
            case None
            with rep Some Inr z show ?thesis by (simp add: run)
          next
            case rep': (Some e)
            obtain code ps4 where e: "e = (code, ps4)" by fastforce
            have "live (mem_free (Some ()) (mem_free (Some ()) (ps_heap ps4))) = base + held p"
              using rep rep' e o(4) by simp
            then obtain ps5 where cl: "cleanup code p (ps4\<lparr>ps_heap := mem_free (Some ()) (mem_free (Some ()) (ps_heap ps4))\<rparr>) = Some (code, ps5)"
              "ps_stdout ps5 = ps_stdout ps4" "ps_file ps5 = ps_file ps4" "ps_stderr ps5 = ps_stderr ps4" "live (ps_heap ps5) = base"
              using problem_free_spec [of p "mem_free (Some ()) (mem_free (Some ()) (ps_heap ps4))"] p
              by (auto simp: cleanup_def problem_ok_def)
            then have out: "silent ps5 = silent ps4" "wrote path out ps5 = wrote path out ps4" for path out
              by (simp_all add: silent_def wrote_def)
            have search: "main_search ho bld (mk ho) lg p cfg err ps = Some (code, ps5)"
              unfolding run Some Inr z by (simp add: rep' e cl(1) Inr z)
            from rep [unfolded rep' e option.case prod.case] have code: "code = (if write_fault (host_files ho) (c_output_path cfg) (length (pictures p)) then 1 else 0)"
              and fate: "code = 0 \<and> wrote (c_output_path cfg) (result_lines (canonical_matches p cfg)) ps4 \<or>
                code = 1 \<and> ps_stderr ps4 \<noteq> [] \<and>
                  (silent ps4 \<or> (\<exists>n. wrote (c_output_path cfg) (take n (result_lines (canonical_matches p cfg))) ps4))" by blast+
            have "search_ends ho bld (mk ho) cfg p err (ps_heap ps) code" using ends st(2) Inr code by simp
            moreover have "exit_ok ho bld (mk ho) cfg p base code ps5"
              using fate code by (simp only: exit_ok_def out cl(4,5)) (auto split: if_splits)
            ultimately show ?thesis by (simp add: search)
          qed
        qed
      qed
    qed
  qed
qed

lemma problem_outcome:
  assumes cfg: "config_ok bld cfg" "\<not> c_verify cfg" and bld: "devices_ok bld" and ps: "silent ps"
  shows "case main_problem ho bld (mk ho) lg cfg err ps of None \<Rightarrow> \<not> orderly ho
    | Some (code, ps') \<Rightarrow>
        (code = 2 \<and> silent ps' \<and> ps_stderr ps' \<noteq> [] \<and> (input_problem ho (c_input_path cfg) = None \<or> \<not> orderly ho) \<or>
         (\<exists>p. input_problem ho (c_input_path cfg) = Some p \<and> exit_ok ho bld (mk ho) cfg p (live (ps_heap ps)) code ps')) \<and>
        (orderly ho \<longrightarrow> job_ends ho bld (mk ho) cfg err (ps_heap ps) code \<and>
           (have_cuda bld = None \<longrightarrow> mk ho = local_runtime ho \<longrightarrow> code \<in> {0, 1, 2}))"
proof (cases "host_fopen ho (c_input_path cfg)")
  case (Inl msg)
  with ps show ?thesis by (simp add: main_problem_def reports msearch_read_problem_def input_problem_def job_ends_def)
next
  case (Inr inf)
  define input where "input = fgetc_bytes inf"
  let ?rd = "msearch_read_problem_stream (host_env ho) input (c_input_path cfg) err (ps_heap ps)"
  have opened: "msearch_read_problem (host_fopen ho) (host_env ho) (c_input_path cfg) err (ps_heap ps) = ?rd"
    using Inr by (simp add: msearch_read_problem_def input_def)
  from read_stream_cases [of "host_env ho" input "ps_heap ps" "c_input_path cfg" err] show ?thesis
  proof (elim disjE conjE)
    assume "\<not> grants (host_env ho) (requests (ps_heap ps))" "?rd = None"
    then show ?thesis by (auto simp: main_problem_def reports opened orderly_def)
  next
    assume "read_outcome (host_env ho) (t_problem (tokens input)) (live (ps_heap ps)) ?rd"
    then obtain st q err1 evs h1 where rd: "?rd = Some (st, q, err1, evs, h1)" "live h1 - held q = live (ps_heap ps)"
      "st = MSEARCH_OK \<longrightarrow> (\<exists>ts. t_problem (tokens input) = Inr (q, ts))"
      "st \<noteq> MSEARCH_OK \<longrightarrow> t_problem (tokens input) = Inl st \<or> (\<exists>r. \<not> grants (host_env ho) r)"
      unfolding read_outcome_def by blast
    show ?thesis
    proof (cases "st = MSEARCH_OK")
      case False
      with rd Inr ps have "input_problem ho (c_input_path cfg) = None \<or> \<not> orderly ho"
        by (auto simp: input_problem_def orderly_def input_def)
      with False rd(1) ps show ?thesis by (simp add: main_problem_def reports opened job_ends_def)
    next
      case True
      with rd(3) obtain ts where t: "t_problem (tokens input) = Inr (q, ts)" by blast
      have q: "problem_ok q" "num_pictures q \<le> MSEARCH_MAX_COUNT" "num_objects q \<le> MSEARCH_MAX_COUNT"
        using t_problem_ok [OF t] t_problem_counts [OF t] by simp_all
      have inp: "input_problem ho (c_input_path cfg) = Some q" using Inr t by (simp add: input_problem_def input_def)
      define ps2 where "ps2 = log_to lg [(LOG_INFO, ''loaded '' @ show_int (num_pictures q) @ '' pictures and '' @ show_int (num_objects q) @
                  '' objects (threshold '' @ show_g (threshold q) @ '') from '' @ c_input_path cfg)] (log_to lg evs (ps\<lparr>ps_heap := h1\<rparr>))"
      have ps2: "silent ps2" "live (ps_heap ps2) = live (ps_heap ps) + held q" using ps rd(2) by (simp_all add: ps2_def)
      have heap2: "ps_heap ps2 = h1" by (simp add: ps2_def)
      note found = search_outcome [OF q(1,2) cfg(1) bld, where ho = ho and lg = lg and base = "live (ps_heap ps)"]
      note locally = search_ends_local [OF _ _ q(1,2) cfg(1), of ho]
      show ?thesis
      proof (cases "rt_broadcast (mk ho)")
        case None
        then have run: "main_problem ho bld (mk ho) lg cfg err ps = main_search ho bld (mk ho) lg q cfg err1 ps2"
          using rd(1) True cfg(2) by (simp add: main_problem_def reports opened main_loaded_def ps2_def)
        have ends: "job_ends ho bld (mk ho) cfg err (ps_heap ps) code" if "search_ends ho bld (mk ho) cfg q err1 h1 code" for code
          using that rd(1) True None by (simp add: job_ends_def opened)
        show ?thesis
        proof (cases "main_search ho bld (mk ho) lg q cfg err1 ps2")
          case None
          with found [OF ps2, where err = err1] show ?thesis by (simp add: run)
        next
          case (Some e)
          obtain code ps' where e: "e = (code, ps')" by fastforce
          from found [OF ps2, where err = err1] Some e have o: "exit_ok ho bld (mk ho) cfg q (live (ps_heap ps)) code ps'"
            "orderly ho \<Longrightarrow> search_ends ho bld (mk ho) cfg q err1 h1 code" by (simp_all add: heap2)
          have "code \<in> {0, 1, 2}" if "orderly ho" "have_cuda bld = None" "mk ho = local_runtime ho"
            using locally [of err1 h1 code] o(2) that by auto
          with o ends inp show ?thesis by (simp add: run Some e)
        qed
      next
        case (Some bcast)
        from bcast_outcome [OF Some q, of err1 "ps_heap ps2"] obtain st2 p' tr err2 l h2 where
          b: "bcast q err1 (ps_heap ps2) = Some (st2, p', tr, err2, l, h2)" "st2 = MSEARCH_OK \<longrightarrow> p' = q \<and> live h2 = live (ps_heap ps2)" by blast
        let ?ps3 = "log_to lg l (ps2\<lparr>ps_heap := h2\<rparr>)"
        have run: "main_problem ho bld (mk ho) lg cfg err ps =
            (if st2 \<noteq> MSEARCH_OK then Some (3, log_to lg [(LOG_ERROR, ''broadcast failed: '' @ err_text err2)] ?ps3)
             else main_search ho bld (mk ho) lg p' cfg err2 ?ps3)"
          using rd(1) True cfg(2) Some b(1)
          by (simp add: main_problem_def reports opened main_loaded_def ps2_def)
        have mpi: "mk ho \<noteq> local_runtime ho" using Some by (auto simp: local_runtime_def)
        show ?thesis
        proof (cases "st2 = MSEARCH_OK")
          case False
          have "job_ends ho bld (mk ho) cfg err (ps_heap ps) 3"
            using False True rd(1) Some b(1) heap2 by (simp add: job_ends_def opened)
          with False inp ps2(1) Some mpi show ?thesis by (simp add: run exit_ok_def)
        next
          case fine: True
          have ends: "job_ends ho bld (mk ho) cfg err (ps_heap ps) code" if "search_ends ho bld (mk ho) cfg q err2 h2 code" for code
            using that rd(1) True Some b heap2 fine by (simp add: job_ends_def opened)
          have ps3: "silent ?ps3" "live (ps_heap ?ps3) = live (ps_heap ps) + held q" "ps_heap ?ps3 = h2"
            using ps2 b(2) fine by simp_all
          have run: "main_problem ho bld (mk ho) lg cfg err ps = main_search ho bld (mk ho) lg q cfg err2 ?ps3"
            using run fine b(2) by simp
          from found [OF ps3(1,2), where err = err2] inp ends mpi ps3(3) show ?thesis
            by (auto simp: run split: option.splits)
        qed
      qed
    qed
  qed
qed

lemma main_outcome:
  assumes bld: "devices_ok bld"
    and parse: "msearch_config_parse bld msearch_config_defaults argv (Some (ERR_LEN, [])) = (MSEARCH_OK, cfg, EARLY_NONE, err)"
    and verify: "\<not> c_verify cfg"
  shows "case main_program ho bld (mk ho) argv h of None \<Rightarrow> \<not> orderly ho
    | Some (code, ps) \<Rightarrow> \<exists>ps0. ps = at_exit ho ps0 \<and>
        (code = 2 \<and> silent ps0 \<and> ps_stderr ps0 \<noteq> [] \<and> (input_problem ho (c_input_path cfg) = None \<or> \<not> orderly ho) \<or>
         (\<exists>p. input_problem ho (c_input_path cfg) = Some p \<and> exit_ok ho bld (mk ho) cfg p (live h) code ps0)) \<and>
        (orderly ho \<longrightarrow> job_ends ho bld (mk ho) (compute_node_topology (mk ho) cfg) err h code \<and>
           (have_cuda bld = None \<longrightarrow> mk ho = local_runtime ho \<longrightarrow> code \<in> {0, 1, 2}))"
proof -
  define cfg' where "cfg' = compute_node_topology (mk ho) cfg"
  note c' = parsed_config [OF parse verify cfg'_def]
  define lg where "lg = msearch_log_init (c_log_level cfg) (if rt_world_size (mk ho) > 1 then rt_rank (mk ho) else - 1)"
  define ps0 where "ps0 = \<lparr>ps_stdout = [], ps_stderr = [], ps_file = None, ps_heap = h\<rparr>"
  have run: "main_run ho bld (mk ho) argv h = main_problem ho bld (mk ho) lg cfg' err ps0"
    using parse by (simp add: main_run_def cfg'_def lg_def ps0_def)
  have same: "exit_ok ho bld (mk ho) cfg' p base code ps = exit_ok ho bld (mk ho) cfg p base code ps" for p base code ps
    by (simp add: exit_ok_def c'(2,5))
  have ps0: "silent ps0" "ps_heap ps0 = h" by (simp_all add: ps0_def silent_def)
  note o = problem_outcome [OF c'(1,4) bld ps0(1), where ho = ho and lg = lg and err = err, folded run,
      unfolded same c'(3) ps0(2), folded cfg'_def]
  show ?thesis
  proof (cases "main_run ho bld (mk ho) argv h")
    case None
    with o show ?thesis by (simp add: main_program_def)
  next
    case (Some e)
    obtain code ps where e: "e = (code, ps)" by fastforce
    have "main_program ho bld (mk ho) argv h = Some (code, at_exit ho ps)" by (simp add: main_program_def Some e)
    with o [unfolded Some e option.case prod.case] show ?thesis
      unfolding cfg'_def [symmetric] by (simp only: option.case prod.case) (rule exI [of _ ps], rule conjI [OF refl])
  qed
qed

end

section \<open>The runtimes\<close>

text \<open>The build without MPI.\<close>

interpretation any_device: runtime_contract local_runtime
proof unfold_locales
  fix ho :: host and p :: Problem and cfg :: Config and bk and ms :: "Match list" and r err h
  assume "match_backend bk" "problem_ok p" "eps_ok (c_zero_eps cfg)" and len: "length ms = length (match_array (num_pictures p))"
  moreover have "length (pictures p) \<le> length ms" using problem_okD(1) [OF \<open>problem_ok p\<close>] len by (simp add: match_array_def)
  ultimately show "rt_run (local_runtime ho) r bk p cfg ms err h = None \<and> \<not> (\<forall>k. grants (host_env ho) k) \<or>
      (\<exists>st ms' err' l h'. rt_run (local_runtime ho) r bk p cfg ms err h = Some (st, ms', err', l, h') \<and> live h' = live h \<and>
        length ms' = length ms \<and> (st = MSEARCH_OK \<longrightarrow> ms' = canonical_matches p cfg @ drop (length (pictures p)) ms))"
    using match_backend.run_local_spec [of bk p cfg ms "host_platform ho" "host_env ho" "host_schedule ho r" err h]
    by (simp add: local_runtime_def) blast
qed (simp_all add: local_runtime_def)

text \<open>A world in which the library keeps its promises and the claiming ends; the peers' memory, their
  devices and every call of the broadcast may fail. The peers take part in every run, with the problem of
  this rank: a peer that ends the job instead (\<open>abort_all\<close> calls \<open>MPI_Abort\<close>) kills this process from outside,
  which no value of \<open>main_program\<close> stands for.\<close>

definition mpi_world_sound :: "mpi_world \<Rightarrow> bool" where
  "mpi_world_sound W \<longleftrightarrow> mpi_conforms (mw_mpi W) \<and> lk_root (mw_link W 0) \<and> (\<forall>r. length (mw_peers W 0 r) + 1 = mw_size W) \<and>
     (\<forall>r bk p eps ris. match_backend bk \<longrightarrow> mpi_job p eps ris \<longrightarrow>
        mpi_reach (mw_mpi W) bk ris (mw_claims W 0 r bk ris) \<and> all_finished (mw_claims W 0 r bk ris))"

lemma run_mpi_any:
  assumes bk: "match_backend bk" and conf: "mpi_conforms M" and job: "mpi_job p (c_zero_eps cfg) ris"
    and run: "mpi_reach M bk ris s" "all_finished s" and ms: "length ms = length (match_array (num_pictures p))"
  shows "msearch_run_mpi M bk ris ms s = None \<and> \<not> (\<forall>k. grants (ri_env (hd ris)) k) \<or>
    (\<exists>st err' l h' outs ms'. msearch_run_mpi M bk ris ms s = Some ((st, err', l, h') # outs, ms') \<and> length ms' = length ms \<and>
      live h' = live (ri_heap (hd ris)) \<and> (st = MSEARCH_OK \<longrightarrow> ms' = canonical_matches p cfg @ drop (length (pictures p)) ms))"
proof -
  note jb = mpi_jobD [OF job]
  have le: "length (pictures p) \<le> length ms" using ms jb(3) by (simp add: match_array_def)
  obtain ri ris' where ris: "ris = ri # ris'" using jb(5) by (cases ris) auto
  show ?thesis
  proof (cases "ris' = []")
    case True
    have "c_zero_eps (ri_cfg ri) = c_zero_eps cfg" "ri_problem ri = p" using jb(6,7) ris by simp_all
    with match_backend.run_local_spec [OF bk jb(1) _ le, of "ri_cfg ri" "ri_pf ri" "ri_env ri" "ri_ws ri" "ri_err ri" "ri_heap ri"] jb(2) ris True
    show ?thesis by (auto simp: msearch_run_mpi_def canonical_matches_def)
  next
    case False
    then have two: "2 \<le> length ris" using ris by (cases ris') simp_all
    from match_backend.finish_array [OF bk job conf two run ms] two show ?thesis
    proof (elim disjE exE conjE)
      fix outs ms'
      assume o: "mpi_finish M bk ris (ranks s) ms = Some (outs, ms')" "length outs = length ris" "length ms' = length ms"
        "map (live \<circ> snd \<circ> snd \<circ> snd) outs = map (live \<circ> ri_heap) ris"
        "if no_failure s then list_all (\<lambda>out. fst out = MSEARCH_OK) outs \<and> ms' = canonical_matches p cfg @ drop (length (pictures p)) ms
         else list_all (\<lambda>out. fst out \<noteq> MSEARCH_OK) outs"
      obtain st err' l h' outs' where outs: "outs = (st, err', l, h') # outs'" using o(2) ris by (cases outs) auto
      with o ris two show ?thesis by (auto simp: msearch_run_mpi_def split: if_splits)
    qed (simp add: msearch_run_mpi_def)
  qed
qed

lemma mpi_runtime_contract:
  assumes W: "mpi_world_sound W"
  shows "runtime_contract (mpi_runtime W 0)"
proof unfold_locales
  fix ho :: host and p :: Problem and cfg :: Config and bk and ms :: "Match list" and r err h
  assume bk: "match_backend bk" and p: "problem_ok p" "num_pictures p \<le> MSEARCH_MAX_COUNT" "eps_ok (c_zero_eps cfg)"
    and len: "length ms = length (match_array (num_pictures p))"
  let ?ris = "mpi_ranks W 0 ho r p cfg err h"
  have job: "mpi_job p (c_zero_eps cfg) ?ris" using p by (auto simp: mpi_job_def mpi_ranks_def Let_def list_all_iff)
  have hd: "ri_env (hd ?ris) = host_env ho" "ri_heap (hd ?ris) = h" by (simp_all add: mpi_ranks_def Let_def)
  have conf: "mpi_conforms (mw_mpi W)" and run: "mpi_reach (mw_mpi W) bk ?ris (mw_claims W 0 r bk ?ris)" "all_finished (mw_claims W 0 r bk ?ris)"
    using W bk job unfolding mpi_world_sound_def by blast+
  from run_mpi_any [OF bk conf job run len]
  show "rt_run (mpi_runtime W 0 ho) r bk p cfg ms err h = None \<and> \<not> (\<forall>k. grants (host_env ho) k) \<or>
      (\<exists>st ms' err' l h'. rt_run (mpi_runtime W 0 ho) r bk p cfg ms err h = Some (st, ms', err', l, h') \<and> live h' = live h \<and>
        length ms' = length ms \<and> (st = MSEARCH_OK \<longrightarrow> ms' = canonical_matches p cfg @ drop (length (pictures p)) ms))"
    unfolding hd by (auto simp: mpi_runtime_def)
next
  fix ho :: host and p :: Problem and bcast err h
  assume bc: "rt_broadcast (mpi_runtime W 0 ho) = Some bcast"
    and p: "problem_ok p" "num_pictures p \<le> MSEARCH_MAX_COUNT" "num_objects p \<le> MSEARCH_MAX_COUNT"
  have lk: "lk_root (mw_link W 0)" using W by (simp add: mpi_world_sound_def)
  have "bcast p err h = msearch_broadcast_problem (mw_link W 0) (host_env ho) p err h" using bc by (simp add: mpi_runtime_def)
  with broadcast_spec [OF p, of "mw_link W 0" p "host_env ho" err h] lk
  show "\<exists>st p' tr err' l h'. bcast p err h = Some (st, p', tr, err', l, h') \<and> (st = MSEARCH_OK \<longrightarrow> p' = p \<and> live h' = live h)"
    by (fastforce simp: delivers_def)
qed (simp add: mpi_runtime_def)


text \<open>What reaches the outside of what the process has put out.\<close>

lemma arrives_prefix: "\<exists>m. arrives_at ho (take n out) = take m out"
  by (cases "host_stdout ho") (auto simp: arrives_at_def)

lemma silent_exit [simp]: "silent ps \<Longrightarrow> silent (at_exit ho ps)"
  by (simp add: silent_def)

lemma wrote_exit: "wrote path out ps \<Longrightarrow> wrote path (if path = ''-'' then arrives_at ho out else out) (at_exit ho ps)"
  by (simp add: wrote_def split: if_splits)

lemma wrote_exit_prefix:
  assumes "wrote path (take n out) ps"
  shows "\<exists>m. wrote path (take m out) (at_exit ho ps)"
  using wrote_exit [OF assms, of ho] arrives_prefix [of ho n out] by (cases "path = ''-''") auto

lemma exit_ok_lines:
  assumes "exit_ok ho bld rt cfg p base code ps"
  shows "silent (at_exit ho ps) \<or> (\<exists>n. wrote (c_output_path cfg) (take n (result_lines (canonical_matches p cfg))) (at_exit ho ps))"
    "code = 0 \<Longrightarrow> wrote (c_output_path cfg) (if c_output_path cfg = ''-'' then arrives_at ho (result_lines (canonical_matches p cfg))
        else result_lines (canonical_matches p cfg)) (at_exit ho ps) \<and> live (ps_heap ps) = base"
    "code \<noteq> 0 \<Longrightarrow> ps_stderr ps \<noteq> []"
proof -
  let ?out = "result_lines (canonical_matches p cfg)"
  have "take (length ?out) ?out = ?out" by simp
  with assms have "silent ps \<or> (\<exists>n. wrote (c_output_path cfg) (take n ?out) ps)" unfolding exit_ok_def by metis
  with wrote_exit_prefix show "silent (at_exit ho ps) \<or> (\<exists>n. wrote (c_output_path cfg) (take n ?out) (at_exit ho ps))" by auto
qed (use assms wrote_exit in \<open>auto simp: exit_ok_def\<close>)

lemma any_runtime:
  assumes "rt = local_runtime ho \<or> (\<exists>W. mpi_world_sound W \<and> rt = mpi_runtime W 0 ho)"
  obtains mk where "runtime_contract mk" "rt = mk ho"
  using assms any_device.runtime_contract_axioms mpi_runtime_contract by blast

lemma local_run_ends:
  assumes "have_cuda bld = None" "msearch_config_parse bld msearch_config_defaults argv (Some (ERR_LEN, [])) = (MSEARCH_OK, cfg, EARLY_NONE, err)"
    and "\<not> c_verify cfg" "orderly ho" "input_problem ho (c_input_path cfg) = Some p"
    and "\<not> write_fault (host_files ho) (c_output_path cfg) (length (pictures p))"
  shows "\<exists>ps. main_program ho bld (local_runtime ho) argv h = Some (0, ps)"
proof -
  have "devices_ok bld" using assms(1) by (simp add: devices_ok_def)
  from any_device.main_outcome [OF this assms(2,3), of ho h] assms(4) obtain code ps ps0 where
    e: "main_program ho bld (local_runtime ho) argv h = Some (code, ps)"
    "code = 2 \<and> input_problem ho (c_input_path cfg) = None \<or>
      (\<exists>p. input_problem ho (c_input_path cfg) = Some p \<and> exit_ok ho bld (local_runtime ho) cfg p (live h) code ps0)"
    "have_cuda bld = None \<longrightarrow> code \<in> {0, 1, 2}"
    by (cases "main_program ho bld (local_runtime ho) argv h") auto
  have "code \<noteq> 1" "code \<noteq> 2" using e(2) assms(5,6) by (auto simp: exit_ok_def)
  with e assms(1) show ?thesis by auto
qed

section \<open>Properties\<close>

text \<open>C4: Nothing wrong is ever put out. Whatever fails (any allocation of this process, any call of the CUDA
  device, of the broadcast, of the file system, the reading of the input after any number of bytes, an
  allocation or a device of another rank), run without \<open>--verify\<close>, in the build without MPI and on rank 0 of a
  job whose other ranks take part in it, for any interleaving: if the process ends by itself, what
  arrives is nothing, or a prefix of the bytes of the canonical lines, possibly ending within a line, of the
  problem that the bytes \<open>fgetc\<close> delivered are in the format of (a read error is to the program the end of the
  file), at the place asked for and nowhere else. Exit code 0 means that the bytes delivered were well-formed,
  that a results file holds every line, and that all memory is given back; for standard output it
  means only that all lines were handed to the stream: what its other end does not take is lost, and
  the code is 0 all the same. Any other code comes with a message handed to standard error.\<close>

theorem output_never_wrong:
  assumes "devices_ok bld" "rt = local_runtime ho \<or> (\<exists>W. mpi_world_sound W \<and> rt = mpi_runtime W 0 ho)"
    and "msearch_config_parse bld msearch_config_defaults argv (Some (ERR_LEN, [])) = (MSEARCH_OK, cfg, EARLY_NONE, err)"
    and "\<not> c_verify cfg" "main_program ho bld rt argv h = Some (code, ps)"
  shows "(silent ps \<or> (\<exists>p n. input_problem ho (c_input_path cfg) = Some p \<and>
      wrote (c_output_path cfg) (take n (result_lines (canonical_matches p cfg))) ps)) \<and>
    (code = 0 \<longrightarrow> (\<exists>p lines. input_problem ho (c_input_path cfg) = Some p \<and> lines = result_lines (canonical_matches p cfg) \<and>
      wrote (c_output_path cfg) (if c_output_path cfg = ''-'' then arrives_at ho lines else lines) ps \<and> live (ps_heap ps) = live h)) \<and>
    (code \<noteq> 0 \<longrightarrow> ps_stderr ps \<noteq> [])"
proof -
  obtain mk where mk: "runtime_contract mk" "rt = mk ho" by (rule any_runtime [OF assms(2)])
  from runtime_contract.main_outcome [OF mk(1) assms(1,3,4), of ho h] assms(5) mk(2) obtain ps0 where
    ps: "ps = at_exit ho ps0" and "code = 2 \<and> silent ps0 \<and> ps_stderr ps0 \<noteq> [] \<or>
      (\<exists>p. input_problem ho (c_input_path cfg) = Some p \<and> exit_ok ho bld rt cfg p (live h) code ps0)" by auto
  then consider "code = 2" "silent ps0" "ps_stderr ps0 \<noteq> []"
    | p where "input_problem ho (c_input_path cfg) = Some p" "exit_ok ho bld rt cfg p (live h) code ps0" by auto
  then show ?thesis
  proof cases
    case 2
    from exit_ok_lines [OF 2(2)] 2(1) show ?thesis by (auto simp: ps)
  qed (simp add: ps)
qed

text \<open>The witness: a results file, and a standard output that takes nothing.\<close>

lemma parse_dash:
  "msearch_config_parse bld msearch_config_defaults [''msearch'', ''-o'', ''-''] err =
    (MSEARCH_OK, msearch_config_defaults\<lparr>c_output_path := ''-''\<rparr>, EARLY_NONE, err)"
  using parse_from_rendered [of "[(False, Output ''-'')]" bld "[''msearch'', ''-o'', ''-'']" "[''msearch'']" 1 0 msearch_config_defaults err]
  by (simp add: msearch_config_parse_def apply_verbosity_def)

theorem output_never_wrong_witness:
  "(\<exists>ps. main_program (calm_host small_file) \<lparr>have_cuda = None, have_openmp = True\<rparr> (local_runtime (calm_host small_file))
      [''msearch'', ''-o'', ''results''] no_heap = Some (0, ps) \<and>
    wrote ''results'' (''Picture 7 found Object 9 in Position(1,0)'' @ newline) ps \<and> live (ps_heap ps) = 0) \<and>
   (\<exists>ps ho. ho = (calm_host small_file)\<lparr>host_stdout := Some 0\<rparr> \<and>
      main_program ho \<lparr>have_cuda = None, have_openmp = True\<rparr> (local_runtime ho) [''msearch'', ''-o'', ''-''] no_heap = Some (0, ps) \<and>
    ps_stdout ps = [] \<and> live (ps_heap ps) = 0)"
proof -
  let ?bld = "\<lparr>have_cuda = None, have_openmp = True\<rparr>" and ?cfg = "\<lambda>path. msearch_config_defaults\<lparr>c_output_path := path\<rparr>"
    and ?ho = "calm_host small_file" and ?full = "(calm_host small_file)\<lparr>host_stdout := Some 0\<rparr>"
  have b: "have_cuda ?bld = None" "devices_ok ?bld" "\<not> c_verify (?cfg path)" for path
    by (simp_all add: msearch_config_defaults_def devices_ok_def)
  have t: "t_problem (tokens small_file) = Inr (small_problem, [])" using small_file_tokens by (simp add: small_problem_def)
  have q: "orderly ?ho" "orderly ?full" "input_problem ?ho path = Some small_problem" "input_problem ?full path = Some small_problem"
    "\<not> write_fault (host_files ?ho) out n" "\<not> write_fault (host_files ?full) out n" for path out n
    using t by (simp_all add: orderly_def input_problem_def calm_host_def granting_def fgetc_bytes_def write_fault_def quiet_files_def)
  obtain ps where ps: "main_program ?ho ?bld (local_runtime ?ho) [''msearch'', ''-o'', ''results''] no_heap = Some (0, ps)"
    using local_run_ends [OF b(1) parse_output b(3) q(1,3,5)] by blast
  obtain ps' where ps': "main_program ?full ?bld (local_runtime ?full) [''msearch'', ''-o'', ''-''] no_heap = Some (0, ps')"
    using local_run_ends [OF b(1) parse_dash b(3) q(2,4,6)] by blast
  have o: "result_lines (canonical_matches small_problem (?cfg ''results'')) = ''Picture 7 found Object 9 in Position(1,0)'' @ newline" by code_simp
  from output_never_wrong [OF b(2) disjI1 [OF refl] parse_output b(3) ps] o q(3)
  have "wrote ''results'' (''Picture 7 found Object 9 in Position(1,0)'' @ newline) ps" "live (ps_heap ps) = 0"
    by (auto simp: no_heap_def)
  moreover from output_never_wrong [OF b(2) disjI1 [OF refl] parse_dash b(3) ps'] q(4)
  have "ps_stdout ps' = []" "live (ps_heap ps') = 0" by (auto simp: no_heap_def wrote_def arrives_at_def)
  ultimately show ?thesis using ps ps' by blast
qed

text \<open>C9: The program, run without \<open>--verify\<close>, always ends by itself when its own memory is granted, whatever the
  device, the file system, the calls of the broadcast and the memory and devices of the other ranks do; in a
  job the other ranks take part in every run, with the same problem, none of them aborts the job, and the
  claiming ends (as it does by C27 and C28). Its exit code is exactly the outcome of the first step
  that fails: 2 if and only if the input cannot be opened or what is delivered of it is not in the input
  format; else 3 if and only if the broadcast reports an error; else 4 if and only if the chosen backend
  calls itself unavailable; else 6 if and only if a repetition of the run reports a failure to this rank;
  else 1 if and only if a call that opens, writes or closes the output reports an error; else 0.
  With 0 and 1 all memory is given back. 3 takes MPI, 4 takes CUDA, 5 never happens, and without CUDA and
  MPI neither does 6.\<close>

theorem main_ends_and_tells:
  assumes "devices_ok bld" "rt = local_runtime ho \<or> (\<exists>W. mpi_world_sound W \<and> rt = mpi_runtime W 0 ho)"
    and "msearch_config_parse bld msearch_config_defaults argv (Some (ERR_LEN, [])) = (MSEARCH_OK, cfg, EARLY_NONE, err)"
    and "\<not> c_verify cfg" "orderly ho"
  shows "\<exists>code ps. main_program ho bld rt argv h = Some (code, ps) \<and>
    job_ends ho bld rt (compute_node_topology rt cfg) err h code \<and> code \<in> {0, 1, 2, 3, 4, 6} \<and>
    (code = 2 \<longleftrightarrow> input_problem ho (c_input_path cfg) = None) \<and>
    (code \<in> {0, 1} \<longrightarrow> live (ps_heap ps) = live h) \<and>
    (code = 1 \<longrightarrow> (\<exists>p. input_problem ho (c_input_path cfg) = Some p \<and> write_fault (host_files ho) (c_output_path cfg) (length (pictures p)))) \<and>
    (code = 3 \<longrightarrow> rt_broadcast rt \<noteq> None) \<and> (code = 4 \<longrightarrow> have_cuda bld \<noteq> None) \<and>
    (code = 6 \<longrightarrow> have_cuda bld \<noteq> None \<or> rt \<noteq> local_runtime ho)"
proof -
  obtain mk where mk: "runtime_contract mk" "rt = mk ho" by (rule any_runtime [OF assms(2)])
  from runtime_contract.main_outcome [OF mk(1) assms(1,3,4), of ho h] assms(5) mk(2) obtain code ps0 where
    "main_program ho bld rt argv h = Some (code, at_exit ho ps0)"
    and fate: "code = 2 \<and> input_problem ho (c_input_path cfg) = None \<or>
      (\<exists>p. input_problem ho (c_input_path cfg) = Some p \<and> exit_ok ho bld rt cfg p (live h) code ps0)"
    and "job_ends ho bld rt (compute_node_topology rt cfg) err h code"
      "have_cuda bld = None \<longrightarrow> rt = local_runtime ho \<longrightarrow> code \<in> {0, 1, 2}"
    by (cases "main_program ho bld rt argv h") auto
  moreover have "code \<in> {0, 1, 2, 3, 4, 6}" "code = 2 \<longleftrightarrow> input_problem ho (c_input_path cfg) = None"
    "code \<in> {0, 1} \<longrightarrow> live (ps_heap ps0) = live h" "code = 3 \<longrightarrow> rt_broadcast rt \<noteq> None" "code = 4 \<longrightarrow> have_cuda bld \<noteq> None"
    "code = 1 \<longrightarrow> (\<exists>p. input_problem ho (c_input_path cfg) = Some p \<and> write_fault (host_files ho) (c_output_path cfg) (length (pictures p)))"
    using fate assms(5) by (auto simp: exit_ok_def)
  ultimately show ?thesis by (intro exI [of _ code] exI [of _ "at_exit ho ps0"]) auto
qed

theorem main_ends_and_tells_witness:
  "\<exists>W code ps. mw_size W = 2 \<and> main_program (calm_host small_file) \<lparr>have_cuda = Some (one_gpu (Some ''no device'')), have_openmp = True\<rparr>
      (mpi_runtime W 0 (calm_host small_file)) [''msearch'', ''-o'', ''results''] no_heap = Some (code, ps) \<and> code \<in> {0, 1, 3, 4, 6}"
proof -
  obtain f where f: "\<forall>bk p eps ris. match_backend bk \<longrightarrow> mpi_job p eps ris \<longrightarrow>
      mpi_reach plain_mpi bk ris (f bk ris) \<and> all_finished (f bk ris)" using claims_exist by blast
  define W where "W = \<lparr>mw_mpi = plain_mpi, mw_node = (\<lambda>k. (int k, 2)),
    mw_link = (\<lambda>k. \<lparr>lk_root = (k = 0), lk_ok = (\<lambda>_. True), lk_data = (\<lambda>i. bcast_trace small_problem ! i)\<rparr>),
    mw_peers = (\<lambda>k r. [hd two_ranks]), mw_claims = (\<lambda>k r. f), mw_size = 2\<rparr>"
  have W: "mpi_world_sound W" "mw_size W = 2" using f plain_mpi_conforms by (simp_all add: mpi_world_sound_def W_def)
  let ?bld = "\<lparr>have_cuda = Some (one_gpu (Some ''no device'')), have_openmp = True\<rparr>" and ?ho = "calm_host small_file"
    and ?cfg = "msearch_config_defaults\<lparr>c_output_path := ''results''\<rparr>"
  have b: "devices_ok ?bld" "\<not> c_verify ?cfg" "orderly ?ho"
    using one_gpu_ok by (simp_all add: devices_ok_def orderly_def msearch_config_defaults_def)
  have "input_problem ?ho (c_input_path ?cfg) \<noteq> None" using small_file_tokens by (simp add: input_problem_def fgetc_bytes_def)
  with main_ends_and_tells [where rt = "mpi_runtime W 0 ?ho" and h = no_heap, OF b(1) _ parse_output b(2,3)] W show ?thesis by blast
qed

end
