(* ===== verification/Example_Common.thy ===== *)
theory Example_Common
  imports Problem MPI_Library
begin

text \<open>
  What the examples under \<open>src/examples\<close> share: the argument parser each of them repeats, the
  collectives on arrays they use, as parameters with their documented laws, and the block
  decomposition with the remainder over the leading ranks, as a specification: rank \<open>r\<close> of \<open>w\<close> gets
  \<open>share n w r\<close> of \<open>n\<close> units, after \<open>before n w r\<close> of them.
\<close>

section \<open>Arguments\<close>

definition parse_positive :: "string option \<Rightarrow> int \<Rightarrow> int" where
  "parse_positive text fallback =
     (case text of None \<Rightarrow> fallback
      | Some s \<Rightarrow>
          let (v, used, erange) = strtol s in
          if used = 0 \<or> used \<noteq> length s \<or> v \<le> 0 then fallback else v)"

text \<open>\<open>argc > k ? argv[k] : NULL\<close>.\<close>

definition arg_at :: "string list \<Rightarrow> nat \<Rightarrow> string option" where
  "arg_at argv k = (if k < length argv then Some (argv ! k) else None)"

lemma parse_positive_pos: "0 < fallback \<Longrightarrow> 0 < parse_positive text fallback"
  by (auto simp: parse_positive_def Let_def split: option.splits prod.splits)

section \<open>Collectives\<close>

text \<open>
  What each rank receives of \<open>MPI_Scatterv\<close>, what the root receives of \<open>MPI_Gatherv\<close> over its buffer, the
  result of \<open>MPI_Reduce\<close> with \<open>MPI_SUM\<close>, and what a receiver's buffer holds after \<open>MPI_Bcast\<close>. The
  laws: with packed counts and displacements a scatter hands out the blocks and a gather puts them back;
  a sum of non-negative numbers that fits is exact in any order of additions; a broadcast delivers the
  elements sent.
\<close>

record collectives =
  coll_scatterv :: "cint list \<Rightarrow> cint list \<Rightarrow> cint list \<Rightarrow> cint list list"
  coll_gatherv :: "cint list list \<Rightarrow> cint list \<Rightarrow> cint list \<Rightarrow> cint list \<Rightarrow> cint list"
  coll_reduce_sum :: "int list \<Rightarrow> int"
  coll_bcast :: "cint list \<Rightarrow> cint list \<Rightarrow> cint list"

definition collectives_ok :: "collectives \<Rightarrow> bool" where
  "collectives_ok C \<longleftrightarrow>
     (\<forall>blocks. coll_scatterv C (concat blocks) (map (\<lambda>b. int (length b)) blocks)
        (prefix_sums 0 (map (\<lambda>b. int (length b)) blocks)) = blocks) \<and>
     (\<forall>blocks buf. length (concat blocks) = length buf \<longrightarrow>
        coll_gatherv C blocks (map (\<lambda>b. int (length b)) blocks) (prefix_sums 0 (map (\<lambda>b. int (length b)) blocks)) buf =
          concat blocks) \<and>
     (\<forall>xs. (\<forall>x \<in> set xs. 0 \<le> x) \<longrightarrow> int64 (sum_list xs) \<longrightarrow> coll_reduce_sum C xs = sum_list xs) \<and>
     (\<forall>xs buf. length xs = length buf \<longrightarrow> coll_bcast C xs buf = xs)"

text \<open>An array cut into blocks of given lengths.\<close>

fun cut :: "nat list \<Rightarrow> 'a list \<Rightarrow> 'a list list" where
  "cut [] xs = []"
| "cut (c # cs) xs = take c xs # cut cs (drop c xs)"

lemma concat_cut: "sum_list cs = length xs \<Longrightarrow> concat (cut cs xs) = xs"
  by (induction cs xs rule: cut.induct) (auto simp: append_take_drop_id)

lemma length_cut [simp]: "length (cut cs xs) = length cs"
  by (induction cs xs rule: cut.induct) auto

lemma lengths_cut: "sum_list cs = length xs \<Longrightarrow> map length (cut cs xs) = cs"
  by (induction cs xs rule: cut.induct) auto

definition plain_collectives :: collectives where
  "plain_collectives =
     \<lparr>coll_scatterv = (\<lambda>whole counts displs. cut (map nat counts) whole),
      coll_gatherv = (\<lambda>blocks counts displs buf. concat blocks), coll_reduce_sum = sum_list,
      coll_bcast = (\<lambda>xs buf. xs)\<rparr>"

lemma cut_concat: "cut (map length blocks) (concat blocks) = blocks"
  by (induction blocks) auto

lemma plain_collectives_ok: "collectives_ok plain_collectives"
  by (simp add: collectives_ok_def plain_collectives_def comp_def cut_concat [unfolded comp_def])

text \<open>An allocator that never refuses.\<close>

definition generous :: env where
  "generous = \<lparr>grants = (\<lambda>_. True), junk = (\<lambda>_. 0)\<rparr>"

definition all_grant :: "env list \<Rightarrow> bool" where
  "all_grant envs \<longleftrightarrow> (\<forall>env \<in> set envs. \<forall>k. grants env k)"

section \<open>Block decomposition\<close>

definition share :: "int \<Rightarrow> nat \<Rightarrow> nat \<Rightarrow> int" where
  "share n w r = n div int w + (if int r < n mod int w then 1 else 0)"

definition before :: "int \<Rightarrow> nat \<Rightarrow> nat \<Rightarrow> int" where
  "before n w r = int r * (n div int w) + min (int r) (n mod int w)"

lemma before_0 [simp]: "0 \<le> n \<Longrightarrow> 0 < w \<Longrightarrow> before n w 0 = 0"
  by (simp add: before_def)

lemma before_Suc: "before n w (Suc r) = before n w r + share n w r"
  by (auto simp: before_def share_def algebra_simps min_def)

lemma before_all: "0 < w \<Longrightarrow> before n w w = n"
  by (simp add: before_def min_absorb2 [OF less_imp_le [OF pos_mod_bound]])

lemma share_nonneg: "0 \<le> n \<Longrightarrow> 0 < w \<Longrightarrow> 0 \<le> share n w r"
  by (simp add: share_def pos_imp_zdiv_nonneg_iff)

lemma before_mono:
  assumes "0 \<le> n" "0 < w" "r \<le> r'"
  shows "before n w r \<le> before n w r'"
  using assms(3)
proof (induction r' rule: dec_induct)
  case (step r')
  with share_nonneg [OF assms(1,2), of r'] show ?case by (simp add: before_Suc)
qed simp

lemma before_le: "0 \<le> n \<Longrightarrow> 0 < w \<Longrightarrow> r \<le> w \<Longrightarrow> 0 \<le> before n w r \<and> before n w r \<le> n"
  using before_mono [of n w 0 r] before_mono [of n w r w] by (simp add: before_all)

lemma share_le: "0 \<le> n \<Longrightarrow> 0 < w \<Longrightarrow> r < w \<Longrightarrow> share n w r \<le> n"
  using before_le [of n w r] before_le [of n w "Suc r"] by (simp add: before_Suc)

lemma share_even: "share n w r - share n w r' \<le> 1"
  by (simp add: share_def)

lemma shares_sum: "0 < w \<Longrightarrow> 0 \<le> n \<Longrightarrow> r \<le> w \<Longrightarrow> sum_list (map (share n w) [0..<r]) = before n w r"
  by (induction r) (auto simp: before_Suc)

lemma prefix_sums_append: "prefix_sums t (xs @ ys) = prefix_sums t xs @ prefix_sums (t + sum_list xs) ys"
  by (induction xs arbitrary: t) (auto simp: add.assoc)

lemma shares_prefix: "0 < w \<Longrightarrow> 0 \<le> n \<Longrightarrow> r \<le> w \<Longrightarrow>
    prefix_sums 0 (map (\<lambda>r. share n w r * u) [0..<r]) = map (\<lambda>r. before n w r * u) [0..<r]"
proof (induction r)
  case (Suc r)
  have "sum_list (map (\<lambda>r. share n w r * u) [0..<r]) = before n w r * u"
    using shares_sum [of w n r] Suc.prems by (simp add: sum_list_mult_const)
  with Suc show ?case by (simp add: prefix_sums_append)
qed simp

text \<open>A prefix of a sum of non-negative numbers that fits, fits.\<close>

lemma prefix_sum_fits:
  assumes "\<forall>x \<in> set xs. 0 \<le> x" "int64 (sum_list xs)"
  shows "int64 (sum_list (take i xs))"
proof -
  have "sum_list xs = sum_list (take i xs) + sum_list (drop i xs)"
    by (metis append_take_drop_id sum_list_append)
  moreover have "0 \<le> sum_list (drop i xs)" "0 \<le> sum_list (take i xs)"
    using assms(1) by (auto intro!: sum_list_nonneg dest: in_set_dropD in_set_takeD)
  ultimately show ?thesis using assms(2) by (simp add: int_ranges)
qed

section \<open>How a job ends\<close>

text \<open>
  \<open>MPI_Abort\<close> on some rank, with what the ranks that called it wrote to \<open>stderr\<close>; or the exit codes of
  all ranks, what rank 0 wrote to \<open>stdout\<close> and \<open>stderr\<close>, and the heaps.
\<close>

datatype job_end = Aborted "string list" | Ended "cint list" string string "heap list"

definition lefts :: "('a + 'b) list \<Rightarrow> 'a list" where
  "lefts xs = map projl (filter isl xs)"

text \<open>The ranks go on together past the barrier, or the job is aborted.\<close>

definition all_ready :: "(string + 'b) list \<Rightarrow> ('b list \<Rightarrow> job_end option) \<Rightarrow> job_end option" where
  "all_ready xs k = (if lefts xs \<noteq> [] then Some (Aborted (lefts xs)) else k (map projr xs))"

lemma all_ready_Inr [simp]: "all_ready (map (\<lambda>x. Inr (f x)) xs) k = k (map f xs)"
  by (simp add: all_ready_def lefts_def filter_empty_conv comp_def)

lemma those_map_Some: "(\<And>x. x \<in> set xs \<Longrightarrow> f x = Some (g x)) \<Longrightarrow> those (map f xs) = Some (map g xs)"
  by (induction xs) auto

section \<open>Scattering and gathering the shares\<close>

text \<open>The blocks of \<open>n\<close> units of \<open>u\<close> elements each.\<close>

definition share_blocks :: "int \<Rightarrow> int \<Rightarrow> nat \<Rightarrow> 'a list \<Rightarrow> 'a list list" where
  "share_blocks n u w xs = cut (map (\<lambda>r. nat (share n w r * u)) [0..<w]) xs"

lemma int_sum_list_nat: "\<forall>c \<in> set cs. 0 \<le> c \<Longrightarrow> int (sum_list (map nat cs)) = sum_list cs"
  by (induction cs) auto

lemma shares_total:
  assumes "0 < w" "0 \<le> n" "0 \<le> u" "int (length xs) = n * u"
  shows "sum_list (map (\<lambda>r. nat (share n w r * u)) [0..<w]) = length xs"
proof -
  have "int (sum_list (map nat (map (\<lambda>r. share n w r * u) [0..<w]))) = sum_list (map (\<lambda>r. share n w r * u) [0..<w])"
    by (rule int_sum_list_nat) (use share_nonneg [OF assms(2,1)] assms(3) in auto)
  also have "\<dots> = n * u"
    using shares_sum [OF assms(1,2), of w] by (simp add: sum_list_mult_const before_all [OF assms(1)])
  finally show ?thesis using assms(4) by (simp add: comp_def)
qed

lemma share_blocks_facts:
  assumes "0 < w" "0 \<le> n" "0 \<le> u" "int (length xs) = n * u"
  shows "concat (share_blocks n u w xs) = xs"
    and "map (\<lambda>b. int (length b)) (share_blocks n u w xs) = map (\<lambda>r. share n w r * u) [0..<w]"
    and "length (share_blocks n u w xs) = w"
    and "\<And>r. r < w \<Longrightarrow> int (length (share_blocks n u w xs ! r)) = share n w r * u"
proof -
  note tot = shares_total [OF assms]
  show "concat (share_blocks n u w xs) = xs" by (simp add: share_blocks_def concat_cut [OF tot])
  show l: "length (share_blocks n u w xs) = w" by (simp add: share_blocks_def)
  have "map (\<lambda>b. int (length b)) (share_blocks n u w xs) = map int (map length (share_blocks n u w xs))" by simp
  also have "\<dots> = map (\<lambda>r. share n w r * u) [0..<w]"
    unfolding share_blocks_def lengths_cut [OF tot] using share_nonneg [OF assms(2,1)] assms(3) by (simp add: comp_def)
  finally show m: "map (\<lambda>b. int (length b)) (share_blocks n u w xs) = map (\<lambda>r. share n w r * u) [0..<w]" .
  show "int (length (share_blocks n u w xs ! r)) = share n w r * u" if "r < w" for r
    using arg_cong [OF m, of "\<lambda>zs. zs ! r"] that l by simp
qed

lemma scatter_shares:
  assumes "collectives_ok C" "0 < w" "0 \<le> n" "0 \<le> u" "int (length xs) = n * u"
  shows "coll_scatterv C xs (map (\<lambda>r. share n w r * u) [0..<w]) (map (\<lambda>r. before n w r * u) [0..<w]) = share_blocks n u w xs"
proof -
  let ?b = "share_blocks n u w xs"
  have "coll_scatterv C (concat ?b) (map (\<lambda>b. int (length b)) ?b) (prefix_sums 0 (map (\<lambda>b. int (length b)) ?b)) = ?b"
    using assms(1) by (simp add: collectives_ok_def)
  then show ?thesis
    unfolding share_blocks_facts(1,2) [OF assms(2-5)] shares_prefix [OF assms(2,3) order_refl] .
qed

lemma gather_shares:
  assumes "collectives_ok C" "0 < w" "0 \<le> n" "0 \<le> u" "int (length xs) = n * u" "length buf = length xs"
  shows "coll_gatherv C (share_blocks n u w xs) (map (\<lambda>r. share n w r * u) [0..<w]) (map (\<lambda>r. before n w r * u) [0..<w]) buf = xs"
proof -
  let ?b = "share_blocks n u w xs"
  have "coll_gatherv C ?b (map (\<lambda>b. int (length b)) ?b) (prefix_sums 0 (map (\<lambda>b. int (length b)) ?b)) buf = concat ?b"
    using assms(1,6) share_blocks_facts(1) [OF assms(2-5)] by (simp add: collectives_ok_def)
  then show ?thesis
    unfolding share_blocks_facts(1,2) [OF assms(2-5)] shares_prefix [OF assms(2,3) order_refl] .
qed

lemma reduce_shares:
  assumes "collectives_ok C" "0 < w" "0 \<le> n" "int (length xs) = n" "\<forall>x \<in> set xs. 0 \<le> x" "int64 (sum_list xs)"
  shows "coll_reduce_sum C (map sum_list (share_blocks n 1 w xs)) = sum_list xs"
proof -
  let ?b = "share_blocks n 1 w xs"
  have cc: "concat ?b = xs" by (rule share_blocks_facts(1) [OF assms(2,3)]) (use assms(4) in simp_all)
  have "sum_list (map sum_list yss) = sum_list (concat yss)" for yss :: "int list list" by (induction yss) simp_all
  then have "sum_list (map sum_list ?b) = sum_list xs" using cc by simp
  moreover have "0 \<le> sum_list b" if "b \<in> set ?b" for b
  proof (rule sum_list_nonneg)
    fix x assume "x \<in> set b"
    with that have "x \<in> set (concat ?b)" by auto
    with cc assms(5) show "0 \<le> x" by simp
  qed
  ultimately show ?thesis using assms(1,6) cc by (simp add: collectives_ok_def)
qed

end
