(* ===== verification/Example_Sum.thy ===== *)
theory Example_Sum
  imports Example_Common C_Stdlib Log
begin

text \<open>
  The example \<open>src/examples/distributed-sum/main.c\<close>: every rank derives the decomposition and allocates
  its slice (\<open>sum_setup\<close>), rank 0 fills the array, \<open>MPI_Scatterv\<close> hands out the slices, every rank sums
  its own and \<open>MPI_Reduce\<close> adds them up. \<open>sum_main\<close> is the job of all ranks. For an \<open>n\<close> that fits in an
  \<open>int\<close> the answer is \<open>n * (n + 1) div 2\<close> for every number of ranks; beyond that the tables are
  truncated and the answer depends on the number of ranks.
\<close>

section \<open>The code\<close>

function sum_tables :: "int \<Rightarrow> int \<Rightarrow> cint \<Rightarrow> cint \<Rightarrow> int \<Rightarrow> cint list \<Rightarrow> cint list \<Rightarrow> (cint list \<times> cint list) option" where
  "sum_tables base remainder world_size r offset counts displs =
     (if r < world_size then do {
        part \<leftarrow> chk64 (base + (if r < remainder then 1 else 0));
        counts' \<leftarrow> store counts r (to_int part);
        displs' \<leftarrow> store displs r (to_int offset);
        offset' \<leftarrow> chk64 (offset + part);
        sum_tables base remainder world_size (r + 1) offset' counts' displs'
      } else Some (counts, displs))"
  by pat_completeness auto
termination
  by (relation "measure (\<lambda>(base, remainder, world_size, r, offset, counts, displs). nat (world_size - r))") auto

function sum_fill :: "int \<Rightarrow> int \<Rightarrow> cint list \<Rightarrow> cint list option" where
  "sum_fill i n whole =
     (if i < n then do {
        v \<leftarrow> chk64 (i + 1);
        whole' \<leftarrow> store whole i (to_int v);
        sum_fill (i + 1) n whole'
      } else Some whole)"
  by pat_completeness auto
termination
  by (relation "measure (\<lambda>(i, n, whole). nat (n - i))") auto

function sum_slice :: "cint list \<Rightarrow> cint \<Rightarrow> cint \<Rightarrow> int \<Rightarrow> int option" where
  "sum_slice slice i my_count loc =
     (if i < my_count then do {
        x \<leftarrow> load slice i;
        loc' \<leftarrow> chk64 (loc + x);
        sum_slice slice (i + 1) my_count loc'
      } else Some loc)"
  by pat_completeness auto
termination
  by (relation "measure (\<lambda>(slice, i, my_count, loc). nat (my_count - i))") auto

declare sum_tables.simps [simp del] sum_fill.simps [simp del] sum_slice.simps [simp del]

text \<open>One rank up to the barrier; \<open>Inl\<close> is the message before \<open>MPI_Abort\<close>.\<close>

record sum_rank =
  su_counts :: "cint list"
  su_displs :: "cint list"
  su_whole :: "cint list option"
  su_count :: cint
  su_heap :: heap

definition sum_setup :: "env \<Rightarrow> cint \<Rightarrow> cint \<Rightarrow> int \<Rightarrow> heap \<Rightarrow> (string + sum_rank) option" where
  "sum_setup env rank world_size n h =
     (let (ok1, h1) = mem_alloc env h; (ok2, h2) = mem_alloc env h1;
          table = map (junk env) [0..<ints_in (size_t world_size)] in
      if \<not> ok1 \<or> \<not> ok2
      then Some (Inl (text_line (''rank '' @ show_int rank @ '': cannot allocate decomposition tables'')))
      else do {
        base \<leftarrow> c_div n world_size;
        remainder \<leftarrow> c_mod n world_size;
        (counts, displs) \<leftarrow> sum_tables base remainder world_size 0 0 table table;
        let (ok3, h3) = (if rank = 0 then mem_alloc env h2 else (True, h2));
        if \<not> ok3
        then Some (Inl (text_line (''rank 0: cannot allocate '' @ show_int n @ '' elements'')))
        else do {
          whole \<leftarrow> (if rank = 0 then map_option Some (sum_fill 0 n (map (junk env) [0..<ints_in (size_t n)])) else Some None);
          my_count \<leftarrow> load counts rank;
          let (ok4, h4) = mem_alloc env h3;
          if \<not> ok4
          then Some (Inl (text_line (''rank '' @ show_int rank @ '': cannot allocate slice of '' @ show_int my_count)))
          else Some (Inr \<lparr>su_counts = counts, su_displs = displs, su_whole = whole, su_count = my_count, su_heap = h4\<rparr>)
        }
      })"

text \<open>Four blocks on rank 0, three elsewhere.\<close>

definition sum_free :: "sum_rank \<Rightarrow> heap" where
  "sum_free rk = mem_free (Some (su_displs rk)) (mem_free (Some (su_counts rk)) (mem_free (Some ()) (mem_free (su_whole rk) (su_heap rk))))"

definition yes_no :: "bool \<Rightarrow> string" where
  "yes_no b = (if b then ''yes'' else ''no'')"

definition sum_report :: "int \<Rightarrow> int \<Rightarrow> int \<Rightarrow> string" where
  "sum_report n tot expected =
     text_line (''distributed-sum n='' @ show_int n) @
     text_line (''sum      = '' @ show_int tot) @
     text_line (''expected = '' @ show_int expected) @
     text_line (''match    = '' @ yes_no (tot = expected))"

definition sum_main :: "collectives \<Rightarrow> env list \<Rightarrow> heap list \<Rightarrow> string list \<Rightarrow> dbl \<Rightarrow> job_end option" where
  "sum_main C envs heaps argv elapsed =
     (let n = parse_positive (arg_at argv 1) 1000000; w = length envs in do {
        starts \<leftarrow> those (map (\<lambda>r. sum_setup (envs ! r) (int r) (int w) n (heaps ! r)) [0..<w]);
        all_ready starts (\<lambda>rks. do {
          rk0 \<leftarrow> load rks 0;
          whole \<leftarrow> su_whole rk0;
          let slices = coll_scatterv C whole (su_counts rk0) (su_displs rk0);
          locals \<leftarrow> those (map (\<lambda>(rk, slice). sum_slice slice 0 (su_count rk) 0) (zip rks slices));
          let tot = coll_reduce_sum C locals;
          n1 \<leftarrow> chk64 (n + 1);
          product \<leftarrow> chk64 (n * n1);
          expected \<leftarrow> c_div product 2;
          low \<leftarrow> load (su_counts rk0) (int w - 1);
          high \<leftarrow> load (su_counts rk0) 0;
          Some (Ended ((if tot = expected then 0 else 1) # replicate (w - 1) 0) (sum_report n tot expected)
            (text_line (''ranks='' @ show_int (int w) @ '' elapsed='' @ show_f6 elapsed @ ''s slice='' @ show_int low @ ''..'' @
               show_int high))
            (map sum_free rks))
        })
      })"

section \<open>The tables are the decomposition\<close>

lemma sum_tables_shares:
  assumes n: "0 \<le> n" "n \<le> INT_MAX" and w: "0 < w"
  shows "r \<le> w \<Longrightarrow> length counts = w \<Longrightarrow> length displs = w \<Longrightarrow>
    sum_tables (n div int w) (n mod int w) (int w) (int r) (before n w r) counts displs =
      Some (take r counts @ map (share n w) [r..<w], take r displs @ map (before n w) [r..<w])"
proof (induction r arbitrary: counts displs rule: inc_induct)
  case base
  then show ?case by (subst sum_tables.simps) simp
next
  case (step r)
  have b: "0 \<le> before n w r" "before n w r \<le> INT_MAX" "0 \<le> before n w (Suc r)" "before n w (Suc r) \<le> INT_MAX"
    "0 \<le> share n w r" "share n w r \<le> INT_MAX"
    using before_le [OF n(1) w, of r] before_le [OF n(1) w, of "Suc r"] share_nonneg [OF n(1) w] share_le [OF n(1) w, of r] step.hyps(2) n(2)
    by auto
  then have i: "int32 (before n w r)" "int32 (share n w r)" "int64 (before n w (Suc r))" "int64 (share n w r)" by (simp_all add: int_ranges)
  have "sum_tables (n div int w) (n mod int w) (int w) (int r) (before n w r) counts displs =
      sum_tables (n div int w) (n mod int w) (int w) (int (Suc r)) (before n w (Suc r)) (counts[r := share n w r]) (displs[r := before n w r])"
    using step.hyps(2) step.prems i
    by (subst sum_tables.simps) (simp add: before_Suc flip: share_def, simp add: add.commute)
  also have "\<dots> = Some (take (Suc r) (counts[r := share n w r]) @ map (share n w) [Suc r..<w],
      take (Suc r) (displs[r := before n w r]) @ map (before n w) [Suc r..<w])"
    by (rule step.IH) (use step.prems in simp_all)
  also have "\<dots> = Some (take r counts @ map (share n w) [r..<w], take r displs @ map (before n w) [r..<w])"
    using step.hyps(2) step.prems by (simp add: take_Suc_conv_app_nth upt_conv_Cons)
  finally show ?case .
qed

lemma sum_fill_all:
  assumes "n \<le> INT_MAX"
  shows "i \<le> nat n \<Longrightarrow> length whole = nat n \<Longrightarrow>
    sum_fill (int i) n whole = Some (take i whole @ map (\<lambda>i. int i + 1) [i..<nat n])"
proof (induction i arbitrary: whole rule: inc_induct)
  case base
  then show ?case by (subst sum_fill.simps) simp
next
  case (step i)
  then have i: "int i < n" "int32 (int i + 1)" "int64 (int i + 1)" using assms by (auto simp: int_ranges)
  have "sum_fill (int i) n whole = sum_fill (int (Suc i)) n (whole[i := int i + 1])"
    using i step by (subst sum_fill.simps) (simp add: add.commute)
  also have "\<dots> = Some (take (Suc i) (whole[i := int i + 1]) @ map (\<lambda>i. int i + 1) [Suc i..<nat n])"
    by (rule step.IH) (use step.prems in simp)
  also have "\<dots> = Some (take i whole @ map (\<lambda>i. int i + 1) [i..<nat n])"
    using step by (simp add: take_Suc_conv_app_nth upt_conv_Cons)
  finally show ?case .
qed

lemma sum_slice_sum:
  assumes "\<forall>x \<in> set slice. 0 \<le> x" "int64 (sum_list slice)"
  shows "i \<le> length slice \<Longrightarrow> sum_slice slice (int i) (int (length slice)) (sum_list (take i slice)) = Some (sum_list slice)"
proof (induction i rule: inc_induct)
  case base
  then show ?case by (subst sum_slice.simps) simp
next
  case (step i)
  have "int64 (sum_list (take (Suc i) slice))" by (rule prefix_sum_fits [OF assms])
  with step show ?case by (subst sum_slice.simps) (simp add: take_Suc_conv_app_nth add.commute)
qed

definition numbers :: "int \<Rightarrow> cint list" where
  "numbers n = map (\<lambda>i. int i + 1) [0..<nat n]"

definition rank_of :: "int \<Rightarrow> nat \<Rightarrow> heap \<Rightarrow> nat \<Rightarrow> sum_rank" where
  "rank_of n w h r =
     \<lparr>su_counts = map (share n w) [0..<w], su_displs = map (before n w) [0..<w],
      su_whole = (if r = 0 then Some (numbers n) else None), su_count = share n w r,
      su_heap = h\<lparr>requests := requests h + (if r = 0 then 4 else 3), live := live h + (if r = 0 then 4 else 3)\<rparr>\<rparr>"

lemma sum_setup_granted:
  assumes "\<forall>k. grants env k" and n: "0 \<le> n" "n \<le> INT_MAX" and w: "r < w" "int w \<le> INT_MAX"
  shows "sum_setup env (int r) (int w) n h = Some (Inr (rank_of n w h r))"
proof -
  have i: "ints_in (size_t (int w)) = w" "ints_in (size_t n) = nat n"
    using n w by (simp_all add: ints_in_small INT_MAX_def)
  have "sum_tables (n div int w) (n mod int w) (int w) 0 0 (map (junk env) [0..<w]) (map (junk env) [0..<w]) =
      Some (map (share n w) [0..<w], map (before n w) [0..<w])"
    using sum_tables_shares [OF n, of w 0 "map (junk env) [0..<w]" "map (junk env) [0..<w]"] n w by simp
  moreover have "sum_fill 0 n (map (junk env) [0..<nat n]) = Some (numbers n)"
    using sum_fill_all [OF n(2), of 0 "map (junk env) [0..<nat n]"] by (simp add: numbers_def)
  ultimately show ?thesis
    using assms i by (simp add: sum_setup_def mem_alloc_def Let_def rank_of_def)
qed

lemma numbers_sum: "0 \<le> n \<Longrightarrow> sum_list (numbers n) = n * (n + 1) div 2"
proof -
  assume "0 \<le> n"
  have "2 * sum_list (map (\<lambda>i. int i + 1) [0..<m]) = int m * (int m + 1)" for m
    by (induction m) (simp_all add: algebra_simps)
  from this [of "nat n"] \<open>0 \<le> n\<close> show ?thesis by (simp add: numbers_def)
qed

lemma sum_free_live: "live (sum_free (rank_of n w h r)) = live h"
  by (simp add: sum_free_def rank_of_def mem_free_def)

lemma sum_locals:
  assumes "0 < w" "0 \<le> n" "int (length whole) = n" "\<forall>x \<in> set whole. 0 \<le> x" "int64 (sum_list whole)"
    and "length rks = w" "\<And>r. r < w \<Longrightarrow> su_count (rks ! r) = share n w r"
  shows "those (map (\<lambda>(rk, slice). sum_slice slice 0 (su_count rk) 0) (zip rks (share_blocks n 1 w whole))) =
    Some (map sum_list (share_blocks n 1 w whole))"
proof -
  let ?sl = "share_blocks n 1 w whole"
  have l: "int (length whole) = n * 1" using assms(3) by simp
  note sl = share_blocks_facts [OF assms(1,2) zero_le_one l]
  have one: "sum_slice slice 0 (su_count rk) 0 = Some (sum_list slice)" if "(rk, slice) \<in> set (zip rks ?sl)" for rk slice
  proof -
    from that obtain r where r: "r < w" "rk = rks ! r" "slice = ?sl ! r" using assms(6) by (auto simp: set_zip)
    with sl(4) assms(7) have c: "su_count rk = int (length slice)" by simp
    have "slice \<in> set ?sl" using that by (rule set_zip_rightD)
    then obtain a b where whole: "whole = a @ slice @ b"
      using sl(1) by (metis concat.simps(2) concat_append split_list)
    moreover have "0 \<le> sum_list a" "0 \<le> sum_list b" "0 \<le> sum_list slice"
      using assms(4) whole by (auto intro!: sum_list_nonneg)
    ultimately have "int64 (sum_list slice)" using assms(5) by (simp add: int_ranges)
    moreover have "\<forall>x \<in> set slice. 0 \<le> x" using whole assms(4) by auto
    ultimately show ?thesis using sum_slice_sum [of slice 0] c by simp
  qed
  have "those (map (\<lambda>(rk, slice). sum_slice slice 0 (su_count rk) 0) (zip rks ?sl)) =
      Some (map (\<lambda>(rk, slice). sum_list slice) (zip rks ?sl))"
    by (rule those_map_Some) (use one in auto)
  also have "map (\<lambda>(rk, slice). sum_list slice) (zip rks ?sl) = map sum_list (map snd (zip rks ?sl))" by (simp add: case_prod_beta)
  also have "map snd (zip rks ?sl) = ?sl" using assms(6) sl(3) by simp
  finally show ?thesis .
qed

text \<open>C22: For an \<open>n\<close> that fits in an \<open>int\<close> and any number of ranks, when memory is granted the job runs
  without undefined behaviour, rank 0 prints the closed form \<open>n * (n + 1) div 2\<close> with \<open>match = yes\<close>, the same
  text for every number of ranks, all ranks exit with 0 and give back all they allocated.\<close>

theorem distributed_sum_correct:
  assumes "collectives_ok C" "all_grant envs" "envs \<noteq> []" "int (length envs) \<le> INT_MAX" "length heaps = length envs"
    and "parse_positive (arg_at argv 1) 1000000 = n" "n \<le> INT_MAX"
  shows "\<exists>text heaps'. sum_main C envs heaps argv elapsed =
      Some (Ended (replicate (length envs) 0) (sum_report n (n * (n + 1) div 2) (n * (n + 1) div 2)) text heaps') \<and>
    map live heaps' = map live heaps"
proof -
  let ?w = "length envs"
  have w: "0 < ?w" using assms(3) by simp
  have n: "0 \<le> n" using parse_positive_pos [of 1000000 "arg_at argv 1"] assms(6) by simp
  let ?rk = "\<lambda>r. rank_of n ?w (heaps ! r) r" and ?cs = "map (share n ?w) [0..<?w]"
  have starts: "those (map (\<lambda>r. sum_setup (envs ! r) (int r) (int ?w) n (heaps ! r)) [0..<?w]) = Some (map (\<lambda>r. Inr (?rk r)) [0..<?w])"
    by (rule those_map_Some) (use assms n in \<open>auto simp: all_grant_def intro!: sum_setup_granted\<close>)
  have len: "int (length (numbers n)) = n" "int (length (numbers n)) = n * 1" using n by (simp_all add: numbers_def)
  let ?sl = "share_blocks n 1 ?w (numbers n)"
  have sc: "coll_scatterv C (numbers n) ?cs (map (before n ?w) [0..<?w]) = ?sl"
    using scatter_shares [OF assms(1) w n zero_le_one len(2)] by simp
  have "n * (n + 1) \<le> INT_MAX * (INT_MAX + 1)" using n assms(7) by (intro mult_mono) auto
  moreover have "0 \<le> n * (n + 1)" using n by simp
  moreover have "int64 x \<and> int64 (x div 2)" if "0 \<le> x" "x \<le> INT_MAX * (INT_MAX + 1)" for x
    using that pos_imp_zdiv_nonneg_iff [of 2 x] by (auto simp: int_ranges)
  ultimately have "int64 (n * (n + 1)) \<and> int64 (n * (n + 1) div 2)" by blast
  then have s64: "int64 (sum_list (numbers n))" "int64 (n * (n + 1))" unfolding numbers_sum [OF n] by blast+
  have n1: "int64 (n + 1)" using n assms(7) by (simp add: int_ranges)
  have pos: "\<forall>x \<in> set (numbers n). 0 \<le> x" by (auto simp: numbers_def)
  have locals: "those (map (\<lambda>(rk, slice). sum_slice slice 0 (su_count rk) 0) (zip (map ?rk [0..<?w]) ?sl)) = Some (map sum_list ?sl)"
    by (rule sum_locals [OF w n len(1) pos s64(1)]) (simp_all add: rank_of_def)
  have red: "coll_reduce_sum C (map sum_list ?sl) = n * (n + 1) div 2"
    using reduce_shares [OF assms(1) w n len(1) pos s64(1)] numbers_sum [OF n] by simp
  have hd: "0 # replicate (?w - 1) 0 = replicate ?w (0 :: cint)" using w by (cases ?w) simp_all
  have rk0: "load (map ?rk [0..<?w]) 0 = Some (?rk 0)" "su_whole (?rk 0) = Some (numbers n)" "su_counts (?rk 0) = ?cs"
    "su_displs (?rk 0) = map (before n ?w) [0..<?w]"
    using w by (simp_all add: rank_of_def)
  have lh: "load ?cs (int ?w - 1) = Some (share n ?w (?w - 1))" "load ?cs 0 = Some (share n ?w 0)"
    using w by (cases ?w; simp del: upt_Suc)+
  have free: "map live (map sum_free (map ?rk [0..<?w])) = map live heaps"
    using assms(5) by (auto simp: sum_free_live comp_def intro: nth_equalityI)
  show ?thesis
    unfolding sum_main_def assms(6) Let_def
    using starts rk0 sc locals red s64(2) n1 n lh free
    by (simp add: hd del: One_nat_def)
qed

theorem distributed_sum_correct_witness:
  "\<exists>text heaps'. sum_main plain_collectives (replicate 3 generous) (replicate 3 \<lparr>requests = 0, live = 0\<rparr>) [''distributed-sum'', ''10''] dzero =
      Some (Ended [0, 0, 0] (sum_report 10 55 55) text heaps') \<and> map live heaps' = [0, 0, 0]"
proof -
  have n: "parse_positive (arg_at [''distributed-sum'', ''10''] 1) 1000000 = 10" by code_simp
  have "all_grant (replicate 3 generous)" by (simp add: all_grant_def generous_def)
  from distributed_sum_correct [OF plain_collectives_ok this, of "replicate 3 \<lparr>requests = 0, live = 0\<rparr>" _ 10 dzero, OF _ _ _ n]
  show ?thesis by (simp add: INT_MAX_def numeral_3_eq_3)
qed

text \<open>Beyond the range of \<open>int\<close> the answer does depend on the number of ranks: one rank's count no longer
  fits and turns negative, while with two ranks the same \<open>n\<close> is split into two correct counts.\<close>

theorem sum_tables_truncate_large:
  assumes "INT_MAX < n" "n \<le> 2 * INT_MAX"
  shows "sum_tables (n div 1) (n mod 1) 1 0 0 [x] [y] = Some ([n - 4294967296], [0]) \<and> n - 4294967296 < 0 \<and>
    sum_tables (n div 2) (n mod 2) 2 0 0 [x, x] [y, y] = Some ([share n 2 0, share n 2 1], [0, share n 2 0]) \<and>
    0 < share n 2 0 \<and> 0 < share n 2 1 \<and> share n 2 0 + share n 2 1 = n"
proof -
  have i: "int64 n" "n < 4294967296" "2147483648 \<le> n" using assms by (simp_all add: int_ranges)
  have t: "to_int n = n - 4294967296"
  proof -
    have "(n + 2147483648) mod 4294967296 = (n - 2147483648 + 4294967296) mod 4294967296" by (simp add: algebra_simps)
    also have "\<dots> = n - 2147483648" using i by (subst mod_add_self2) simp
    finally show ?thesis by (simp add: to_int_def)
  qed
  have one: "sum_tables (n div 1) (n mod 1) 1 0 0 [x] [y] = Some ([n - 4294967296], [0])"
    using i t to_int_id [of 0] by (simp add: int_ranges sum_tables.simps [of _ _ _ 0] sum_tables.simps [of _ _ _ 1] store_def)
  have s: "share n 2 0 + share n 2 1 = n" using before_all [of 2 n] i(3) by (simp add: numeral_2_eq_2 before_Suc)
  moreover have "share n 2 0 - share n 2 1 \<le> 1" "share n 2 1 - share n 2 0 \<le> 1" by (rule share_even)+
  ultimately have r: "0 < share n 2 0" "0 < share n 2 1" "share n 2 0 \<le> 2147483647" "share n 2 1 \<le> 2147483647"
    using assms(2) i unfolding INT_MAX_def by linarith+
  have e: "n div 2 + (if 0 < n mod 2 then 1 else 0) = share n 2 0" "n div 2 + (if 1 < n mod 2 then 1 else 0) = share n 2 1"
    by (simp_all add: share_def)
  have fit: "int64 (share n 2 0)" "int64 (share n 2 1)" "int32 (share n 2 0)" "int32 (share n 2 1)" "int64 (share n 2 0 + share n 2 1)"
    using r by (simp_all add: int_ranges)
  have "int32 0" by (simp add: int_ranges)
  then have "sum_tables (n div 2) (n mod 2) 2 0 0 [x, x] [y, y] = Some ([share n 2 0, share n 2 1], [0, share n 2 0])"
    using fit by (simp add: sum_tables.simps [of _ _ _ 0] sum_tables.simps [of _ _ _ 1] sum_tables.simps [of _ _ _ 2] e store_def del: if_split)
  with one s r i show ?thesis by simp
qed

theorem sum_tables_truncate_large_witness:
  "sum_tables (3000000000 div 1) (3000000000 mod 1) 1 0 0 [0] [0] = Some ([- 1294967296], [0]) \<and>
    sum_tables (3000000000 div 2) (3000000000 mod 2) 2 0 0 [0, 0] [0, 0] = Some ([1500000000, 1500000000], [0, 1500000000])"
  using sum_tables_truncate_large [of 3000000000 0 0] by (simp add: INT_MAX_def share_def)

end
