(* ===== verification/Example_Matmul.thy ===== *)
theory Example_Matmul
  imports Example_Common C_Stdlib Log
begin

text \<open>
  The example \<open>src/examples/matrix-multiply/main.c\<close>: the rows of \<open>A\<close> and \<open>C\<close> spread over the ranks, \<open>B\<close>
  on all of them. \<open>mm_setup\<close> is one rank up to the barrier, \<open>mm_compute\<close> its rows of the product, in the
  order in which the threads of the rank get to them, \<open>mm_main\<close> the job of all ranks. For every size
  up to 46340, the largest whose square fits in an \<open>int\<close>, the gathered matrix is the product, whatever the
  number of ranks and the order of the rows.
\<close>

section \<open>The code\<close>

definition a_at :: "int \<Rightarrow> int \<Rightarrow> cint option" where
  "a_at row col = do {
     t \<leftarrow> chk64 (2 * col);
     s \<leftarrow> chk64 (row + t);
     q \<leftarrow> c_mod s 7;
     Some (to_int q)
   }"

definition b_at :: "int \<Rightarrow> int \<Rightarrow> cint option" where
  "b_at row col = do {
     t \<leftarrow> chk64 (3 * row);
     s \<leftarrow> chk64 (t + col);
     q \<leftarrow> c_mod s 5;
     Some (to_int q)
   }"

record mm_tables =
  row_counts :: "cint list"
  elem_counts :: "cint list"
  elem_displs :: "cint list"

function mm_decompose :: "int \<Rightarrow> int \<Rightarrow> cint \<Rightarrow> int \<Rightarrow> cint \<Rightarrow> int \<Rightarrow> mm_tables \<Rightarrow> mm_tables option" where
  "mm_decompose base remainder world_size n r row_offset t =
     (if r < world_size then do {
        rows \<leftarrow> chk64 (base + (if r < remainder then 1 else 0));
        rc \<leftarrow> store (row_counts t) r (to_int rows);
        elems \<leftarrow> chk64 (rows * n);
        ec \<leftarrow> store (elem_counts t) r (to_int elems);
        start \<leftarrow> chk64 (row_offset * n);
        ed \<leftarrow> store (elem_displs t) r (to_int start);
        row_offset' \<leftarrow> chk64 (row_offset + rows);
        mm_decompose base remainder world_size n (r + 1) row_offset' \<lparr>row_counts = rc, elem_counts = ec, elem_displs = ed\<rparr>
      } else Some t)"
  by pat_completeness auto
termination
  by (relation "measure (\<lambda>(base, remainder, world_size, n, r, row_offset, t). nat (world_size - r))") auto

function fill_cols :: "int \<Rightarrow> int \<Rightarrow> int \<Rightarrow> cint list \<Rightarrow> cint list \<Rightarrow> (cint list \<times> cint list) option" where
  "fill_cols i j n a_whole b =
     (if j < n then do {
        m \<leftarrow> chk64 (i * n);
        x \<leftarrow> chk64 (m + j);
        va \<leftarrow> a_at i j;
        a' \<leftarrow> store a_whole x va;
        vb \<leftarrow> b_at i j;
        b' \<leftarrow> store b x vb;
        fill_cols i (j + 1) n a' b'
      } else Some (a_whole, b))"
  by pat_completeness auto
termination
  by (relation "measure (\<lambda>(i, j, n, a_whole, b). nat (n - j))") auto

function fill_rows :: "int \<Rightarrow> int \<Rightarrow> cint list \<Rightarrow> cint list \<Rightarrow> (cint list \<times> cint list) option" where
  "fill_rows i n a_whole b =
     (if i < n then do {
        (a', b') \<leftarrow> fill_cols i 0 n a_whole b;
        fill_rows (i + 1) n a' b'
      } else Some (a_whole, b))"
  by pat_completeness auto
termination
  by (relation "measure (\<lambda>(i, n, a_whole, b). nat (n - i))") auto

text \<open>The loop over \<open>k\<close>, the loop over \<open>j\<close>, and the rows in the order the threads take them.\<close>

function mm_dot :: "cint list \<Rightarrow> cint list \<Rightarrow> int \<Rightarrow> int \<Rightarrow> int \<Rightarrow> int \<Rightarrow> cint \<Rightarrow> cint option" where
  "mm_dot a_rows b i j n k acc =
     (if k < n then do {
        m \<leftarrow> chk64 (i * n);
        x \<leftarrow> chk64 (m + k);
        m' \<leftarrow> chk64 (k * n);
        y \<leftarrow> chk64 (m' + j);
        va \<leftarrow> load a_rows x;
        vb \<leftarrow> load b y;
        p \<leftarrow> chk32 (va * vb);
        acc' \<leftarrow> chk32 (acc + p);
        mm_dot a_rows b i j n (k + 1) acc'
      } else Some acc)"
  by pat_completeness auto
termination
  by (relation "measure (\<lambda>(a_rows, b, i, j, n, k, acc). nat (n - k))") auto

function mm_row :: "cint list \<Rightarrow> cint list \<Rightarrow> int \<Rightarrow> int \<Rightarrow> int \<Rightarrow> cint list \<Rightarrow> cint list option" where
  "mm_row a_rows b i j n c_rows =
     (if j < n then do {
        v \<leftarrow> mm_dot a_rows b i j n 0 0;
        m \<leftarrow> chk64 (i * n);
        x \<leftarrow> chk64 (m + j);
        c' \<leftarrow> store c_rows x v;
        mm_row a_rows b i (j + 1) n c'
      } else Some c_rows)"
  by pat_completeness auto
termination
  by (relation "measure (\<lambda>(a_rows, b, i, j, n, c_rows). nat (n - j))") auto

fun mm_compute :: "cint list \<Rightarrow> cint list \<Rightarrow> int \<Rightarrow> cint list \<Rightarrow> cint list \<Rightarrow> cint list option" where
  "mm_compute a_rows b n [] c_rows = Some c_rows"
| "mm_compute a_rows b n (i # order) c_rows = do {
     c' \<leftarrow> mm_row a_rows b i 0 n c_rows;
     mm_compute a_rows b n order c'
   }"

function mm_checksum :: "cint list \<Rightarrow> int \<Rightarrow> int \<Rightarrow> int \<Rightarrow> int option" where
  "mm_checksum c_whole i elems acc =
     (if i < elems then do {
        v \<leftarrow> load c_whole i;
        acc' \<leftarrow> chk64 (acc + v);
        mm_checksum c_whole (i + 1) elems acc'
      } else Some acc)"
  by pat_completeness auto
termination
  by (relation "measure (\<lambda>(c_whole, i, elems, acc). nat (elems - i))") auto

function mm_corner :: "int \<Rightarrow> int \<Rightarrow> int \<Rightarrow> int option" where
  "mm_corner n k acc =
     (if k < n then do {
        va \<leftarrow> a_at (n - 1) k;
        vb \<leftarrow> b_at k (n - 1);
        p \<leftarrow> chk64 (va * vb);
        acc' \<leftarrow> chk64 (acc + p);
        mm_corner n (k + 1) acc'
      } else Some acc)"
  by pat_completeness auto
termination
  by (relation "measure (\<lambda>(n, k, acc). nat (n - k))") auto

declare mm_decompose.simps [simp del] fill_cols.simps [simp del] fill_rows.simps [simp del] mm_dot.simps [simp del]
  mm_row.simps [simp del] mm_checksum.simps [simp del] mm_corner.simps [simp del]

section \<open>The job\<close>

record mm_rank =
  mm_tabs :: mm_tables
  mm_rows :: cint
  mm_b :: "cint list"
  mm_a_rows :: "cint list"
  mm_c_rows :: "cint list"
  mm_wholes :: "(cint list \<times> cint list) option"
  mm_heap :: heap

text \<open>\<open>malloc\<close> of so many elements, its contents arbitrary; a run of them, all tried before the check.\<close>

definition fresh_ints :: "env \<Rightarrow> int \<Rightarrow> cint list" where
  "fresh_ints env elems = map (junk env) [0..<ints_in (size_t elems)]"

fun mem_allocs :: "nat \<Rightarrow> env \<Rightarrow> heap \<Rightarrow> bool \<times> heap" where
  "mem_allocs 0 env h = (True, h)"
| "mem_allocs (Suc k) env h =
     (let (ok, h1) = mem_alloc env h; (oks, h2) = mem_allocs k env h1 in (ok \<and> oks, h2))"

definition mm_setup :: "env \<Rightarrow> cint \<Rightarrow> cint \<Rightarrow> int \<Rightarrow> heap \<Rightarrow> (string + mm_rank) option" where
  "mm_setup env rank world_size n h =
     (let (ok1, h1) = mem_allocs 3 env h; tab = fresh_ints env world_size in
      if \<not> ok1
      then Some (Inl (text_line (''rank '' @ show_int rank @ '': cannot allocate decomposition tables'')))
      else do {
        base \<leftarrow> c_div n world_size;
        remainder \<leftarrow> c_mod n world_size;
        t \<leftarrow> mm_decompose base remainder world_size n 0 0 \<lparr>row_counts = tab, elem_counts = tab, elem_displs = tab\<rparr>;
        my_rows \<leftarrow> load (row_counts t) rank;
        square \<leftarrow> chk64 (n * n);
        mine \<leftarrow> (if my_rows > 0 then chk64 (my_rows * n) else Some 1);
        let (ok2, h2) = mem_allocs 3 env h1;
        if \<not> ok2
        then Some (Inl (text_line (''rank '' @ show_int rank @ '': cannot allocate operands for n='' @ show_int n)))
        else let rk = (\<lambda>b wholes h. Inr \<lparr>mm_tabs = t, mm_rows = my_rows, mm_b = b, mm_a_rows = fresh_ints env mine,
               mm_c_rows = fresh_ints env mine, mm_wholes = wholes, mm_heap = h\<rparr>) in
          if rank = 0 then
            let (ok3, h3) = mem_allocs 2 env h2 in
            if \<not> ok3
            then Some (Inl (text_line (''rank 0: cannot allocate the full matrices for n='' @ show_int n)))
            else do {
              (a_whole, b) \<leftarrow> fill_rows 0 n (fresh_ints env square) (fresh_ints env square);
              Some (rk b (Some (a_whole, fresh_ints env square)) h3)
            }
          else Some (rk (fresh_ints env square) None h2)
      })"

text \<open>Eight calls of \<open>free\<close>, two of them on null except on rank 0.\<close>

definition mm_free :: "mm_rank \<Rightarrow> heap" where
  "mm_free rk =
     (let h1 = mem_free (mm_wholes rk) (mm_heap rk); h2 = mem_free (mm_wholes rk) h1;
          h3 = mem_free (Some (mm_b rk)) h2; h4 = mem_free (Some (mm_a_rows rk)) h3; h5 = mem_free (Some (mm_c_rows rk)) h4;
          h6 = mem_free (Some (row_counts (mm_tabs rk))) h5; h7 = mem_free (Some (elem_counts (mm_tabs rk))) h6
      in mem_free (Some (elem_displs (mm_tabs rk))) h7)"

definition mm_report :: "int \<Rightarrow> int \<Rightarrow> cint \<Rightarrow> bool \<Rightarrow> string" where
  "mm_report n checksum got_corner failed =
     text_line (''matrix-multiply n='' @ show_int n) @
     text_line (''checksum      = '' @ show_int checksum) @
     text_line (''C[n-1][n-1]   = '' @ show_int got_corner) @
     text_line (''corner check  = '' @ (if failed then ''no'' else ''yes''))"

text \<open>What a rank sends to \<open>MPI_Gatherv\<close>: the first \<open>elem_counts[rank]\<close> elements of its rows of \<open>C\<close>.\<close>

definition mm_product :: "collectives \<Rightarrow> int \<Rightarrow> (nat \<Rightarrow> cint list) \<Rightarrow> cint list \<Rightarrow> cint list list \<Rightarrow> mm_rank list \<Rightarrow>
    cint list list option" where
  "mm_product C n orders b blocks rks =
     those (map (\<lambda>r. let rk = rks ! r in do {
        cnt \<leftarrow> chk64 (n * n);
        let sent = take (nat (to_int cnt)) b;
        let b' = (if r = 0 then b else coll_bcast C sent (mm_b rk));
        block \<leftarrow> load blocks (int r);
        c_rows \<leftarrow> mm_compute block b' n (orders r) (mm_c_rows rk);
        mine \<leftarrow> load (elem_counts (mm_tabs rk)) (int r);
        Some (take (nat mine) c_rows)
      }) [0..<length rks])"

definition mm_main :: "collectives \<Rightarrow> env list \<Rightarrow> heap list \<Rightarrow> (nat \<Rightarrow> cint list) \<Rightarrow> cint \<Rightarrow> string list \<Rightarrow> dbl \<Rightarrow> job_end option" where
  "mm_main C envs heaps orders threads argv elapsed =
     (let n = parse_positive (arg_at argv 1) 256; w = length envs in do {
        starts \<leftarrow> those (map (\<lambda>r. mm_setup (envs ! r) (int r) (int w) n (heaps ! r)) [0..<w]);
        all_ready starts (\<lambda>rks. do {
          rk0 \<leftarrow> load rks 0;
          (a_whole, c_whole) \<leftarrow> mm_wholes rk0;
          let t = mm_tabs rk0;
          let blocks = coll_scatterv C a_whole (elem_counts t) (elem_displs t);
          sent \<leftarrow> mm_product C n orders (mm_b rk0) blocks rks;
          let c = coll_gatherv C sent (elem_counts t) (elem_displs t) c_whole;
          square \<leftarrow> chk64 (n * n);
          checksum \<leftarrow> mm_checksum c 0 square 0;
          corner \<leftarrow> mm_corner n 0 0;
          m \<leftarrow> chk64 ((n - 1) * n);
          last \<leftarrow> chk64 (m + (n - 1));
          got_corner \<leftarrow> load c last;
          let failed = (got_corner \<noteq> corner);
          low \<leftarrow> load (row_counts t) (int w - 1);
          high \<leftarrow> load (row_counts t) 0;
          Some (Ended ((if failed then 1 else 0) # replicate (w - 1) 0) (mm_report n checksum got_corner failed)
            (text_line (''ranks='' @ show_int (int w) @ '' threads/rank='' @ show_int threads @ '' rows/rank='' @ show_int low @ ''..'' @
               show_int high @ '' elapsed='' @ show_f6 elapsed @ ''s''))
            (map mm_free rks))
        })
      })"

section \<open>Arrays filled in order\<close>

text \<open>The elements \<open>x, \<dots>, y - 1\<close> of an array overwritten by \<open>f\<close>; a matrix stored row by row.\<close>

definition patch :: "'a list \<Rightarrow> (nat \<Rightarrow> 'a) \<Rightarrow> nat \<Rightarrow> nat \<Rightarrow> 'a list" where
  "patch c f x y = take x c @ map f [x..<y] @ drop y c"

definition grid :: "(nat \<Rightarrow> nat \<Rightarrow> 'a) \<Rightarrow> nat \<Rightarrow> nat \<Rightarrow> 'a list" where
  "grid f rows cols = map (\<lambda>x. f (x div cols) (x mod cols)) [0..<rows * cols]"

lemma patch_none [simp]: "patch c f x x = c"
  by (simp add: patch_def)

lemma patch_step: "x < y \<Longrightarrow> y \<le> length c \<Longrightarrow> patch (c[x := f x]) f (Suc x) y = patch c f x y"
  by (simp add: patch_def take_Suc_conv_app_nth upt_conv_Cons)

lemma length_patch [simp]: "x \<le> y \<Longrightarrow> y \<le> length c \<Longrightarrow> length (patch c f x y) = length c"
  by (simp add: patch_def)

lemma nth_patch: "x \<le> y \<Longrightarrow> y \<le> length c \<Longrightarrow> z < length c \<Longrightarrow>
    patch c f x y ! z = (if x \<le> z \<and> z < y then f z else c ! z)"
  by (auto simp: patch_def nth_append)

lemma patch_patch: "x \<le> y \<Longrightarrow> y \<le> z \<Longrightarrow> z \<le> length c \<Longrightarrow> patch (patch c f x y) f y z = patch c f x z"
  by (rule nth_equalityI) (auto simp: nth_patch)

lemma patch_all: "length c = y \<Longrightarrow> patch c f 0 y = map f [0..<y]"
  by (simp add: patch_def)

lemma length_grid [simp]: "length (grid f rows cols) = rows * cols"
  by (simp add: grid_def)

lemma cell_less: "i < rows \<Longrightarrow> j < cols \<Longrightarrow> i * cols + j < rows * (cols :: nat)"
proof -
  assume "i < rows" "j < cols"
  then have "i * cols + j < Suc i * cols" by simp
  also have "\<dots> \<le> rows * cols" using \<open>i < rows\<close> by (intro mult_right_mono) auto
  finally show ?thesis .
qed

lemma nth_grid: "i < rows \<Longrightarrow> j < cols \<Longrightarrow> grid f rows cols ! (i * cols + j) = f i j"
  using cell_less [of i rows j cols] by (simp add: grid_def)

lemma grid_rows: "m + k \<le> rows \<Longrightarrow>
    take (k * cols) (drop (m * cols) (grid f rows cols)) = grid (\<lambda>i. f (m + i)) k cols"
proof (rule nth_equalityI)
  assume "m + k \<le> rows"
  then have le: "m * cols + k * cols \<le> rows * cols" using mult_le_mono1 [of "m + k" rows cols] by (simp add: algebra_simps)
  then show "length (take (k * cols) (drop (m * cols) (grid f rows cols))) = length (grid (\<lambda>i. f (m + i)) k cols)" by simp
  fix x assume "x < length (take (k * cols) (drop (m * cols) (grid f rows cols)))"
  with le have "x < k * cols" by simp
  moreover from this have "0 < cols" by (cases cols) simp_all
  ultimately show "take (k * cols) (drop (m * cols) (grid f rows cols)) ! x = grid (\<lambda>i. f (m + i)) k cols ! x"
    using le \<open>m + k \<le> rows\<close> by (simp add: grid_def)
qed

lemma grid_Suc: "grid f (Suc rows) cols = grid f rows cols @ map (f rows) [0..<cols]"
proof (rule nth_equalityI)
  fix x assume "x < length (grid f (Suc rows) cols)"
  then have x: "x < rows * cols + cols" by simp
  show "grid f (Suc rows) cols ! x = (grid f rows cols @ map (f rows) [0..<cols]) ! x"
  proof (cases "x < rows * cols")
    case True
    then show ?thesis by (simp add: grid_def nth_append)
  next
    case False
    define y where "y = x - rows * cols"
    from False x have "x = rows * cols + y" "y < cols" by (auto simp: y_def)
    then show ?thesis by (simp add: grid_def nth_append)
  qed
qed simp

lemma sum_list_grid: "sum_list (grid f rows cols) = (\<Sum>i<rows. \<Sum>j<cols. f i j)"
proof (induction rows)
  case 0 then show ?case by (simp add: grid_def)
next
  case (Suc rows)
  then show ?case by (simp add: grid_Suc interv_sum_list_conv_sum_set_nat atLeast0LessThan)
qed

lemma cut_nth: "r < length cs \<Longrightarrow> cut cs xs ! r = take (cs ! r) (drop (sum_list (take r cs)) xs)"
  by (induction cs xs arbitrary: r rule: cut.induct) (auto simp: nth_Cons add.commute split: nat.splits)

lemma share_blocks_grid:
  assumes "0 < w" "r < w" "int rows = n"
  shows "share_blocks n (int cols) w (grid f rows cols) ! r =
    grid (\<lambda>i. f (nat (before n w r) + i)) (nat (share n w r)) cols"
proof -
  have n: "0 \<le> n" using assms(3) by simp
  have "sum_list (take r (map (\<lambda>r. nat (share n w r * int cols)) [0..<w])) =
      sum_list (map (\<lambda>r. nat (share n w r) * cols) [0..<r])"
    using assms(2) share_nonneg [OF n assms(1)] by (simp add: take_map nat_mult_distrib)
  also have "\<dots> = sum_list (map (\<lambda>r. nat (share n w r)) [0..<r]) * cols"
    by (simp add: sum_list_mult_const)
  also have "int (sum_list (map nat (map (share n w) [0..<r]))) = before n w r"
    using int_sum_list_nat [of "map (share n w) [0..<r]"] shares_sum [OF assms(1) n, of r] assms(2) share_nonneg [OF n assms(1)] by simp
  then have "sum_list (map (\<lambda>r. nat (share n w r)) [0..<r]) = nat (before n w r)" by (simp add: comp_def flip: nat_int)
  finally have off: "sum_list (take r (map (\<lambda>r. nat (share n w r * int cols)) [0..<w])) = nat (before n w r) * cols" .
  have "nat (before n w r) + nat (share n w r) \<le> rows"
    using before_le [OF n assms(1), of r] before_le [OF n assms(1), of "Suc r"] share_nonneg [OF n assms(1), of r] assms(2,3)
    by (simp add: before_Suc)
  from grid_rows [OF this, of cols f] show ?thesis
    unfolding share_blocks_def using assms(2) off share_nonneg [OF n assms(1), of r]
    by (simp add: cut_nth nat_mult_distrib)
qed

section \<open>The loops\<close>

text \<open>The operands and the product they have, over natural numbers as indices.\<close>

definition a_entry :: "nat \<Rightarrow> nat \<Rightarrow> int" where
  "a_entry i j = (int i + 2 * int j) mod 7"

definition b_entry :: "nat \<Rightarrow> nat \<Rightarrow> int" where
  "b_entry i j = (3 * int i + int j) mod 5"

definition dot :: "(nat \<Rightarrow> nat \<Rightarrow> int) \<Rightarrow> (nat \<Rightarrow> nat \<Rightarrow> int) \<Rightarrow> nat \<Rightarrow> nat \<Rightarrow> nat \<Rightarrow> int" where
  "dot f g m i j = (\<Sum>k<m. f i k * g k j)"

abbreviation c_entry :: "nat \<Rightarrow> nat \<Rightarrow> nat \<Rightarrow> int" where
  "c_entry N \<equiv> dot a_entry b_entry N"

abbreviation cells :: "nat \<Rightarrow> (nat \<Rightarrow> nat \<Rightarrow> 'a) \<Rightarrow> nat \<Rightarrow> 'a" where
  "cells N f x \<equiv> f (x div N) (x mod N)"

definition below :: "int \<Rightarrow> (nat \<Rightarrow> nat \<Rightarrow> int) \<Rightarrow> bool" where
  "below m f \<longleftrightarrow> (\<forall>i j. 0 \<le> f i j \<and> f i j \<le> m)"

lemma belowD: "below m f \<Longrightarrow> 0 \<le> f i j" "below m f \<Longrightarrow> f i j \<le> m"
  by (simp_all add: below_def)

lemma entries_below: "below 6 a_entry" "below 4 b_entry"
proof -
  have "0 \<le> x mod 7 \<and> x mod 7 \<le> 6" "0 \<le> x mod 5 \<and> x mod 5 \<le> 4" for x :: int by presburger+
  then show "below 6 a_entry" "below 4 b_entry" by (simp_all add: below_def a_entry_def b_entry_def)
qed

lemma dot_below:
  assumes "below 6 f" "below 4 g"
  shows "0 \<le> dot f g m i j" "dot f g m i j \<le> 24 * int m"
proof -
  have p: "0 \<le> f i k * g k j \<and> f i k * g k j \<le> 24" for k
    using belowD [OF assms(1), of i k] belowD [OF assms(2), of k j] mult_mono [of "f i k" 6 "g k j" 4] by simp
  then show "0 \<le> dot f g m i j" by (simp add: dot_def sum_nonneg)
  show "dot f g m i j \<le> 24 * int m" using sum_bounded_above [of "{..<m}" "\<lambda>k. f i k * g k j" 24] p by (simp add: dot_def)
qed

lemma square_bound: "N \<le> 46340 \<Longrightarrow> int N * int N \<le> INT_MAX"
proof -
  assume "N \<le> 46340"
  then have "N * N \<le> 46340 * 46340" by (intro mult_le_mono) auto
  then have "int (N * N) \<le> int (46340 * 46340)" by (simp only: of_nat_le_iff)
  then show ?thesis by (simp add: INT_MAX_def)
qed

lemma index_ok:
  assumes "i < rows" "rows \<le> N" "j < N" "N \<le> 46340"
  shows "int64 (int i * int N)" "int64 (int i * int N + int j)" "i * N + j < rows * N"
    "int i * int N + int j = int (i * N + j)"
proof -
  show l: "i * N + j < rows * N" by (rule cell_less [OF assms(1,3)])
  have "rows * N \<le> N * N" using assms(2) by simp
  with l have "int (i * N + j) < int (N * N)" unfolding of_nat_less_iff by linarith
  then have "int i * int N + int j < int N * int N" by simp
  with square_bound [OF assms(4)] have "int i * int N + int j < INT_MAX" by simp
  moreover have "0 \<le> int i * int N" by simp
  ultimately show "int64 (int i * int N)" "int64 (int i * int N + int j)" unfolding int_ranges by linarith+
qed simp

lemma a_at_entry: "i < N \<Longrightarrow> j < N \<Longrightarrow> N \<le> 46340 \<Longrightarrow> a_at (int i) (int j) = Some (a_entry i j)"
  using belowD [OF entries_below(1), of i j] by (simp add: a_at_def a_entry_def int_ranges)

lemma b_at_entry: "i < N \<Longrightarrow> j < N \<Longrightarrow> N \<le> 46340 \<Longrightarrow> b_at (int i) (int j) = Some (b_entry i j)"
  using belowD [OF entries_below(2), of i j] by (simp add: b_at_def b_entry_def int_ranges)

lemma fill_cols_patch:
  assumes "i < N" "N \<le> 46340"
  shows "j \<le> N \<Longrightarrow> length a = N * N \<Longrightarrow> length b = N * N \<Longrightarrow>
    fill_cols (int i) (int j) (int N) a b =
      Some (patch a (cells N a_entry) (i * N + j) (Suc i * N), patch b (cells N b_entry) (i * N + j) (Suc i * N))"
proof (induction j arbitrary: a b rule: inc_induct)
  case base
  then show ?case by (subst fill_cols.simps) (simp add: add.commute)
next
  case (step j)
  note ix = index_ok [OF assms(1) order_refl step.hyps(2) assms(2)]
  have le: "Suc i * N \<le> N * N" using assms(1) by (intro mult_le_mono1) simp
  have lt: "i * N + j < Suc i * N" using step.hyps(2) by simp
  have s: "store c (int i * int N + int j) v = Some (c[i * N + j := v])" if "length c = N * N" for c and v :: int
    using ix(3) that unfolding ix(4) store_def by (simp del: of_nat_add of_nat_mult)
  have e: "int j + 1 = int (Suc j)" by simp
  have "fill_cols (int i) (int j) (int N) a b =
      fill_cols (int i) (int (Suc j)) (int N) (a[i * N + j := a_entry i j]) (b[i * N + j := b_entry i j])"
    using step.hyps(2) step.prems ix(1,2)
    by (subst fill_cols.simps) (simp add: s a_at_entry [OF assms(1) _ assms(2)] b_at_entry [OF assms(1) _ assms(2)] e del: of_nat_Suc)
  also have "\<dots> = Some (patch (a[i * N + j := a_entry i j]) (cells N a_entry) (Suc (i * N + j)) (Suc i * N),
      patch (b[i * N + j := b_entry i j]) (cells N b_entry) (Suc (i * N + j)) (Suc i * N))"
    using step.IH step.prems by simp
  also have "\<dots> = Some (patch a (cells N a_entry) (i * N + j) (Suc i * N), patch b (cells N b_entry) (i * N + j) (Suc i * N))"
    using patch_step [OF lt, of a "cells N a_entry"] patch_step [OF lt, of b "cells N b_entry"] step.hyps(2) step.prems le by simp
  finally show ?case .
qed

lemma fill_rows_patch:
  assumes "N \<le> 46340"
  shows "i \<le> N \<Longrightarrow> length a = N * N \<Longrightarrow> length b = N * N \<Longrightarrow>
    fill_rows (int i) (int N) a b =
      Some (patch a (cells N a_entry) (i * N) (N * N), patch b (cells N b_entry) (i * N) (N * N))"
proof (induction i arbitrary: a b rule: inc_induct)
  case base
  then show ?case by (subst fill_rows.simps) simp
next
  case (step i)
  have le: "i * N \<le> Suc i * N" "Suc i * N \<le> N * N" using step.hyps(2) mult_le_mono1 [of "Suc i" N N] by simp_all
  have "fill_rows (int i) (int N) a b = fill_rows (int (Suc i)) (int N)
      (patch a (cells N a_entry) (i * N) (Suc i * N)) (patch b (cells N b_entry) (i * N) (Suc i * N))"
    using fill_cols_patch [OF step.hyps(2) assms, of 0 a b] step.hyps(2) step.prems
    by (subst fill_rows.simps) (simp add: add.commute)
  also have "\<dots> = Some (patch a (cells N a_entry) (i * N) (N * N), patch b (cells N b_entry) (i * N) (N * N))"
    using step.IH [of "patch a (cells N a_entry) (i * N) (Suc i * N)" "patch b (cells N b_entry) (i * N) (Suc i * N)"]
      step.prems le patch_patch [OF le, of a] patch_patch [OF le, of b] by simp
  finally show ?case .
qed

lemma fill_rows_grid:
  "N \<le> 46340 \<Longrightarrow> length a = N * N \<Longrightarrow> length b = N * N \<Longrightarrow>
    fill_rows 0 (int N) a b = Some (grid a_entry N N, grid b_entry N N)"
  using fill_rows_patch [of N 0 a b] by (simp add: patch_all grid_def)

lemma mm_dot_sum:
  assumes "i < rows" "rows \<le> N" "j < N" "N \<le> 46340" "below 6 f" "below 4 g"
  shows "k \<le> N \<Longrightarrow> mm_dot (grid f rows N) (grid g N N) (int i) (int j) (int N) (int k) (dot f g k i j) = Some (dot f g N i j)"
proof (induction k rule: inc_induct)
  case base
  then show ?case by (subst mm_dot.simps) simp
next
  case (step k)
  note ix = index_ok [OF assms(1,2) step.hyps(2) assms(4)] index_ok [OF step.hyps(2) order_refl assms(3,4)]
  have la: "load (grid f rows N) (int i * int N + int k) = Some (f i k)"
    using ix(3) nth_grid [OF assms(1) step.hyps(2), of f] unfolding ix(4) load_def by (simp del: of_nat_add of_nat_mult)
  have lb: "load (grid g N N) (int k * int N + int j) = Some (g k j)"
    using ix(7) nth_grid [OF step.hyps(2) assms(3), of g] unfolding ix(8) load_def by (simp del: of_nat_add of_nat_mult)
  have p: "0 \<le> f i k * g k j" "f i k * g k j \<le> 24"
    using belowD [OF assms(5), of i k] belowD [OF assms(6), of k j] mult_mono [of "f i k" 6 "g k j" 4] by simp_all
  have q: "0 \<le> dot f g k i j" "dot f g k i j \<le> 24 * 46340"
    using dot_below [OF assms(5,6), of k i j] step.hyps(2) assms(4) by simp_all
  have e: "int k + 1 = int (Suc k)" "dot f g k i j + f i k * g k j = dot f g (Suc k) i j" by (simp_all add: dot_def)
  have c: "int32 (f i k * g k j)" "int32 (dot f g (Suc k) i j)" using p q unfolding e(2) [symmetric] by (simp_all add: int_ranges)
  show ?case
    using step ix(1,2,5,6) by (subst mm_dot.simps) (simp add: la lb c e del: of_nat_Suc)
qed

lemma mm_row_patch:
  assumes "i < rows" "rows \<le> N" "N \<le> 46340" "below 6 f" "below 4 g"
  shows "j \<le> N \<Longrightarrow> length c = rows * N \<Longrightarrow> mm_row (grid f rows N) (grid g N N) (int i) (int j) (int N) c =
    Some (patch c (cells N (dot f g N)) (i * N + j) (Suc i * N))"
proof (induction j arbitrary: c rule: inc_induct)
  case base
  then show ?case by (subst mm_row.simps) (simp add: add.commute)
next
  case (step j)
  note ix = index_ok [OF assms(1,2) step.hyps(2) assms(3)]
  let ?v = "dot f g N i j"
  have le: "Suc i * N \<le> rows * N" using assms(1) by (intro mult_le_mono1) simp
  have lt: "i * N + j < Suc i * N" using step.hyps(2) by simp
  have s: "store c (int i * int N + int j) ?v = Some (c[i * N + j := ?v])"
    using ix(3) step.prems unfolding ix(4) store_def by (simp del: of_nat_add of_nat_mult)
  have d: "mm_dot (grid f rows N) (grid g N N) (int i) (int j) (int N) 0 0 = Some ?v"
    using mm_dot_sum [OF assms(1,2) step.hyps(2) assms(3,4,5), of 0] by (simp add: dot_def)
  have e: "int j + 1 = int (Suc j)" by simp
  have "mm_row (grid f rows N) (grid g N N) (int i) (int j) (int N) c =
      mm_row (grid f rows N) (grid g N N) (int i) (int (Suc j)) (int N) (c[i * N + j := ?v])"
    using step.hyps(2) ix(1,2) by (subst mm_row.simps) (simp add: d s e del: of_nat_Suc)
  also have "\<dots> = Some (patch (c[i * N + j := ?v]) (cells N (dot f g N)) (Suc (i * N + j)) (Suc i * N))"
    using step.IH step.prems by simp
  also have "\<dots> = Some (patch c (cells N (dot f g N)) (i * N + j) (Suc i * N))"
    using patch_step [OF lt, of c "cells N (dot f g N)"] step.hyps(2) step.prems le by simp
  finally show ?case .
qed

lemma row_of: "0 < N \<Longrightarrow> i * N \<le> x \<and> x < Suc i * N \<longleftrightarrow> x div N = (i :: nat)"
  by (metis div_nat_eqI div_times_less_eq_dividend dividend_less_times_div less_eq_nat.simps(1) mult.commute mult_Suc)

lemma mm_compute_cells:
  assumes "rows \<le> N" "N \<le> 46340" "0 < N" "below 6 f" "below 4 g"
  shows "set order \<subseteq> {0..<int rows} \<Longrightarrow> length c = rows * N \<Longrightarrow>
    \<exists>c'. mm_compute (grid f rows N) (grid g N N) (int N) order c = Some c' \<and> length c' = rows * N \<and>
      (\<forall>x < rows * N. c' ! x = (if int (x div N) \<in> set order then cells N (dot f g N) x else c ! x))"
proof (induction order arbitrary: c)
  case (Cons i order)
  then obtain m where m: "i = int m" "m < rows" using zero_le_imp_eq_int [of i] by auto
  let ?c = "patch c (cells N (dot f g N)) (m * N) (Suc m * N)"
  have le: "m * N \<le> Suc m * N" "Suc m * N \<le> rows * N" using m(2) mult_le_mono1 [of "Suc m" rows N] by simp_all
  have r: "mm_row (grid f rows N) (grid g N N) i 0 (int N) c = Some ?c"
    using mm_row_patch [OF m(2) assms(1,2,4,5), of 0 c] Cons.prems(2) m(1) by simp
  obtain c' where c': "mm_compute (grid f rows N) (grid g N N) (int N) order ?c = Some c'" "length c' = rows * N"
    "\<forall>x < rows * N. c' ! x = (if int (x div N) \<in> set order then cells N (dot f g N) x else ?c ! x)"
    using Cons.IH [of ?c] Cons.prems le by auto
  have "c' ! x = (if int (x div N) \<in> set (i # order) then cells N (dot f g N) x else c ! x)" if "x < rows * N" for x
    using c'(3) that row_of [OF assms(3), of m x] nth_patch [OF le(1), of c x] le(2) Cons.prems(2) m(1) by auto
  with r c' show ?case by auto
qed simp

text \<open>Whatever the order in which the rows are taken, as long as each is taken.\<close>

lemma mm_compute_grid:
  assumes "rows \<le> N" "N \<le> 46340" "0 < N" "below 6 f" "below 4 g" "set order = {0..<int rows}"
    and "rows > 0 \<longrightarrow> length c = rows * N"
  shows "\<exists>c'. mm_compute (grid f rows N) (grid g N N) (int N) order c = Some c' \<and> take (rows * N) c' = grid (dot f g N) rows N"
proof (cases "rows = 0")
  case True
  with assms(6) show ?thesis by (simp add: grid_def)
next
  case False
  then obtain c' where c': "mm_compute (grid f rows N) (grid g N N) (int N) order c = Some c'" "length c' = rows * N"
    "\<forall>x < rows * N. c' ! x = (if int (x div N) \<in> set order then cells N (dot f g N) x else c ! x)"
    using mm_compute_cells [OF assms(1-5), of order c] assms(6,7) by auto
  have "c' ! x = grid (dot f g N) rows N ! x" if "x < rows * N" for x
  proof -
    have "x div N < rows" using that by (rule less_mult_imp_div_less)
    with c'(3) that assms(6) show ?thesis by (simp add: grid_def)
  qed
  with c' show ?thesis by (auto intro!: exI [of _ c'] nth_equalityI)
qed

lemma mm_checksum_sum:
  assumes "\<forall>x \<in> set c. 0 \<le> x" "int64 (sum_list c)"
  shows "i \<le> length c \<Longrightarrow> mm_checksum c (int i) (int (length c)) (sum_list (take i c)) = Some (sum_list c)"
proof (induction i rule: inc_induct)
  case base
  then show ?case by (subst mm_checksum.simps) simp
next
  case (step i)
  have "int64 (sum_list (take (Suc i) c))" by (rule prefix_sum_fits [OF assms])
  with step show ?case by (subst mm_checksum.simps) (simp add: take_Suc_conv_app_nth add.commute)
qed

lemma mm_corner_dot:
  assumes "N \<le> 46340" "0 < N"
  shows "k \<le> N \<Longrightarrow> mm_corner (int N) (int k) (c_entry k (N - 1) (N - 1)) = Some (c_entry N (N - 1) (N - 1))"
proof (induction k rule: inc_induct)
  case base
  then show ?case by (subst mm_corner.simps) simp
next
  case (step k)
  let ?l = "N - 1"
  have l: "?l < N" "int N - 1 = int ?l" using assms(2) by simp_all
  have p: "0 \<le> a_entry ?l k * b_entry k ?l" "a_entry ?l k * b_entry k ?l \<le> 24"
    using belowD [OF entries_below(1), of ?l k] belowD [OF entries_below(2), of k ?l] mult_mono [of "a_entry ?l k" 6 "b_entry k ?l" 4] by simp_all
  have q: "0 \<le> c_entry k ?l ?l" "c_entry k ?l ?l \<le> 24 * 46340"
    using dot_below [OF entries_below, of k ?l ?l] step.hyps(2) assms(1) by simp_all
  have e: "int k + 1 = int (Suc k)" "c_entry k ?l ?l + a_entry ?l k * b_entry k ?l = c_entry (Suc k) ?l ?l" by (simp_all add: dot_def)
  have c: "int64 (a_entry ?l k * b_entry k ?l)" "int64 (c_entry (Suc k) ?l ?l)" using p q unfolding e(2) [symmetric] by (simp_all add: int_ranges)
  show ?case
    using step c by (subst mm_corner.simps)
      (simp add: l(2) a_at_entry [OF l(1) step.hyps(2) assms(1)] b_at_entry [OF step.hyps(2) l(1) assms(1)] e del: of_nat_Suc of_nat_diff One_nat_def)
qed

section \<open>The job computes the product\<close>

definition tables_from :: "int \<Rightarrow> nat \<Rightarrow> nat \<Rightarrow> mm_tables \<Rightarrow> mm_tables" where
  "tables_from n w r t =
     \<lparr>row_counts = patch (row_counts t) (share n w) r w, elem_counts = patch (elem_counts t) (\<lambda>r. share n w r * n) r w,
      elem_displs = patch (elem_displs t) (\<lambda>r. before n w r * n) r w\<rparr>"

lemma product_fits:
  assumes "N \<le> 46340" "0 \<le> x" "x \<le> int N"
  shows "int32 x" "int64 x" "int32 (x * int N)" "int64 (x * int N)" "0 \<le> x * int N" "x * int N \<le> INT_MAX"
proof -
  have "x * int N \<le> int N * int N" using assms(3) by (intro mult_right_mono) auto
  with square_bound [OF assms(1)] show "x * int N \<le> INT_MAX" by simp
  moreover show "0 \<le> x * int N" using assms(2) by simp
  ultimately show "int32 (x * int N)" "int64 (x * int N)" unfolding int_ranges by linarith+
  show "int32 x" "int64 x" using assms unfolding int_ranges by linarith+
qed

lemma mm_decompose_shares:
  assumes "N \<le> 46340" "0 < w"
  shows "r \<le> w \<Longrightarrow> length (row_counts t) = w \<Longrightarrow> length (elem_counts t) = w \<Longrightarrow> length (elem_displs t) = w \<Longrightarrow>
    mm_decompose (int N div int w) (int N mod int w) (int w) (int N) (int r) (before (int N) w r) t =
      Some (tables_from (int N) w r t)"
proof (induction r arbitrary: t rule: inc_induct)
  case base
  then show ?case by (subst mm_decompose.simps) (simp add: tables_from_def)
next
  case (step r)
  let ?n = "int N"
  let ?t = "\<lparr>row_counts = (row_counts t)[r := share ?n w r], elem_counts = (elem_counts t)[r := share ?n w r * ?n],
    elem_displs = (elem_displs t)[r := before ?n w r * ?n]\<rparr>"
  have s: "0 \<le> share ?n w r" "share ?n w r \<le> ?n" "0 \<le> before ?n w r" "before ?n w r \<le> ?n" "0 \<le> before ?n w (Suc r)" "before ?n w (Suc r) \<le> ?n"
    using share_nonneg [of ?n w r] share_le [of ?n w r] before_le [of ?n w r] before_le [of ?n w "Suc r"] assms(2) step.hyps(2) by simp_all
  note fit = product_fits [OF assms(1) s(1,2)] product_fits [OF assms(1) s(3,4)] product_fits [OF assms(1) s(5,6)]
  have e: "int r + 1 = int (Suc r)" by simp
  have "mm_decompose (?n div int w) (?n mod int w) (int w) ?n (int r) (before ?n w r) t =
      mm_decompose (?n div int w) (?n mod int w) (int w) ?n (int (Suc r)) (before ?n w (Suc r)) ?t"
    using step.hyps(2) step.prems fit
    by (subst mm_decompose.simps) (simp add: e before_Suc del: of_nat_Suc flip: share_def)
  also have "\<dots> = Some (tables_from ?n w (Suc r) ?t)" using step.IH [of ?t] step.prems by simp
  also have "\<dots> = Some (tables_from ?n w r t)" using step.hyps(2) step.prems
      patch_step [of r w "row_counts t" "share ?n w"] patch_step [of r w "elem_counts t" "\<lambda>r. share ?n w r * ?n"]
      patch_step [of r w "elem_displs t" "\<lambda>r. before ?n w r * ?n"] by (simp add: tables_from_def)
  finally show ?case .
qed

definition tables_of :: "int \<Rightarrow> nat \<Rightarrow> mm_tables" where
  "tables_of n w =
     \<lparr>row_counts = map (share n w) [0..<w], elem_counts = map (\<lambda>r. share n w r * n) [0..<w],
      elem_displs = map (\<lambda>r. before n w r * n) [0..<w]\<rparr>"

lemma mm_decompose_all:
  assumes "N \<le> 46340" "0 < w" "length tab = w"
  shows "mm_decompose (int N div int w) (int N mod int w) (int w) (int N) 0 0
    \<lparr>row_counts = tab, elem_counts = tab, elem_displs = tab\<rparr> = Some (tables_of (int N) w)"
  using mm_decompose_shares [OF assms(1,2), of 0 "\<lparr>row_counts = tab, elem_counts = tab, elem_displs = tab\<rparr>"] assms(2,3)
  by (simp add: tables_from_def tables_of_def patch_all)

lemma mem_allocs_granted: "\<forall>k. grants env k \<Longrightarrow>
    mem_allocs k env h = (True, h\<lparr>requests := requests h + k, live := live h + k\<rparr>)"
  by (induction k arbitrary: h) (simp_all add: mem_alloc_def)

lemma length_fresh: "0 \<le> k \<Longrightarrow> k \<le> INT_MAX \<Longrightarrow> length (fresh_ints env k) = nat k"
  by (simp add: fresh_ints_def ints_in_small INT_MAX_def)

definition mm_mine :: "int \<Rightarrow> nat \<Rightarrow> nat \<Rightarrow> int" where
  "mm_mine n w r = (if share n w r > 0 then share n w r * n else 1)"

definition mm_ready :: "nat \<Rightarrow> nat \<Rightarrow> env \<Rightarrow> heap \<Rightarrow> nat \<Rightarrow> mm_rank" where
  "mm_ready N w env h r =
     (let n = int N; mine = mm_mine n w r; k = (if r = 0 then 8 else 6) in
      \<lparr>mm_tabs = tables_of n w, mm_rows = share n w r,
       mm_b = (if r = 0 then grid b_entry N N else fresh_ints env (n * n)), mm_a_rows = fresh_ints env mine, mm_c_rows = fresh_ints env mine,
       mm_wholes = (if r = 0 then Some (grid a_entry N N, fresh_ints env (n * n)) else None),
       mm_heap = h\<lparr>requests := requests h + k, live := live h + k\<rparr>\<rparr>)"

lemma mm_setup_ready:
  assumes "\<forall>k. grants env k" "N \<le> 46340" "r < w" "int w \<le> INT_MAX"
  shows "mm_setup env (int r) (int w) (int N) h = Some (Inr (mm_ready N w env h r))"
proof -
  let ?n = "int N"
  have w: "0 < w" using assms(3) by simp
  have s: "0 \<le> share ?n w r" "share ?n w r \<le> ?n" using share_nonneg [of ?n w r] share_le [of ?n w r] assms(3) by simp_all
  note sq = product_fits [OF assms(2) _ order_refl]
  have f: "length (fresh_ints env (int w)) = w" using length_fresh [of "int w" env] assms(4) by simp
  have "length (fresh_ints env (?n * ?n)) = N * N" using length_fresh [OF sq(5,6)] by (simp add: nat_mult_distrib)
  then have fill: "fill_rows 0 ?n (fresh_ints env (?n * ?n)) (fresh_ints env (?n * ?n)) = Some (grid a_entry N N, grid b_entry N N)"
    using fill_rows_grid [OF assms(2)] by simp
  have mine: "(if share ?n w r > 0 then chk64 (share ?n w r * ?n) else Some 1) = Some (mm_mine ?n w r)"
    using product_fits(4) [OF assms(2) s] by (simp add: mm_mine_def)
  have rc: "load (row_counts (tables_of ?n w)) (int r) = Some (share ?n w r)" using assms(3) by (simp add: tables_of_def)
  show ?thesis
    unfolding mm_setup_def mem_allocs_granted [OF assms(1)] Let_def
    using w sq(4) by (simp add: mm_decompose_all [OF assms(2) w f] rc mine fill mm_ready_def Let_def add.assoc)
qed

lemma mm_free_ready: "live (mm_free (mm_ready N w env h r)) = live h"
  by (simp add: mm_free_def mm_ready_def mem_free_def Let_def)

lemma mm_block:
  assumes C: "collectives_ok C" and N: "N \<le> 46340" "0 < N" and r: "r < w" and turns: "set (turns r) = {0..<share (int N) w r}"
    and b: "length (fresh_ints env (int N * int N)) = N * N"
  shows "do {
        block \<leftarrow> load (share_blocks (int N) (int N) w (grid a_entry N N)) (int r);
        c_rows \<leftarrow> mm_compute block (if r = 0 then grid b_entry N N else coll_bcast C (grid b_entry N N) (mm_b (mm_ready N w env h r)))
          (int N) (turns r) (mm_c_rows (mm_ready N w env h r));
        mine \<leftarrow> load (elem_counts (mm_tabs (mm_ready N w env h r))) (int r);
        Some (take (nat mine) c_rows)
      } = Some (share_blocks (int N) (int N) w (grid (c_entry N) N N) ! r)"
proof -
  let ?n = "int N" and ?m = "nat (before (int N) w r)" and ?k = "nat (share (int N) w r)"
  have w: "0 < w" using r by simp
  have s: "0 \<le> share ?n w r" "share ?n w r \<le> ?n" using share_nonneg [of ?n w r] share_le [of ?n w r] r by simp_all
  have len: "int (length (grid a_entry N N)) = ?n * ?n" by simp
  have load_block: "load (share_blocks ?n ?n w (grid a_entry N N)) (int r) = Some (grid (\<lambda>i. a_entry (?m + i)) ?k N)"
    using r share_blocks_facts(3) [OF w _ _ len] share_blocks_grid [OF w r refl, of N N a_entry] by simp
  have bcast: "(if r = 0 then grid b_entry N N else coll_bcast C (grid b_entry N N) (mm_b (mm_ready N w env h r))) = grid b_entry N N"
    using C b by (simp add: collectives_ok_def mm_ready_def Let_def)
  have mine: "load (elem_counts (mm_tabs (mm_ready N w env h r))) (int r) = Some (share ?n w r * ?n)"
    using r by (simp add: mm_ready_def tables_of_def Let_def)
  have len_c: "?k > 0 \<longrightarrow> length (mm_c_rows (mm_ready N w env h r)) = ?k * N"
    using length_fresh [OF product_fits(5,6) [OF N(1) s]] s by (simp add: mm_ready_def mm_mine_def Let_def nat_mult_distrib)
  have bel: "below 6 (\<lambda>i. a_entry (?m + i))" using entries_below(1) by (simp add: below_def)
  have k: "?k \<le> N" "set (turns r) = {0..<int ?k}" using s turns by simp_all
  obtain c' where c': "mm_compute (grid (\<lambda>i. a_entry (?m + i)) ?k N) (grid b_entry N N) ?n (turns r) (mm_c_rows (mm_ready N w env h r)) = Some c'"
    "take (?k * N) c' = grid (dot (\<lambda>i. a_entry (?m + i)) b_entry N) ?k N"
    using mm_compute_grid [OF k(1) N bel entries_below(2) k(2) len_c] by auto
  have "dot (\<lambda>i. a_entry (?m + i)) b_entry N = (\<lambda>i. c_entry N (?m + i))" by (intro ext) (simp add: dot_def)
  then have "take (nat (share ?n w r * ?n)) c' = share_blocks ?n ?n w (grid (c_entry N) N N) ! r"
    using c'(2) share_blocks_grid [OF w r refl, of N N "c_entry N"] s by (simp add: nat_mult_distrib)
  then show ?thesis unfolding load_block bcast mine using c'(1) by simp
qed

lemma mm_product_blocks:
  assumes C: "collectives_ok C" and N: "N \<le> 46340" "0 < N" and orders: "\<forall>r < w. set (orders r) = {0..<share (int N) w r}"
  shows "mm_product C (int N) orders (grid b_entry N N) (share_blocks (int N) (int N) w (grid a_entry N N))
      (map (\<lambda>r. mm_ready N w (envs ! r) (heaps ! r) r) [0..<w]) =
    Some (share_blocks (int N) (int N) w (grid (c_entry N) N N))"
proof (cases "w = 0")
  case True
  then show ?thesis by (simp add: mm_product_def share_blocks_def)
next
  case False
  let ?n = "int N"
  note sq = product_fits [OF N(1) _ order_refl]
  have f: "length (fresh_ints env (?n * ?n)) = N * N" for env using length_fresh [OF sq(5,6)] by (simp add: nat_mult_distrib)
  have t: "take (nat (to_int (?n * ?n))) (grid b_entry N N) = grid b_entry N N" using sq(3) by (simp add: nat_mult_distrib)
  have "mm_product C ?n orders (grid b_entry N N) (share_blocks ?n ?n w (grid a_entry N N))
      (map (\<lambda>r. mm_ready N w (envs ! r) (heaps ! r) r) [0..<w]) =
      Some (map (\<lambda>r. share_blocks ?n ?n w (grid (c_entry N) N N) ! r) [0..<w])"
    unfolding mm_product_def length_map length_upt diff_zero
  proof (rule those_map_Some)
    fix r assume "r \<in> set [0..<w]"
    then have r: "r < w" by simp
    have rk: "map (\<lambda>r. mm_ready N w (envs ! r) (heaps ! r) r) [0..<w] ! r = mm_ready N w (envs ! r) (heaps ! r) r" using r by simp
    from orders r have o: "set (orders r) = {0..<share ?n w r}" by blast
    show "(let rk = map (\<lambda>r. mm_ready N w (envs ! r) (heaps ! r) r) [0..<w] ! r in do {
        cnt \<leftarrow> chk64 (?n * ?n);
        let sent = take (nat (to_int cnt)) (grid b_entry N N);
        let b' = (if r = 0 then grid b_entry N N else coll_bcast C sent (mm_b rk));
        block \<leftarrow> load (share_blocks ?n ?n w (grid a_entry N N)) (int r);
        c_rows \<leftarrow> mm_compute block b' ?n (orders r) (mm_c_rows rk);
        mine \<leftarrow> load (elem_counts (mm_tabs rk)) (int r);
        Some (take (nat mine) c_rows)
      }) = Some (share_blocks ?n ?n w (grid (c_entry N) N N) ! r)"
      unfolding Let_def rk chk64_Some [OF sq(4) [OF of_nat_0_le_iff]] bind.bind_lunit t
      using mm_block [where turns = orders and env = "envs ! r" and h = "heaps ! r", OF C N r o f] .
  qed
  also have "map (\<lambda>r. share_blocks ?n ?n w (grid (c_entry N) N N) ! r) [0..<w] = share_blocks ?n ?n w (grid (c_entry N) N N)"
    by (rule nth_equalityI) (simp_all add: share_blocks_def)
  finally show ?thesis .
qed

lemma product_checksum:
  assumes "N \<le> 46340"
  shows "mm_checksum (grid (c_entry N) N N) 0 (int N * int N) 0 = Some (\<Sum>i<N. \<Sum>j<N. c_entry N i j)"
proof -
  have nn: "\<forall>x \<in> set (grid (c_entry N) N N). 0 \<le> x"
    using dot_below(1) [OF entries_below] by (auto simp: grid_def)
  have "(\<Sum>j<N. c_entry N i j) \<le> 46340 * (24 * 46340)" for i
  proof -
    have "(\<Sum>j<N. c_entry N i j) \<le> int N * (24 * int N)"
      using sum_bounded_above [of "{..<N}" "c_entry N i" "24 * int N"] dot_below(2) [OF entries_below] by simp
    also have "\<dots> \<le> 46340 * (24 * 46340)" using assms by (intro mult_mono) auto
    finally show ?thesis .
  qed
  then have "(\<Sum>i<N. \<Sum>j<N. c_entry N i j) \<le> int N * (46340 * (24 * 46340))"
    using sum_bounded_above [of "{..<N}" "\<lambda>i. \<Sum>j<N. c_entry N i j" "46340 * (24 * 46340)"] by simp
  also have "\<dots> \<le> 46340 * (46340 * (24 * 46340))" using assms by (intro mult_right_mono) auto
  finally have "int64 (sum_list (grid (c_entry N) N N))"
    using sum_list_nonneg [of "grid (c_entry N) N N"] nn unfolding sum_list_grid int_ranges by simp
  from mm_checksum_sum [OF nn this, of 0] show ?thesis unfolding sum_list_grid by simp
qed

lemma corner_value:
  assumes "N \<le> 46340" "0 < N"
  shows "mm_corner (int N) 0 0 = Some (c_entry N (N - 1) (N - 1))"
    and "chk64 ((int N - 1) * int N) = Some ((int N - 1) * int N)"
    and "chk64 ((int N - 1) * int N + (int N - 1)) = Some ((int N - 1) * int N + (int N - 1))"
    and "load (grid (c_entry N) N N) ((int N - 1) * int N + (int N - 1)) = Some (c_entry N (N - 1) (N - 1))"
proof -
  show "mm_corner (int N) 0 0 = Some (c_entry N (N - 1) (N - 1))" using mm_corner_dot [OF assms, of 0] by (simp add: dot_def)
  have l: "N - 1 < N" "int N - 1 = int (N - 1)" using assms(2) by simp_all
  note ix = index_ok [OF l(1) order_refl l(1) assms(1)]
  show "chk64 ((int N - 1) * int N) = Some ((int N - 1) * int N)"
    "chk64 ((int N - 1) * int N + (int N - 1)) = Some ((int N - 1) * int N + (int N - 1))"
    unfolding l(2) using ix(1,2) by (simp_all del: of_nat_diff One_nat_def)
  show "load (grid (c_entry N) N N) ((int N - 1) * int N + (int N - 1)) = Some (c_entry N (N - 1) (N - 1))"
    unfolding l(2) ix(4) load_def using ix(3) nth_grid [OF l(1) l(1), of "c_entry N"]
    by (simp del: of_nat_add of_nat_mult of_nat_diff One_nat_def)
qed

text \<open>C23: For every size whose square fits in an \<open>int\<close>, any number of ranks and any order in which the threads
  of a rank take its rows, when memory is granted the job runs without undefined behaviour or overflow,
  rank 0 prints the sum of the elements of the product and its last element, the corner check says yes,
  all ranks exit with 0 and give back all they allocated: neither ranks nor threads can be told from the
  output.\<close>

theorem matrix_multiply_correct:
  assumes "collectives_ok C" "all_grant envs" "envs \<noteq> []" "int (length envs) \<le> INT_MAX" "length heaps = length envs"
    and "parse_positive (arg_at argv 1) 256 = int N" "N \<le> 46340"
    and "\<forall>r < length envs. set (orders r) = {0..<share (int N) (length envs) r}"
  shows "\<exists>text heaps'. mm_main C envs heaps orders threads argv elapsed =
      Some (Ended (replicate (length envs) 0)
        (mm_report (int N) (\<Sum>i<N. \<Sum>j<N. c_entry N i j) (c_entry N (N - 1) (N - 1)) False) text heaps') \<and>
    map live heaps' = map live heaps"
proof -
  let ?w = "length envs" and ?n = "int N"
  have w: "0 < ?w" using assms(3) by simp
  have N: "0 < N" using parse_positive_pos [of 256 "arg_at argv 1"] assms(6) by simp
  let ?rk = "\<lambda>r. mm_ready N ?w (envs ! r) (heaps ! r) r"
  have starts: "those (map (\<lambda>r. mm_setup (envs ! r) (int r) (int ?w) ?n (heaps ! r)) [0..<?w]) = Some (map (\<lambda>r. Inr (?rk r)) [0..<?w])"
    by (rule those_map_Some) (use assms(2,4,7) in \<open>auto simp: all_grant_def intro!: mm_setup_ready\<close>)
  note sq = product_fits [OF assms(7) _ order_refl]
  let ?A = "grid a_entry N N" and ?C = "grid (c_entry N) N N" and ?c0 = "fresh_ints (envs ! 0) (?n * ?n)"
  have len: "int (length ?A) = ?n * ?n" "int (length ?C) = ?n * ?n" "length ?c0 = length ?C"
    using length_fresh [OF sq(5,6), of "envs ! 0"] by (simp_all add: nat_mult_distrib)
  have rk0: "load (map ?rk [0..<?w]) 0 = Some (?rk 0)" "mm_wholes (?rk 0) = Some (?A, ?c0)" "mm_b (?rk 0) = grid b_entry N N"
    "mm_tabs (?rk 0) = tables_of ?n ?w"
    using w by (simp_all add: mm_ready_def Let_def)
  have sc: "coll_scatterv C ?A (elem_counts (tables_of ?n ?w)) (elem_displs (tables_of ?n ?w)) = share_blocks ?n ?n ?w ?A"
    using scatter_shares [OF assms(1) w _ _ len(1)] by (simp add: tables_of_def)
  have ga: "coll_gatherv C (share_blocks ?n ?n ?w ?C) (elem_counts (tables_of ?n ?w)) (elem_displs (tables_of ?n ?w)) ?c0 = ?C"
    using gather_shares [OF assms(1) w _ _ len(2,3)] by (simp add: tables_of_def)
  have lh: "load (row_counts (tables_of ?n ?w)) (int ?w - 1) = Some (share ?n ?w (?w - 1))" "load (row_counts (tables_of ?n ?w)) 0 = Some (share ?n ?w 0)"
    using w by (cases ?w; simp add: tables_of_def del: upt_Suc)+
  have free: "map live (map mm_free (map ?rk [0..<?w])) = map live heaps"
    using assms(5) by (auto simp: mm_free_ready comp_def intro: nth_equalityI)
  have hd: "0 # replicate (?w - 1) 0 = replicate ?w (0 :: cint)" using w by (cases ?w) simp_all
  show ?thesis
    unfolding mm_main_def assms(6) Let_def
    using starts free mm_product_blocks [OF assms(1,7) N assms(8), of envs heaps] sq(4)
    by (simp add: rk0 sc ga lh hd product_checksum [OF assms(7)] corner_value [OF assms(7) N] del: One_nat_def)
qed

text \<open>Two ranks, the rows of the second taken in the opposite order.\<close>

theorem matrix_multiply_correct_witness:
  "\<exists>text heaps'. mm_main plain_collectives [generous, generous] [\<lparr>requests = 0, live = 0\<rparr>, \<lparr>requests = 0, live = 0\<rparr>]
      (\<lambda>r. if r = 0 then [0, 1] else [0]) 1 [''matrix-multiply'', ''3''] dzero =
    Some (Ended [0, 0] (mm_report 3 162 22 False) text heaps') \<and> map live heaps' = [0, 0]"
proof -
  have n: "parse_positive (arg_at [''matrix-multiply'', ''3''] 1) 256 = int 3" by code_simp
  have "all_grant [generous, generous]" by (simp add: all_grant_def generous_def)
  moreover have "\<forall>r < length [generous, generous]. set (if r = 0 then [0, 1] else [0 :: int]) = {0..<share (int 3) (length [generous, generous]) r}"
    by (auto simp: share_def less_Suc_eq)
  moreover have "(\<Sum>i<3. \<Sum>j<3. c_entry 3 i j) = 162" "c_entry 3 (3 - 1) (3 - 1) = 22"
    by (simp_all add: dot_def a_entry_def b_entry_def numeral_3_eq_3)
  ultimately show ?thesis
    using matrix_multiply_correct [OF plain_collectives_ok _ _ _ _ n, of "[generous, generous]"
      "[\<lparr>requests = 0, live = 0\<rparr>, \<lparr>requests = 0, live = 0\<rparr>]" "\<lambda>r. if r = 0 then [0, 1] else [0]" 1 dzero]
    by (simp add: INT_MAX_def)
qed

end
