(* ===== verification/Example_PingPong.thy ===== *)
theory Example_PingPong
  imports Example_Common C_Stdlib Log
begin

text \<open>
  The example \<open>src/examples/ping-pong/main.c\<close>: rank 0 and rank 1 exchange a buffer, the other ranks wait at
  the barrier. \<open>pp_begin\<close> is the job up to the first barrier, \<open>pp_step\<close> one action of one rank between the
  barriers, \<open>pp_end\<close> what follows the second one. A message on its way is in the queue of its source,
  destination and tag. Whether \<open>MPI_Send\<close> returns before its message is received is left to the library
  (\<open>eager\<close>), as the standard leaves it, and so is what arrives (\<open>arrives\<close>). The exchange ends under any
  choice of the library and any interleaving.
\<close>

section \<open>The code\<close>

definition PING_TAG :: cint where "PING_TAG = 1"
definition PONG_TAG :: cint where "PONG_TAG = 2"

text \<open>A byte is a number from 0 to 255; the pattern is \<open>0xA5\<close>.\<close>

definition PATTERN :: cint where "PATTERN = 165"

datatype pp_call = Send cint cint | Recv cint cint

text \<open>The body of the loop of a rank: destination or source, and tag. Ranks from 2 on have no loop.\<close>

definition pp_body :: "cint \<Rightarrow> pp_call list" where
  "pp_body rank =
     (if rank = 0 then [Send 1 PING_TAG, Recv 1 PONG_TAG]
      else if rank = 1 then [Recv 0 PING_TAG, Send 0 PONG_TAG] else [])"

text \<open>At the test of the loop, before the call at a position of the body, inside a \<open>MPI_Send\<close> that has not
  returned, at the barrier.\<close>

datatype pp_at = Top | Before nat | Inside nat | Barrier

record pp_rank =
  pp_i :: int
  pp_at :: pp_at
  pp_buffer :: "cint list"
  pp_heap :: heap

type_synonym queues = "cint \<times> cint \<times> cint \<Rightarrow> cint list list"

record pp_state =
  pp_ranks :: "pp_rank list"
  pp_queues :: queues

record network =
  eager :: "int \<Rightarrow> cint \<Rightarrow> bool"
  arrives :: "int \<Rightarrow> cint \<Rightarrow> cint list \<Rightarrow> cint list"

definition pp_after :: "cint \<Rightarrow> nat \<Rightarrow> pp_rank \<Rightarrow> pp_rank" where
  "pp_after rank k rk =
     (if k + 1 < length (pp_body rank) then rk\<lparr>pp_at := Before (k + 1)\<rparr>
      else rk\<lparr>pp_i := pp_i rk + 1, pp_at := Top\<rparr>)"

text \<open>One action of a rank, \<open>None\<close> when it has to wait or is at the barrier. \<open>i\<close> stays below
  \<open>iterations\<close> when it is increased, so the increment fits.\<close>

definition pp_rank_step :: "network \<Rightarrow> int \<Rightarrow> int \<Rightarrow> cint \<Rightarrow> pp_rank \<Rightarrow> queues \<Rightarrow> (pp_rank \<times> queues) option" where
  "pp_rank_step net iterations payload rank rk q =
     (case pp_at rk of
        Top \<Rightarrow> Some (rk\<lparr>pp_at := (if pp_body rank \<noteq> [] \<and> pp_i rk < iterations then Before 0 else Barrier)\<rparr>, q)
      | Before k \<Rightarrow>
          (case pp_body rank ! k of
             Send dest tag \<Rightarrow>
               let ch = (rank, dest, tag) in
               Some (rk\<lparr>pp_at := Inside k\<rparr>, q(ch := q ch @ [take (nat (to_int payload)) (pp_buffer rk)]))
           | Recv source tag \<Rightarrow>
               let ch = (source, rank, tag) in
               (case q ch of [] \<Rightarrow> None
                | m # ms \<Rightarrow>
                    let got = arrives net (pp_i rk) tag m in
                    Some (pp_after rank k (rk\<lparr>pp_buffer := got @ drop (length got) (pp_buffer rk)\<rparr>), q(ch := ms))))
      | Inside k \<Rightarrow>
          (case pp_body rank ! k of
             Send dest tag \<Rightarrow>
               if eager net (pp_i rk) tag \<or> q (rank, dest, tag) = [] then Some (pp_after rank k rk, q) else None
           | Recv source tag \<Rightarrow> None)
      | Barrier \<Rightarrow> None)"

inductive pp_step :: "network \<Rightarrow> int \<Rightarrow> int \<Rightarrow> pp_state \<Rightarrow> pp_state \<Rightarrow> bool"
  for net iterations payload where
  rank_acts: "r < length (pp_ranks s) \<Longrightarrow>
    pp_rank_step net iterations payload (int r) (pp_ranks s ! r) (pp_queues s) = Some (rk, q) \<Longrightarrow>
    pp_step net iterations payload s \<lparr>pp_ranks = (pp_ranks s)[r := rk], pp_queues = q\<rparr>"

inductive_cases pp_stepE: "pp_step net iterations payload s s'"

definition all_at_barrier :: "pp_state \<Rightarrow> bool" where
  "all_at_barrier s \<longleftrightarrow> list_all (\<lambda>rk. pp_at rk = Barrier) (pp_ranks s)"

definition pp_setup :: "env \<Rightarrow> cint \<Rightarrow> int \<Rightarrow> heap \<Rightarrow> string + pp_rank" where
  "pp_setup env rank payload h =
     (let (ok, h1) = mem_alloc env h in
      if \<not> ok then Inl (text_line (''rank '' @ show_int rank @ '': cannot allocate '' @ show_int payload @ '' bytes''))
      else Inr \<lparr>pp_i = 0, pp_at = Top, pp_buffer = replicate (nat (size_t payload)) PATTERN, pp_heap = h1\<rparr>)"

definition pp_iterations :: "string list \<Rightarrow> int" where
  "pp_iterations argv = parse_positive (arg_at argv 1) 1000"

definition pp_payload :: "string list \<Rightarrow> int" where
  "pp_payload argv = parse_positive (arg_at argv 2) 4096"

text \<open>Up to the barrier: with fewer than two ranks all exit with 1, otherwise the exchange starts.\<close>

definition pp_begin :: "env list \<Rightarrow> heap list \<Rightarrow> string list \<Rightarrow> job_end + pp_state" where
  "pp_begin envs heaps argv =
     (let w = length envs in
      if w < 2 then Inl (Ended (replicate w 1) [] (text_line (''ping-pong needs at least 2 ranks (got '' @ show_int (int w) @ '')'')) heaps)
      else
        let starts = map (\<lambda>r. pp_setup (envs ! r) (int r) (pp_payload argv) (heaps ! r)) [0..<w] in
        if lefts starts \<noteq> [] then Inl (Aborted (lefts starts))
        else Inr \<lparr>pp_ranks = map projr starts, pp_queues = (\<lambda>_. [])\<rparr>)"

function pp_corrupted :: "cint list \<Rightarrow> int \<Rightarrow> int \<Rightarrow> bool option" where
  "pp_corrupted buffer b payload =
     (if b < payload then do {
        x \<leftarrow> load buffer b;
        if x \<noteq> PATTERN then Some True else pp_corrupted buffer (b + 1) payload
      } else Some False)"
  by pat_completeness auto
termination
  by (relation "measure (\<lambda>(buffer, b, payload). nat (payload - b))") auto

declare pp_corrupted.simps [simp del]

definition pp_report :: "int \<Rightarrow> int \<Rightarrow> bool \<Rightarrow> string" where
  "pp_report iterations payload corrupted =
     text_line (''ping-pong '' @ show_int iterations @ '' round trips of '' @ show_int payload @ '' bytes'') @
     text_line (''payload intact: '' @ (if corrupted then ''no'' else ''yes''))"

definition pp_timing :: "int \<Rightarrow> dbl \<Rightarrow> string" where
  "pp_timing iterations elapsed =
     (let per_trip_us = dmul (ddiv elapsed (dof_int iterations)) (dof_int 1000000) in
      text_line (''elapsed='' @ show_fixed 6 elapsed @ ''s round-trip='' @ show_fixed 2 per_trip_us @ ''us one-way='' @
        show_fixed 2 (ddiv per_trip_us (dof_int 2)) @ ''us''))"

definition pp_end :: "int \<Rightarrow> int \<Rightarrow> dbl \<Rightarrow> pp_state \<Rightarrow> job_end option" where
  "pp_end iterations payload elapsed s = do {
     rk0 \<leftarrow> load (pp_ranks s) 0;
     corrupted \<leftarrow> pp_corrupted (pp_buffer rk0) 0 payload;
     Some (Ended ((if corrupted then 1 else 0) # replicate (length (pp_ranks s) - 1) 0)
       (pp_report iterations payload corrupted) (pp_timing iterations elapsed)
       (map (\<lambda>rk. mem_free (Some (pp_buffer rk)) (pp_heap rk)) (pp_ranks s)))
   }"

section \<open>The exchange ends\<close>

text \<open>Where a rank can be, how many messages it has sent and received, and the invariant: what is in a
  queue has been sent and not yet received.\<close>

definition pp_ok :: "int \<Rightarrow> nat \<Rightarrow> pp_rank \<Rightarrow> bool" where
  "pp_ok n r rk \<longleftrightarrow> 0 \<le> pp_i rk \<and> pp_i rk \<le> n \<and>
     (case pp_at rk of Top \<Rightarrow> True
      | Before k \<Rightarrow> pp_i rk < n \<and> r < 2 \<and> k < 2
      | Inside k \<Rightarrow> pp_i rk < n \<and> r < 2 \<and> k = r
      | Barrier \<Rightarrow> r < 2 \<longrightarrow> pp_i rk = n)"

definition sends :: "nat \<Rightarrow> pp_rank \<Rightarrow> int" where
  "sends r rk = pp_i rk + (case pp_at rk of Before k \<Rightarrow> if r < k then 1 else 0 | Inside k \<Rightarrow> 1 | _ \<Rightarrow> 0)"

definition recvs :: "nat \<Rightarrow> pp_rank \<Rightarrow> int" where
  "recvs r rk = pp_i rk + (case pp_at rk of Before k \<Rightarrow> if 1 - r < k then 1 else 0 | Inside k \<Rightarrow> if 1 - r < k then 1 else 0 | _ \<Rightarrow> 0)"

definition pings :: "queues \<Rightarrow> cint list list" where "pings q = q (0, 1, PING_TAG)"
definition pongs :: "queues \<Rightarrow> cint list list" where "pongs q = q (1, 0, PONG_TAG)"

definition pp_inv :: "int \<Rightarrow> pp_state \<Rightarrow> bool" where
  "pp_inv n s \<longleftrightarrow> 2 \<le> length (pp_ranks s) \<and> (\<forall>r < length (pp_ranks s). pp_ok n r (pp_ranks s ! r)) \<and>
     int (length (pings (pp_queues s))) = sends 0 (pp_ranks s ! 0) - recvs 1 (pp_ranks s ! 1) \<and>
     int (length (pongs (pp_queues s))) = sends 1 (pp_ranks s ! 1) - recvs 0 (pp_ranks s ! 0)"

definition rank_work :: "int \<Rightarrow> pp_rank \<Rightarrow> int" where
  "rank_work n rk = 6 * (n - pp_i rk) +
     (case pp_at rk of Top \<Rightarrow> 5 | Before k \<Rightarrow> 4 - 2 * int k | Inside k \<Rightarrow> 3 - 2 * int k | Barrier \<Rightarrow> 0)"

lemmas pp_defs = pp_rank_step_def pp_after_def pp_body_def pings_def pongs_def PING_TAG_def PONG_TAG_def Let_def

lemma pp_rank0:
  assumes "pp_rank_step net n payload 0 a q = Some (a', q')" "pp_ok n 0 a"
  shows "pp_ok n 0 a'" "rank_work n a' < rank_work n a"
    "int (length (pings q')) - sends 0 a' = int (length (pings q)) - sends 0 a"
    "int (length (pongs q')) + recvs 0 a' = int (length (pongs q)) + recvs 0 a"
  using assms
  by (auto simp: pp_defs pp_ok_def sends_def recvs_def rank_work_def less_Suc_eq numeral_2_eq_2
      split: pp_at.splits list.splits if_splits)

lemma pp_rank1:
  assumes "pp_rank_step net n payload 1 b q = Some (b', q')" "pp_ok n 1 b"
  shows "pp_ok n 1 b'" "rank_work n b' < rank_work n b"
    "int (length (pongs q')) - sends 1 b' = int (length (pongs q)) - sends 1 b"
    "int (length (pings q')) + recvs 1 b' = int (length (pings q)) + recvs 1 b"
  using assms
  by (auto simp: pp_defs pp_ok_def sends_def recvs_def rank_work_def less_Suc_eq numeral_2_eq_2
      split: pp_at.splits list.splits if_splits)

lemma pp_rank_other:
  assumes "pp_rank_step net n payload (int r) rk q = Some (rk', q')" "pp_ok n r rk" "2 \<le> r"
  shows "pp_ok n r rk'" "rank_work n rk' < rank_work n rk" "q' = q"
  using assms
  by (auto simp: pp_defs pp_ok_def rank_work_def split: pp_at.splits)

lemma pp_step_inv:
  assumes "pp_inv n s" "pp_step net n payload s s'"
  shows "pp_inv n s' \<and> sum_list (map (rank_work n) (pp_ranks s')) < sum_list (map (rank_work n) (pp_ranks s))"
proof -
  obtain r rk q where 1: "s' = \<lparr>pp_ranks = (pp_ranks s)[r := rk], pp_queues = q\<rparr>" "r < length (pp_ranks s)"
    and st: "pp_rank_step net n payload (int r) (pp_ranks s ! r) (pp_queues s) = Some (rk, q)"
    using assms(2) by (auto elim: pp_stepE)
  have w: "2 \<le> length (pp_ranks s)" "0 < length (pp_ranks s)" "1 < length (pp_ranks s)" and ok: "pp_ok n r (pp_ranks s ! r)" using assms(1) 1(2) by (auto simp: pp_inv_def)
  have "rank_work n rk < rank_work n (pp_ranks s ! r) \<and> pp_inv n s'"
  proof (cases "r = 0 \<or> r = 1")
    case True
    then consider "r = 0" | "r = 1" by blast
    then show ?thesis
    proof cases
      assume r: "r = 0"
      note f = pp_rank0 [of net n payload "pp_ranks s ! 0" "pp_queues s" rk q]
      show ?thesis using f st ok assms(1) r w unfolding \<open>s' = _\<close> pp_inv_def by (auto simp: nth_list_update)
    next
      assume r: "r = 1"
      note f = pp_rank1 [of net n payload "pp_ranks s ! 1" "pp_queues s" rk q]
      show ?thesis using f st ok assms(1) r w unfolding \<open>s' = _\<close> pp_inv_def by (auto simp: nth_list_update)
    qed
  next
    case False
    then have "2 \<le> r" by simp
    from pp_rank_other [OF st ok this] this assms(1) 1(2) show ?thesis
      unfolding \<open>s' = _\<close> pp_inv_def by (auto simp: nth_list_update)
  qed
  with sum_list_replace [OF 1(2), of "rank_work n" rk] show ?thesis unfolding 1(1) by simp
qed

text \<open>Nobody waits for ever: if the two ranks both had to wait, their counts would not agree.\<close>

lemma pp_progress:
  assumes "pp_inv n s" "\<not> all_at_barrier s"
  shows "\<exists>s'. pp_step net n payload s s'"
proof -
  let ?a = "pp_ranks s ! 0" and ?b = "pp_ranks s ! 1" and ?q = "pp_queues s"
  have w: "0 < length (pp_ranks s)" "1 < length (pp_ranks s)" using assms(1) by (auto simp: pp_inv_def)
  have act: "\<exists>s'. pp_step net n payload s s'"
    if "r < length (pp_ranks s)" "pp_rank_step net n payload (int r) (pp_ranks s ! r) ?q \<noteq> None" for r
    using that by (auto intro: rank_acts)
  show ?thesis
  proof (cases "pp_at ?a = Barrier \<and> pp_at ?b = Barrier")
    case True
    obtain r where r: "r < length (pp_ranks s)" "pp_at (pp_ranks s ! r) \<noteq> Barrier"
      using assms(2) by (auto simp: all_at_barrier_def list_all_length)
    with True have "2 \<le> r" by (cases "r = 0"; cases "r = 1") auto
    moreover have "pp_ok n r (pp_ranks s ! r)" using r(1) assms(1) by (simp add: pp_inv_def)
    ultimately have "pp_at (pp_ranks s ! r) = Top" using r(2) by (auto simp: pp_ok_def split: pp_at.splits)
    with r show ?thesis by (intro act [of r]) (simp_all add: pp_rank_step_def)
  next
    case False
    have ok: "pp_ok n 0 ?a" "pp_ok n 1 ?b"
      "int (length (pings ?q)) = sends 0 ?a - recvs 1 ?b" "int (length (pongs ?q)) = sends 1 ?b - recvs 0 ?a"
      using assms(1) w by (auto simp: pp_inv_def)
    from ok(3,4) have q: "pings ?q = [] \<longleftrightarrow> sends 0 ?a = recvs 1 ?b" "recvs 1 ?b \<le> sends 0 ?a"
      "pongs ?q = [] \<longleftrightarrow> sends 1 ?b = recvs 0 ?a" "recvs 0 ?a \<le> sends 1 ?b"
      by (auto simp flip: length_0_conv)
    have "pp_rank_step net n payload 0 ?a ?q \<noteq> None \<or> pp_rank_step net n payload 1 ?b ?q \<noteq> None"
      using ok(1,2) q False
      by (auto simp: pp_defs pp_ok_def sends_def recvs_def less_Suc_eq numeral_2_eq_2
          split: pp_at.splits list.splits if_splits)
    with act [of 0] act [of 1] w show ?thesis by auto
  qed
qed

section \<open>What arrives\<close>

text \<open>Every buffer is \<open>buf\<close> and every message on its way is \<open>msg\<close>.\<close>

definition carries :: "cint list \<Rightarrow> queues \<Rightarrow> bool" where
  "carries msg q \<longleftrightarrow> (\<forall>ch. \<forall>m \<in> set (q ch). m = msg)"

definition pp_data :: "cint list \<Rightarrow> cint list \<Rightarrow> pp_state \<Rightarrow> bool" where
  "pp_data buf msg s \<longleftrightarrow> (\<forall>rk \<in> set (pp_ranks s). pp_buffer rk = buf) \<and> carries msg (pp_queues s)"

lemma carries_update: "carries msg q \<Longrightarrow> \<forall>m \<in> set xs. m = msg \<Longrightarrow> carries msg (q(ch := xs))"
  by (simp add: carries_def)

lemma carriesD: "carries msg q \<Longrightarrow> m \<in> set (q ch) \<Longrightarrow> m = msg"
  unfolding carries_def by blast

lemma carries_ConsD: "carries msg q \<Longrightarrow> q ch = m # ms \<Longrightarrow> m = msg \<and> (\<forall>m \<in> set ms. m = msg)"
  using carriesD [of msg q _ ch] by simp

lemma pp_rank_data:
  assumes "pp_rank_step net n payload rank rk q = Some (rk', q')" "pp_buffer rk = buf" "carries msg q"
    and "msg = take (nat (to_int payload)) buf" "\<forall>i tag. arrives net i tag msg @ drop (length (arrives net i tag msg)) buf = buf"
  shows "pp_buffer rk' = buf" "carries msg q'" "pp_heap rk' = pp_heap rk"
proof -
  show "pp_buffer rk' = buf"
    using assms by (auto simp: pp_rank_step_def pp_after_def Let_def dest: carries_ConsD [OF assms(3)]
        split: pp_at.splits pp_call.splits list.splits if_splits)
  show "pp_heap rk' = pp_heap rk"
    using assms(1) by (auto simp: pp_rank_step_def pp_after_def Let_def split: pp_at.splits pp_call.splits list.splits if_splits)
  show "carries msg q'"
    using assms by (auto simp: pp_rank_step_def Let_def intro!: carries_update dest: carriesD [OF assms(3)] carries_ConsD [OF assms(3)]
        split: pp_at.splits pp_call.splits list.splits if_splits)
qed

lemma pp_step_data:
  assumes "pp_step net n payload s s'" "pp_data buf msg s"
    and "msg = take (nat (to_int payload)) buf" "\<forall>i tag. arrives net i tag msg @ drop (length (arrives net i tag msg)) buf = buf"
  shows "pp_data buf msg s' \<and> map pp_heap (pp_ranks s') = map pp_heap (pp_ranks s)"
proof -
  obtain r rk q where s': "s' = \<lparr>pp_ranks = (pp_ranks s)[r := rk], pp_queues = q\<rparr>" and r: "r < length (pp_ranks s)"
    and st: "pp_rank_step net n payload (int r) (pp_ranks s ! r) (pp_queues s) = Some (rk, q)"
    using assms(1) by (auto elim: pp_stepE)
  have "pp_buffer rk = buf" "carries msg q" "pp_heap rk = pp_heap (pp_ranks s ! r)"
    using pp_rank_data [OF st _ _ assms(3,4)] assms(2) r by (auto simp: pp_data_def)
  with assms(2) r show ?thesis
    unfolding s' pp_data_def by (auto simp: map_update dest!: set_update_subset_insert [THEN subsetD])
qed

lemma pp_corrupted_clean:
  "b \<le> length buffer \<Longrightarrow> (\<forall>x \<in> set buffer. x = PATTERN) \<Longrightarrow> pp_corrupted buffer (int b) (int (length buffer)) = Some False"
proof (induction b rule: inc_induct)
  case base
  then show ?case by (subst pp_corrupted.simps) simp
next
  case (step b)
  then show ?case by (subst pp_corrupted.simps) (simp add: add.commute)
qed

definition pp_ready :: "int \<Rightarrow> heap list \<Rightarrow> pp_state" where
  "pp_ready payload heaps =
     \<lparr>pp_ranks = map (\<lambda>h. \<lparr>pp_i = 0, pp_at = Top, pp_buffer = replicate (nat (size_t payload)) PATTERN,
        pp_heap = h\<lparr>requests := requests h + 1, live := live h + 1\<rparr>\<rparr>) heaps, pp_queues = (\<lambda>_. [])\<rparr>"

lemma pp_begin_ready:
  assumes "all_grant envs" "2 \<le> length envs" "length heaps = length envs"
  shows "pp_begin envs heaps argv = Inr (pp_ready (pp_payload argv) heaps)"
proof -
  have "map (\<lambda>r. pp_setup (envs ! r) (int r) p (heaps ! r)) [0..<length envs] =
      map (\<lambda>h. Inr \<lparr>pp_i = 0, pp_at = Top, pp_buffer = replicate (nat (size_t p)) PATTERN,
        pp_heap = h\<lparr>requests := requests h + 1, live := live h + 1\<rparr>\<rparr>) heaps" for p
    using assms by (intro nth_equalityI) (auto simp: pp_setup_def mem_alloc_def all_grant_def)
  with assms(2) show ?thesis by (simp add: pp_begin_def pp_ready_def lefts_def filter_empty_conv comp_def)
qed

text \<open>What holds after so many steps, whatever arrives as long as it does not change a buffer.\<close>

lemma pp_run:
  assumes "(pp_step net n payload ^^ k) (pp_ready payload heaps) s" "2 \<le> length heaps" "0 \<le> n"
    and "buf = replicate (nat (size_t payload)) PATTERN" "msg = take (nat (to_int payload)) buf"
    and "\<forall>i tag. arrives net i tag msg @ drop (length (arrives net i tag msg)) buf = buf"
  shows "pp_inv n s \<and> pp_data buf msg s \<and> map pp_heap (pp_ranks s) = map pp_heap (pp_ranks (pp_ready payload heaps)) \<and>
    int k + sum_list (map (rank_work n) (pp_ranks s)) \<le> int (length heaps) * (6 * n + 5)"
  using assms(1)
proof (induction k arbitrary: s)
  case 0
  have "pp_ok n r (pp_ranks (pp_ready payload heaps) ! r)" if "r < length heaps" for r
    using that assms(3) by (simp add: pp_ready_def pp_ok_def)
  moreover have "sum_list (map (rank_work n) (pp_ranks (pp_ready payload heaps))) = int (length heaps) * (6 * n + 5)"
    by (simp add: pp_ready_def rank_work_def comp_def sum_list_triv)
  moreover have "pp_ready payload heaps = s" using 0 by simp
  moreover have "heaps \<noteq> []" "Suc 0 < length heaps" using assms(2) by auto
  ultimately show ?case using assms(2,4)
    by (auto simp: pp_inv_def pp_data_def carries_def sends_def recvs_def pings_def pongs_def pp_ready_def)
next
  case (Suc k)
  then obtain s1 where s1: "(pp_step net n payload ^^ k) (pp_ready payload heaps) s1" "pp_step net n payload s1 s" by auto
  from Suc.IH [OF s1(1)] pp_step_inv [OF _ s1(2)] pp_step_data [OF s1(2) _ assms(5,6)] show ?case by auto
qed

lemma rank_work_nonneg: "pp_ok n r rk \<Longrightarrow> 0 \<le> rank_work n rk"
  by (auto simp: pp_ok_def rank_work_def split: pp_at.splits)

lemma pp_inv_work:
  assumes "pp_inv n s"
  shows "0 \<le> sum_list (map (rank_work n) (pp_ranks s))"
proof (rule sum_list_nonneg)
  fix x assume "x \<in> set (map (rank_work n) (pp_ranks s))"
  then obtain r where "r < length (pp_ranks s)" "x = rank_work n (pp_ranks s ! r)" by (auto simp: in_set_conv_nth)
  with assms rank_work_nonneg [of n r "pp_ranks s ! r"] show "0 \<le> x" by (simp add: pp_inv_def)
qed

lemma bounded_run_ends:
  assumes "\<And>k s. (R ^^ k) s0 s \<Longrightarrow> k \<le> B" "\<And>k s. (R ^^ k) s0 s \<Longrightarrow> \<not> P s \<Longrightarrow> \<exists>s'. R s s'"
  shows "\<exists>k s. (R ^^ k) s0 s \<and> P s"
proof (rule ccontr)
  assume no: "\<not> ?thesis"
  have "\<exists>s. (R ^^ k) s0 s" for k
  proof (induction k)
    case (Suc k)
    then obtain s where s: "(R ^^ k) s0 s" ..
    with no assms(2) obtain s' where "R s s'" by blast
    with s show ?case by auto
  qed auto
  then obtain s where "(R ^^ Suc B) s0 s" ..
  from assms(1) [OF this] show False by simp
qed

text \<open>So a run can always be carried on to the barrier.\<close>

lemma pp_reaches_barrier:
  assumes "2 \<le> length heaps" "0 \<le> n" "buf = replicate (nat (size_t payload)) PATTERN" "msg = take (nat (to_int payload)) buf"
    and "\<forall>i tag. arrives net i tag msg @ drop (length (arrives net i tag msg)) buf = buf"
  shows "\<exists>k s. (pp_step net n payload ^^ k) (pp_ready payload heaps) s \<and> all_at_barrier s"
proof (rule bounded_run_ends)
  fix k s assume "(pp_step net n payload ^^ k) (pp_ready payload heaps) s"
  note r = pp_run [OF this assms]
  then show "k \<le> nat (int (length heaps) * (6 * n + 5))" using pp_inv_work [of n s] by auto
  show "\<exists>s'. pp_step net n payload s s'" if "\<not> all_at_barrier s" using r pp_progress that by blast
qed

lemma pp_end_intact:
  assumes "pp_data (replicate (nat payload) PATTERN) msg s" "0 \<le> payload" "length heaps = length (pp_ranks s)" "heaps \<noteq> []"
    and "map pp_heap (pp_ranks s) = map pp_heap (pp_ranks (pp_ready p heaps))"
  shows "\<exists>heaps'. pp_end n payload elapsed s = Some (Ended (replicate (length heaps) 0) (pp_report n payload False)
      (pp_timing n elapsed) heaps') \<and> map live heaps' = map live heaps"
proof -
  obtain rk rks where s: "pp_ranks s = rk # rks" using assms(3,4) by (cases "pp_ranks s") auto
  have c: "pp_corrupted (pp_buffer rk) 0 payload = Some False"
    using pp_corrupted_clean [of 0 "pp_buffer rk"] assms(1,2) s by (simp add: pp_data_def)
  have l: "length heaps = Suc (length rks)" using assms(3) s by simp
  have "map (\<lambda>rk. live (pp_heap rk)) (pp_ranks s) = map (\<lambda>h. live h + 1) heaps"
    using arg_cong [OF assms(5), of "map live"] by (simp add: pp_ready_def comp_def)
  then have "map (\<lambda>rk. live (pp_heap rk) - 1) (pp_ranks s) = map live heaps"
    by (auto simp: list_eq_iff_nth_eq)
  with c l show ?thesis by (simp add: pp_end_def s mem_free_def comp_def)
qed

text \<open>C24: With two or more ranks, memory granted, a payload whose size fits in an \<open>int\<close> and a network that
  delivers what was sent, the exchange ends: whenever a send returns, and whichever rank acts next, a run
  has at most \<open>6 * iterations + 5\<close> actions per rank, as long as not all ranks are at the barrier some rank
  can act, and then rank 0 reports the payload intact, all exit with 0 and give back their buffers.\<close>

theorem ping_pong_completes:
  assumes "all_grant envs" "2 \<le> length envs" "length heaps = length envs"
    and "\<forall>i tag m. arrives net i tag m = m"
    and "pp_iterations argv = n" "pp_payload argv = payload" "payload \<le> INT_MAX"
  shows "\<exists>s0. pp_begin envs heaps argv = Inr s0 \<and>
    (\<forall>k s. (pp_step net n payload ^^ k) s0 s \<longrightarrow>
      int k \<le> int (length envs) * (6 * n + 5) \<and>
      (if all_at_barrier s
       then \<exists>heaps'. pp_end n payload elapsed s = Some (Ended (replicate (length envs) 0) (pp_report n payload False)
           (pp_timing n elapsed) heaps') \<and> map live heaps' = map live heaps
       else \<exists>s'. pp_step net n payload s s'))"
proof -
  have n: "0 \<le> n" "0 < payload"
    using parse_positive_pos [of 1000 "arg_at argv 1"] parse_positive_pos [of 4096 "arg_at argv 2"] assms(5,6)
    by (simp_all add: pp_iterations_def pp_payload_def)
  have sz: "size_t payload = payload" "to_int payload = payload" using n assms(7) by (simp_all add: int_ranges)
  let ?buf = "replicate (nat payload) PATTERN"
  have w: "2 \<le> length heaps" "heaps \<noteq> []" using assms(2,3) by auto
  have run: "pp_inv n s \<and> pp_data ?buf ?buf s \<and> map pp_heap (pp_ranks s) = map pp_heap (pp_ranks (pp_ready payload heaps)) \<and>
      int k + sum_list (map (rank_work n) (pp_ranks s)) \<le> int (length heaps) * (6 * n + 5)"
    if "(pp_step net n payload ^^ k) (pp_ready payload heaps) s" for k s
    using pp_run [OF that w(1) n(1), of ?buf ?buf] sz assms(4) by simp
  have len: "length heaps = length (pp_ranks s)" if "map pp_heap (pp_ranks s) = map pp_heap (pp_ranks (pp_ready payload heaps))" for s
    using arg_cong [OF that, of length] by (simp add: pp_ready_def)
  show ?thesis
  proof (intro exI [of _ "pp_ready payload heaps"] conjI allI impI)
    show "pp_begin envs heaps argv = Inr (pp_ready payload heaps)" using pp_begin_ready [OF assms(1-3)] assms(6) by simp
    fix k s assume "(pp_step net n payload ^^ k) (pp_ready payload heaps) s"
    note r = run [OF this]
    then show "int k \<le> int (length envs) * (6 * n + 5)" using pp_inv_work [of n s] assms(3) by auto
    show "if all_at_barrier s
       then \<exists>heaps'. pp_end n payload elapsed s = Some (Ended (replicate (length envs) 0) (pp_report n payload False)
           (pp_timing n elapsed) heaps') \<and> map live heaps' = map live heaps
       else \<exists>s'. pp_step net n payload s s'"
      using r pp_progress [of n s net payload] pp_end_intact [of payload ?buf s heaps payload n elapsed] n len [of s] w(2) assms(3)
      by auto
  qed
qed

text \<open>A library that never buffers a message: one round trip of three bytes reaches the barrier.\<close>

theorem ping_pong_completes_witness:
  "\<exists>s0 k s heaps'. pp_begin [generous, generous] [\<lparr>requests = 0, live = 0\<rparr>, \<lparr>requests = 0, live = 0\<rparr>] [''ping-pong'', ''1'', ''3''] = Inr s0 \<and>
    (pp_step \<lparr>eager = \<lambda>_ _. False, arrives = \<lambda>_ _ m. m\<rparr> 1 3 ^^ k) s0 s \<and> k \<le> 22 \<and>
    pp_end 1 3 dzero s = Some (Ended [0, 0] (pp_report 1 3 False) (pp_timing 1 dzero) heaps') \<and> map live heaps' = [0, 0]"
proof -
  let ?net = "\<lparr>eager = \<lambda>_ _. False, arrives = \<lambda>_ _ m. m\<rparr>" and ?hs = "[\<lparr>requests = 0, live = 0\<rparr>, \<lparr>requests = 0, live = 0\<rparr>]"
    and ?argv = "[''ping-pong'', ''1'', ''3'']"
  have a: "pp_iterations ?argv = 1" "pp_payload ?argv = 3" by code_simp+
  have g: "all_grant [generous, generous]" by (simp add: all_grant_def generous_def)
  obtain k s where ks: "(pp_step ?net 1 3 ^^ k) (pp_ready 3 ?hs) s" "all_at_barrier s"
    using pp_reaches_barrier [of ?hs 1 _ 3 _ ?net, OF _ _ refl refl] by (auto simp: int_ranges)
  have b: "pp_begin [generous, generous] ?hs ?argv = Inr (pp_ready 3 ?hs)"
    using pp_begin_ready [OF g, of ?hs ?argv] a by simp
  moreover have "k \<le> 22 \<and> (\<exists>heaps'. pp_end 1 3 dzero s = Some (Ended [0, 0] (pp_report 1 3 False) (pp_timing 1 dzero) heaps') \<and> map live heaps' = [0, 0])"
    using ping_pong_completes [OF g _ _ _ a, of ?hs ?net dzero] b ks by (force simp: INT_MAX_def numeral_2_eq_2)
  ultimately show ?thesis using ks(1) by (intro exI [of _ "pp_ready 3 ?hs"] exI [of _ k] exI [of _ s]) simp
qed

text \<open>C39: For a payload of \<open>2 ^ 32\<close> bytes, with two or more ranks and their memory granted, the count of every
  call is 0: nothing is ever put on the network, and when the ranks have reached the barrier rank 0
  reports the payload intact, even on a network that would corrupt every byte.\<close>

theorem ping_pong_sends_nothing:
  assumes "all_grant envs" "2 \<le> length envs" "length heaps = length envs"
    and "\<forall>i tag m. length (arrives net i tag m) = length m"
    and "pp_iterations argv = n" "pp_payload argv = 4294967296"
  shows "\<exists>s0. pp_begin envs heaps argv = Inr s0 \<and>
    (\<forall>s. (pp_step net n 4294967296)\<^sup>*\<^sup>* s0 s \<longrightarrow>
      (\<forall>ch. concat (pp_queues s ch) = []) \<and>
      (all_at_barrier s \<longrightarrow> (\<exists>heaps'. pp_end n 4294967296 elapsed s = Some (Ended (replicate (length envs) 0)
         (pp_report n 4294967296 False) (pp_timing n elapsed) heaps'))))"
proof -
  let ?p = "4294967296 :: int"
  have n: "0 \<le> n" using parse_positive_pos [of 1000 "arg_at argv 1"] assms(5) by (simp add: pp_iterations_def)
  have sz: "size_t ?p = ?p" "to_int ?p = 0" by (simp_all add: to_int_def)
  have w: "2 \<le> length heaps" "heaps \<noteq> []" using assms(2,3) by auto
  have run: "pp_data (replicate (nat ?p) PATTERN) [] s \<and> map pp_heap (pp_ranks s) = map pp_heap (pp_ranks (pp_ready ?p heaps))"
    if st: "(pp_step net n ?p)\<^sup>*\<^sup>* (pp_ready ?p heaps) s" for s
  proof -
    obtain k where k: "(pp_step net n ?p ^^ k) (pp_ready ?p heaps) s" using rtranclp_imp_relpowp [OF st] by blast
    have "arrives net i tag [] = []" for i tag using assms(4) [rule_format, of i tag "[]"] by simp
    with pp_run [OF k w(1) n, of "replicate (nat ?p) PATTERN" "[]"] sz show ?thesis by simp
  qed
  show ?thesis
  proof (intro exI [of _ "pp_ready ?p heaps"] conjI allI impI)
    show "pp_begin envs heaps argv = Inr (pp_ready ?p heaps)" using pp_begin_ready [OF assms(1-3)] assms(6) by simp
    fix s assume s: "(pp_step net n ?p)\<^sup>*\<^sup>* (pp_ready ?p heaps) s"
    note r = run [OF s]
    then show "concat (pp_queues s ch) = []" for ch by (auto simp: pp_data_def concat_eq_Nil_conv dest: carriesD)
    have "length heaps = length (pp_ranks s)" using arg_cong [of _ _ length, OF conjunct2 [OF r]] by (simp add: pp_ready_def)
    from pp_end_intact [OF conjunct1 [OF r] _ this w(2) conjunct2 [OF r], of n elapsed] assms(3)
    show "\<exists>heaps'. pp_end n ?p elapsed s = Some (Ended (replicate (length envs) 0) (pp_report n ?p False) (pp_timing n elapsed) heaps')"
      by auto
  qed
qed

text \<open>A network that turns every byte into 0.\<close>

theorem ping_pong_sends_nothing_witness:
  "\<exists>s0 s heaps'. pp_begin [generous, generous] [\<lparr>requests = 0, live = 0\<rparr>, \<lparr>requests = 0, live = 0\<rparr>] [''ping-pong'', ''1'', ''4294967296''] = Inr s0 \<and>
    (pp_step \<lparr>eager = \<lambda>_ _. False, arrives = \<lambda>_ _ m. map (\<lambda>_. 0) m\<rparr> 1 4294967296)\<^sup>*\<^sup>* s0 s \<and>
    pp_end 1 4294967296 dzero s = Some (Ended [0, 0] (pp_report 1 4294967296 False) (pp_timing 1 dzero) heaps')"
proof -
  let ?net = "\<lparr>eager = \<lambda>_ _. False, arrives = \<lambda>_ _ m. map (\<lambda>_. 0) m\<rparr>" and ?hs = "[\<lparr>requests = 0, live = 0\<rparr>, \<lparr>requests = 0, live = 0\<rparr>]"
    and ?argv = "[''ping-pong'', ''1'', ''4294967296'']"
  have a: "pp_iterations ?argv = 1" "pp_payload ?argv = 4294967296" by code_simp+
  have g: "all_grant [generous, generous]" by (simp add: all_grant_def generous_def)
  have z: "to_int 4294967296 = 0" by (simp add: to_int_def)
  obtain k s where ks: "(pp_step ?net 1 4294967296 ^^ k) (pp_ready 4294967296 ?hs) s" "all_at_barrier s"
    using pp_reaches_barrier [of ?hs 1 _ 4294967296 _ ?net, OF _ _ refl refl] z by auto
  have b: "pp_begin [generous, generous] ?hs ?argv = Inr (pp_ready 4294967296 ?hs)"
    using pp_begin_ready [OF g, of ?hs ?argv] a by simp
  have "\<exists>heaps'. pp_end 1 4294967296 dzero s = Some (Ended (replicate 2 0) (pp_report 1 4294967296 False) (pp_timing 1 dzero) heaps')"
    using ping_pong_sends_nothing [OF g _ _ _ a, of ?hs ?net dzero] b ks(2) relpowp_imp_rtranclp [OF ks(1)] by (auto simp: numeral_2_eq_2)
  with b relpowp_imp_rtranclp [OF ks(1)] show ?thesis by (auto simp: numeral_2_eq_2)
qed

end
