(* ===== verification/Example_Hello.thy ===== *)
theory Example_Hello
  imports Writer
begin

text \<open>
  The example \<open>src/examples/hello-mpi/main.c\<close>: each rank writes one line with its rank, the size of the
  world and the name of its node, and flushes it. The order of the lines is not controlled; each line
  names its rank, so no two are the same.
\<close>

definition hello_line :: "cint \<Rightarrow> cint \<Rightarrow> string \<Rightarrow> string" where
  "hello_line rank world_size host =
     text_line (''Hello from rank '' @ show_int rank @ '' of '' @ show_int world_size @ '' on '' @ host)"

text \<open>What each rank writes and its exit code, given the name the library reports for each node: a C string
  in the buffer \<open>host\<close>.\<close>

definition hello_main :: "string list \<Rightarrow> (string \<times> cint) list" where
  "hello_main hosts =
     map (\<lambda>r. (hello_line (int r) (int (length hosts)) (c_str (hosts ! r)), 0)) [0..<length hosts]"

lemma hello_line_rank: "hello_line r w host = hello_line r' w' host' \<Longrightarrow> r = r'"
  using show_int_cancel [of r "'' of '' @ show_int w @ '' on '' @ host @ newline"
      r' "'' of '' @ show_int w' @ '' on '' @ host' @ newline"]
  by (simp add: hello_line_def text_line_def no_digit_next_def isdigit_def)

lemma hello_lines_distinct: "distinct (map fst (hello_main hosts))"
  by (auto simp: hello_main_def distinct_conv_nth dest: hello_line_rank)

end
