(* ===== verification/Spec2Isabelle.thy ===== *)
theory Spec2Isabelle
  imports Registry Parser Writer Runner_Local Runner_MPI Broadcast Options Program Program_MPI Program_Safety
    Example_Sum Example_Matmul Example_PingPong Example_Hello
begin

text \<open>
  A verification development for the C and CUDA code of this repository: the hybrid object matcher
  \<open>src/examples/hybrid-object-matching\<close> (called \<open>msearch\<close> below; its paths are relative to that directory)
  and the small MPI programs beside it.

  \<^bold>\<open>What the program does.\<close> \<open>msearch\<close> reads pictures and objects, square matrices of numbers, and finds
  for every picture an object that occurs in it: a placement at which the sum of the relative
  differences is below a threshold. \<open>main\<close> parses the options, has rank 0 read the input file,
  broadcasts the problem to all ranks in an MPI build, chooses a backend, has a runtime search every
  picture with it and writes one line per picture. A backend (serial, OpenMP, CUDA) decides how a
  picture is searched, a runtime (local, MPI) which process searches which picture. The contract that
  ties them, in \<open>include/msearch/backend.h\<close>, is that the answer is determined: among the objects in
  ascending order of their ids the first that occurs, at its first placement in row-major order.

  \<^bold>\<open>The reading of C.\<close> A function that can reach undefined behaviour (signed overflow, an access outside
  an array, a division by zero) returns an option, \<open>None\<close> standing for it, so every \<open>Some\<close> in a theorem
  is a proof of its absence. \<open>int\<close> and \<open>long\<close> are integers checked against their range (\<open>chk32\<close>, \<open>chk64\<close>),
  \<open>size_t\<close> wraps, a conversion to \<open>int\<close> wraps (\<open>to_int\<close>). A double is a datatype with the IEEE-754
  operations computed from their definition. Every allocation may be refused: an \<open>env\<close> says which, and
  what fresh memory holds; a \<open>heap\<close> counts requests and live blocks, so \<open>live h' = live h\<close> says that nothing
  leaks. The message buffer \<open>err\<close> is a bounded string or null; logging is the text handed to \<open>stderr\<close>.

  \<^bold>\<open>Files and streams.\<close> An input file is its content and, when reading it fails, the number of bytes
  before the error (\<open>in_file\<close>): \<open>fgetc\<close> reports an error as it reports the end of the file, and the parser does
  not tell them apart (\<open>fgetc_bytes\<close>). Output streams are buffered: a successful \<open>fprintf\<close> puts bytes into the
  stream, a failing one may have put out part of its line. What is assumed of the library is that a
  file holds everything handed over once \<open>fclose\<close> has succeeded and some prefix of it (of length \<open>taken\<close>)
  otherwise, and that \<open>exit\<close> flushes standard output, of which the other end takes everything or the
  first \<open>host_stdout\<close> bytes (\<open>at_exit\<close>). The program closes the results file and looks at the result; it
  neither flushes nor checks standard output.

  \<^bold>\<open>Theories and the code they model.\<close>
  \<^item> \<open>Prelude\<close>: the C operations above; \<open>Ieee_Double\<close>: doubles, rounding, and the two facts the metric rests
    on (rounding is monotone; adding a non-negative number never decreases a sum); \<open>C_Stdlib\<close>: \<open>strtol\<close>,
    \<open>strtod\<close>, \<open>%g\<close>, \<open>%.2f\<close>, \<open>%.6f\<close>.
  \<^item> \<open>Log\<close> (\<open>src/core/log.c\<close>), \<open>Config\<close> (\<open>include/msearch/config.h\<close>), \<open>Problem\<close> (\<open>include/msearch/types.h\<close>,
    \<open>src/core/problem.c\<close>): the records of the data model, allocation, release, validation, sorting.
  \<^item> \<open>Metric\<close> (\<open>include/msearch/metric.h\<close>): \<open>msearch_term\<close> and \<open>msearch_score_at\<close> with its early exit.
  \<^item> \<open>Backend\<close> (\<open>include/msearch/backend.h\<close>): the table of functions, the contract as the function
    \<open>canonical_match\<close> and as the relation \<open>contract\<close>, and the locale \<open>match_backend\<close>: what a runtime needs of a
    backend. \<open>Backend_Serial\<close>, \<open>Backend_OpenMP\<close>, \<open>Backend_CUDA\<close> (\<open>src/backends\<close>) model the three backends; the
    first two interpret the locale, the third satisfies it for every device (\<open>cuda_match_backend\<close>).
  \<^item> \<open>Registry\<close> (\<open>src/backends/registry.c\<close>): lookup, automatic choice, listing, for any build.
  \<^item> \<open>Parser\<close> (\<open>src/core/parser.c\<close>): lexer, readers, cleanup path, and the input format as the
    specification \<open>t_problem\<close> over tokens; \<open>Writer\<close> (\<open>src/core/writer.c\<close>): lines and the file protocol.
  \<^item> \<open>Runner_Local\<close> (\<open>src/runtime/runner_local.c\<close>), \<open>MPI_Library\<close>, \<open>Runner_MPI\<close> and \<open>Broadcast\<close>
    (\<open>src/runtime/runner_mpi.c\<close>): claiming, gathering, agreement on the status, and the broadcast.
  \<^item> \<open>Options\<close> (\<open>src/cli/options.c\<close>), \<open>Program\<close> and \<open>Program_MPI\<close> (\<open>src/cli/main.c\<close>): one process from \<open>argv\<close> to
    its exit code over a \<open>runtime\<close>; the locale \<open>search_runtime\<close> is what \<open>main\<close> needs of it when nothing
    fails, interpreted by the build without MPI and satisfied by every rank of the MPI build
    (\<open>mpi_search_runtime\<close>). \<open>Program_Safety\<close>: the same \<open>main\<close> when anything may fail; the locale
    \<open>runtime_contract\<close> is what it still has from a runtime then, for every backend, interpreted by the build
    without MPI and satisfied by rank 0 of every job (\<open>mpi_runtime_contract\<close>).
  \<^item> \<open>Example_Common\<close>, \<open>Example_Sum\<close>, \<open>Example_Matmul\<close>, \<open>Example_PingPong\<close>, \<open>Example_Hello\<close>: the programs
    \<open>distributed-sum\<close>, \<open>matrix-multiply\<close>, \<open>ping-pong\<close> and \<open>hello-mpi\<close> under \<open>src/examples\<close>.
  \<^item> this theory: what holds across backends and runtimes.

  \<^bold>\<open>Concurrency.\<close> Four pieces of code run in parallel, and each is a transition system in which any
  participant may act next, one atomic action (the accesses to shared memory) at a time: the OpenMP
  loop (\<open>omp_step\<close>), the CUDA kernel (\<open>cuda_step\<close>), the claiming of pictures by ranks (\<open>mpi_step\<close>) and the
  exchange of the ping-pong (\<open>pp_step\<close>). The first two are executable runs along a schedule, a function
  from step numbers to threads that skips those that have finished; they need no fuel, for each step
  decreases a measure, so the run is a total function. The other two are inductive relations. In each an
  invariant is preserved by every step and determines the result at the end, so the theorems quantify
  over all schedules and interleavings.

  \<^bold>\<open>Groups of lemmas.\<close> In every component: what one operation does on each branch (\<open>_spec\<close>,
  \<open>_cases\<close>, \<open>_outcome\<close>); the invariant and its preservation (\<open>_inv\<close>, \<open>_ok\<close>); the refinement to the abstract
  function (\<open>_canonical\<close>, \<open>_agrees\<close>); the balance of the heap (\<open>live_\<close>, \<open>_balanced\<close>, \<open>attempts_\<close>). The properties,
  marked C1, C2 and so on in the texts before them, are few lines over these. They say that the three
  backends agree with the contract for every schedule; that the reader accepts exactly the format,
  round-trips and cleans up on every failure; that the early exit of the metric never changes a
  decision; that no picture is claimed twice, the claiming ends and the gathered array is the local one;
  that the broadcast replicates the problem; that the command line means what the usage text says;
  that the program, without MPI or as an MPI job, writes the canonical lines; that with failures of any
  kind what arrives is a prefix of the right bytes, that the program ends, and which exit code stands for
  which failure; that \<open>--verify\<close> compares every available backend, right or wrong, with the serial one. A few
  state defects: the line number of diagnostics, ids below zero, a failed allocation that cannot be
  freed, a refused gather buffer, results lost on standard output with exit code 0, a read error taken
  for the end of the input, the truncation of sizes to \<open>int\<close> in the examples.

  \<^bold>\<open>Parameters.\<close> What is outside the repository is an argument of the definitions, with its documented laws
  as a predicate: the allocator, the file system, the clock (\<open>env\<close>, \<open>host\<close>, \<open>out_files\<close>); \<open>qsort\<close>, of which
  only the length of the result is used; the MPI library (\<open>mpi_conforms\<close>, \<open>collectives_ok\<close>, \<open>bc_link\<close>,
  \<open>network\<close>); the CUDA device and runtime (\<open>gpu_ok\<close>), every call of which may fail. The bounds in the
  theorems are the program's own (\<open>MSEARCH_MAX_SIDE\<close>, \<open>MSEARCH_MAX_COUNT\<close>) or where its arithmetic ends
  (a matrix of side 46340 for \<open>matrix-multiply\<close>, \<open>INT_MAX\<close> for the sum and the payload).

  \<^bold>\<open>Not modelled.\<close> \<open>MPI_Init\<close>, \<open>MPI_Finalize\<close>, barriers and window synchronisation, which have no effect
  on the modelled state; the memory models of C and CUDA below the atomic actions named above; timing
  itself; a rank that another one kills with \<open>MPI_Abort\<close>: the theorems on rank 0 of a job assume peers that take
  part in it (\<open>mpi_world_sound\<close>); a full or closed \<open>stderr\<close>; the other branches of \<open>msearch_wtime\<close>; a negative count passed to an MPI call, which the library
  rejects. Build files, scripts and tests carry no logic of the
  program.
\<close>

section \<open>Any backend, any runtime\<close>

text \<open>C2: The answer depends neither on the backend nor on the runtime. For any two backends of a build, the
  CUDA one with whatever failures of its calls included: a local run with the one ends without undefined
  behaviour, and so does a distributed run with the other over two or more ranks unless rank 0's gather
  buffers are refused, when it has no defined result (C32), for every schedule of threads, kernels
  and ranks; and when both report success rank 0 has the same matches in the same order, each honouring
  the determinism contract.\<close>

theorem answer_independent_of_backend_and_runtime:
  assumes "bk \<in> set (kBackends bld)" "bk' \<in> set (kBackends bld)" "devices_ok bld"
    and "mpi_conforms M" "mpi_job p (c_zero_eps cfg) ris" "2 \<le> length ris"
    and "mpi_reach M bk' ris s" "all_finished s" "length ms = length (pictures p)"
  shows "\<exists>st ms1 err' lg h'. msearch_run_local bk pf env ws p cfg ms err h = Some (st, ms1, err', lg, h') \<and> live h' = live h \<and>
    (st = MSEARCH_OK \<longrightarrow> list_all2 (contract p (c_zero_eps cfg)) (pictures p) ms1) \<and>
    (if gather_room bk' ris
     then \<exists>outs ms2. msearch_run_mpi M bk' ris ms s = Some (outs, ms2) \<and>
       (fst (hd outs) = MSEARCH_OK \<longrightarrow> list_all2 (contract p (c_zero_eps cfg)) (pictures p) ms2) \<and>
       (st = MSEARCH_OK \<longrightarrow> fst (hd outs) = MSEARCH_OK \<longrightarrow> ms2 = ms1)
     else msearch_run_mpi M bk' ris ms s = None)"
proof -
  note jb = mpi_jobD [OF assms(5)]
  obtain st ms1 err' lg h' where l: "msearch_run_local bk pf env ws p cfg ms err h = Some (st, ms1, err', lg, h')"
    "st = MSEARCH_OK \<longrightarrow> ms1 = canonical_matches p cfg" "live h' = live h"
    using match_backend.run_local_spec [OF registry_match_backend [OF assms(1,3)] jb(1,2), of ms pf env ws err h] assms(9)
    by auto
  have con: "list_all2 (contract p (c_zero_eps cfg)) (pictures p) (canonical_matches p cfg)"
    using canonical_match_contract [OF problem_okD(6,7) [OF jb(1)]]
    by (auto simp: canonical_matches_def list_all2_conv_all_nth)
  note dist = match_backend.run_mpi_any_backend [OF registry_match_backend [OF assms(2,3)] assms(5,4,6-9)]
  have "if gather_room bk' ris
     then \<exists>outs ms2. msearch_run_mpi M bk' ris ms s = Some (outs, ms2) \<and> (fst (hd outs) = MSEARCH_OK \<longrightarrow> ms2 = canonical_matches p cfg)
     else msearch_run_mpi M bk' ris ms s = None"
  proof (cases "gather_room bk' ris")
    case True
    with dist obtain outs ms2 where m: "msearch_run_mpi M bk' ris ms s = Some (outs, ms2)" "length outs = length ris"
      "if no_failure s then list_all (\<lambda>out. fst out = MSEARCH_OK) outs \<and> ms2 = canonical_matches p cfg
       else list_all (\<lambda>out. fst out \<noteq> MSEARCH_OK) outs" unfolding canonical_matches_def by auto
    have "outs \<noteq> []" using m(2) assms(6) by auto
    then have "ms2 = canonical_matches p cfg" if "fst (hd outs) = MSEARCH_OK"
      using m(3) that by (cases outs) (auto split: if_splits)
    with m(1) True show ?thesis by simp
  qed (use dist in simp)
  with l con show ?thesis by (auto split: if_splits)
qed

theorem answer_independent_of_backend_and_runtime_witness:
  "\<exists>s err' lg h' outs ms. mpi_reach plain_mpi msearch_backend_openmp two_ranks s \<and>
    msearch_run_local msearch_backend_serial \<lparr>omp_num_threads_set = False, omp_max_threads = 8\<rparr> granting
      (\<lambda>_. \<lparr>w_team = (\<lambda>_. 1), w_sched = (\<lambda>_ t. t), w_stale = (\<lambda>_ _. 0), w_cuda = (\<lambda>_ _. None)\<rparr>) tiny_problem
      msearch_config_defaults [msearch_match_none 0] None \<lparr>requests = 0, live = 0\<rparr> = Some (MSEARCH_OK, ms, err', lg, h') \<and>
    msearch_run_mpi plain_mpi msearch_backend_openmp two_ranks [msearch_match_none 0] s = Some (outs, ms)"
proof -
  let ?bld = "\<lparr>have_cuda = Some (one_gpu None), have_openmp = True\<rparr>" and ?h = "\<lparr>requests = 0, live = 0\<rparr>"
    and ?pf = "\<lparr>omp_num_threads_set = False, omp_max_threads = 8\<rparr>"
    and ?ws = "\<lambda>_::cint. \<lparr>w_team = (\<lambda>_::cint. 1::nat), w_sched = (\<lambda>(_::cint) (t::nat). t), w_stale = (\<lambda>_ _. 0), w_cuda = (\<lambda>_ _. None)\<rparr>"
  have b: "msearch_backend_serial \<in> set (kBackends ?bld)" "msearch_backend_openmp \<in> set (kBackends ?bld)" "devices_ok ?bld"
    by (simp_all add: kBackends_def devices_ok_def one_gpu_ok)
  have cpu: "msearch_backend_serial \<in> cpu_backends" "msearch_backend_openmp \<in> cpu_backends" by (simp_all add: cpu_backends_def)
  have eps: "c_zero_eps msearch_config_defaults = MSEARCH_DEFAULT_ZERO_EPS" by (simp add: msearch_config_defaults_def)
  obtain s where s: "mpi_reach plain_mpi msearch_backend_openmp two_ranks s" "all_finished s" using two_ranks_finish by blast
  have l: "2 \<le> length two_ranks" "length [msearch_match_none 0] = length (pictures tiny_problem)"
    by (simp_all add: two_ranks_def tiny_problem_def)
  obtain st ms1 err' lg h' outs ms2 where r: "msearch_run_local msearch_backend_serial ?pf granting ?ws tiny_problem
      msearch_config_defaults [msearch_match_none 0] None ?h = Some (st, ms1, err', lg, h')"
    "msearch_run_mpi plain_mpi msearch_backend_openmp two_ranks [msearch_match_none 0] s = Some (outs, ms2)"
    "st = MSEARCH_OK \<longrightarrow> fst (hd outs) = MSEARCH_OK \<longrightarrow> ms2 = ms1"
    using answer_independent_of_backend_and_runtime [OF b plain_mpi_conforms two_ranks_job [folded eps] l(1) s l(2), of ?pf granting ?ws None ?h]
      two_ranks_room(1) by auto
  have "st = MSEARCH_OK"
    using cpu_run_local [OF tiny_problem_ok _ _ cpu(1), of msearch_config_defaults "[msearch_match_none 0]" ?pf granting ?ws None ?h] r(1) l(2)
    by (auto simp: eps granting_def)
  moreover have "fst (hd outs) = MSEARCH_OK"
  proof -
    have nf: "no_failure s" using cpu_no_failure [OF cpu(2) s(1)] two_ranks_room(2) by simp
    have room: "fst (gather_buffers (ri_env (hd two_ranks)) (num_pictures tiny_problem) (rk_heap (rank_start msearch_backend_openmp (hd two_ranks))))"
      using two_ranks_room(1) by (simp add: gather_room_def two_ranks_def numeral_2_eq_2)
    have "mpi_finish plain_mpi msearch_backend_openmp two_ranks (ranks s) [msearch_match_none 0] = Some (outs, ms2)"
      using r(2) l(1) by (simp add: msearch_run_mpi_def)
    with openmp.finish_spec [OF two_ranks_job plain_mpi_conforms s l(2) room] nf l(1)
    have "list_all (\<lambda>out. fst out = MSEARCH_OK) outs" "length outs = length two_ranks" by auto
    with l(1) show ?thesis by (cases outs) auto
  qed
  ultimately show ?thesis using r s(1) by blast
qed

end
